theory Spec2Isabelle
  imports Main "HOL-Library.Word" "HOL-Library.Multiset" "HOL-Library.Signed_Division"
    "HOL-Library.Monad_Syntax"
begin

unbundle bit_operations_syntax

section \<open>Bit helper (details/bitwise.hpp)\<close>

text \<open>
  \<^verbatim>\<open>std::size_t\<close> is a 64-bit unsigned integer; \<^verbatim>\<open>bitwise<U, 8>::ftz\<close> is the
  shift-or cascade on it.
\<close>

type_synonym size_t = "64 word"

definition ftz :: "size_t \<Rightarrow> size_t" where
  "ftz u0 =
    (let u1 = u0 OR drop_bit 1 u0;
         u2 = u1 OR drop_bit 2 u1;
         u3 = u2 OR drop_bit 4 u2;
         u4 = u3 OR drop_bit 8 u3;
         u5 = u4 OR drop_bit 16 u4;
         u6 = u5 OR drop_bit 32 u5
     in u6)"

section \<open>State cell\<close>

datatype State = Invalid | Heads | Tails | Unsure

text \<open>\<^verbatim>\<open>operator~\<close>: exclusive or of the two-bit encoding with \<^verbatim>\<open>0x3\<close>.\<close>

fun state_not :: "State \<Rightarrow> State" where
  "state_not Invalid = Unsure"
| "state_not Heads = Tails"
| "state_not Tails = Heads"
| "state_not Unsure = Invalid"

text \<open>\<^verbatim>\<open>operator+\<close>.\<close>

definition state_plus :: "State \<Rightarrow> State \<Rightarrow> State" where
  "state_plus a b = (if a = b then a else Unsure)"

section \<open>Index capability\<close>

text \<open>
  The index supplies the number of dimensions \<^verbatim>\<open>kth()\<close> and the comparison along one
  axis. Both overloads of \<^verbatim>\<open>select_compare\<close> yield a predicate of the shape
  \<^verbatim>\<open>(d, a, b)\<close>; the composition of an accessor with a comparator is such a predicate,
  so the index is modelled by the predicate alone.
\<close>

record 'v indexable =
  kth :: nat
  access_compare :: "nat \<Rightarrow> 'v \<Rightarrow> 'v \<Rightarrow> bool"

definition select_compare :: "nat \<Rightarrow> 'v \<Rightarrow> 'v \<Rightarrow> 'v indexable \<Rightarrow> bool" where
  "select_compare d a b i = access_compare i d a b"

text \<open>\<^verbatim>\<open>inc<K>(d)\<close>.\<close>

definition inc_dim :: "nat \<Rightarrow> nat \<Rightarrow> nat" where
  "inc_dim K d = (d + 1) mod K"

section \<open>Tree geometry\<close>

text \<open>
  An iterator is a pair of pointers, into the value array and into the state array, that
  always advance together; it is modelled by one address, an integer counted in slots.
  Both arrays are functions from addresses: the value memory and the state memory.
  Offsets are \<^verbatim>\<open>difference_type\<close> values; their division is the truncating division of
  C++, \<open>sdiv\<close>.
\<close>

type_synonym iterator = int
type_synonym 'v vmem = "int \<Rightarrow> 'v"
type_synonym smem = "int \<Rightarrow> State"

definition left :: "iterator \<Rightarrow> int \<Rightarrow> iterator" where
  "left x o' = x - o'"

definition right :: "iterator \<Rightarrow> int \<Rightarrow> iterator" where
  "right x o' = x + o'"

definition root :: "iterator \<Rightarrow> int \<Rightarrow> iterator" where
  "root x d = x + d sdiv 2"

definition root_offset :: "int \<Rightarrow> int" where
  "root_offset d = (d + 1) sdiv 4"

definition is_valid :: "smem \<Rightarrow> iterator \<Rightarrow> bool" where
  "is_valid sm x = (sm x \<noteq> Invalid)"

section \<open>Per-axis extrema\<close>

text \<open>
  \<open>minimum_loop\<close> is the state of \<^verbatim>\<open>minimum\<close> at the head of its \<^verbatim>\<open>while\<close> loop, with
  the running \<^verbatim>\<open>best\<close>; \<^verbatim>\<open>minimum\<close> enters it with \<^verbatim>\<open>best = node\<close>.
\<close>

function minimum_loop ::
  "'v indexable \<Rightarrow> 'v vmem \<Rightarrow> smem \<Rightarrow> nat \<Rightarrow> nat \<Rightarrow> int \<Rightarrow> iterator \<Rightarrow> iterator \<Rightarrow> iterator"
where
  "minimum_loop index vm sm fixed_dim node_dim node_offset node best =
    (if node_offset > 1 then
       let child_dim = inc_dim (kth index) node_dim;
           child_offset = node_offset sdiv 2;
           child = minimum_loop index vm sm fixed_dim child_dim child_offset
                     (left node node_offset) (left node node_offset);
           best1 = (if \<not> select_compare fixed_dim (vm best) (vm child) index
                    then child else best)
       in if node_dim = fixed_dim then best1
          else
            let child' = right node node_offset;
                best2 = (if \<not> select_compare fixed_dim (vm best1) (vm child') index
                         then child' else best1)
            in minimum_loop index vm sm fixed_dim child_dim child_offset child' best2
     else if node_offset = 1 then
       let child = left node node_offset;
           best1 = (if is_valid sm child
                       \<and> \<not> select_compare fixed_dim (vm best) (vm child) index
                    then child else best);
           child' = right node node_offset;
           best2 = (if is_valid sm child'
                       \<and> \<not> select_compare fixed_dim (vm best1) (vm child') index
                    then child' else best1)
       in best2
     else best)"
  by pat_completeness auto
termination
  by (relation "measure (\<lambda>(index, vm, sm, fixed_dim, node_dim, node_offset, node, best).
        nat node_offset)") (auto simp: signed_divide_int_def)

definition minimum ::
  "'v indexable \<Rightarrow> 'v vmem \<Rightarrow> smem \<Rightarrow> nat \<Rightarrow> nat \<Rightarrow> int \<Rightarrow> iterator \<Rightarrow> iterator"
where
  "minimum index vm sm fixed_dim node_dim node_offset node =
     minimum_loop index vm sm fixed_dim node_dim node_offset node node"

function maximum_loop ::
  "'v indexable \<Rightarrow> 'v vmem \<Rightarrow> smem \<Rightarrow> nat \<Rightarrow> nat \<Rightarrow> int \<Rightarrow> iterator \<Rightarrow> iterator \<Rightarrow> iterator"
where
  "maximum_loop index vm sm fixed_dim node_dim node_offset node best =
    (if node_offset > 1 then
       let child_dim = inc_dim (kth index) node_dim;
           child_offset = node_offset sdiv 2;
           child = maximum_loop index vm sm fixed_dim child_dim child_offset
                     (right node node_offset) (right node node_offset);
           best1 = (if \<not> select_compare fixed_dim (vm child) (vm best) index
                    then child else best)
       in if node_dim = fixed_dim then best1
          else
            let child' = left node node_offset;
                best2 = (if \<not> select_compare fixed_dim (vm child') (vm best1) index
                         then child' else best1)
            in maximum_loop index vm sm fixed_dim child_dim child_offset child' best2
     else if node_offset = 1 then
       let child = left node node_offset;
           best1 = (if is_valid sm child
                       \<and> \<not> select_compare fixed_dim (vm child) (vm best) index
                    then child else best);
           child' = right node node_offset;
           best2 = (if is_valid sm child'
                       \<and> \<not> select_compare fixed_dim (vm child') (vm best1) index
                    then child' else best1)
       in best2
     else best)"
  by pat_completeness auto
termination
  by (relation "measure (\<lambda>(index, vm, sm, fixed_dim, node_dim, node_offset, node, best).
        nat node_offset)") (auto simp: signed_divide_int_def)

definition maximum ::
  "'v indexable \<Rightarrow> 'v vmem \<Rightarrow> smem \<Rightarrow> nat \<Rightarrow> nat \<Rightarrow> int \<Rightarrow> iterator \<Rightarrow> iterator"
where
  "maximum index vm sm fixed_dim node_dim node_offset node =
     maximum_loop index vm sm fixed_dim node_dim node_offset node node"

section \<open>Deferred placement\<close>

text \<open>
  The value type's copy and move constructors may throw; the value traits say for which
  values they do, and what a constructor that throws leaves in the slot it was building
  in: nothing (\<open>None\<close>), or what it had written there before it threw.
  \<^verbatim>\<open>std::memcpy\<close> never throws.
\<close>

record 'v value_traits =
  copy_throws :: "'v \<Rightarrow> bool"
  move_throws :: "'v \<Rightarrow> bool"
  copy_leaves :: "'v \<Rightarrow> 'v option"
  move_leaves :: "'v \<Rightarrow> 'v option"

datatype 'v deferred = Deferred_memcpy iterator | Deferred_copy 'v | Deferred_move 'v

fun cref :: "'v deferred \<Rightarrow> 'v vmem \<Rightarrow> 'v" where
  "cref (Deferred_memcpy p) vm = vm p"
| "cref (Deferred_copy v) vm = v"
| "cref (Deferred_move v) vm = v"

text \<open>
  \<^verbatim>\<open>place_at\<close> builds the value in slot \<open>x\<close>: \<open>Inr\<close> with the memory holding it, or, when
  the constructor throws, \<open>Inl\<close> with the memory as the constructor leaves it.
\<close>

definition after_throw :: "'v option \<Rightarrow> iterator \<Rightarrow> 'v vmem \<Rightarrow> 'v vmem" where
  "after_throw g x vm = (case g of None \<Rightarrow> vm | Some w \<Rightarrow> vm(x := w))"

fun place_at :: "'v value_traits \<Rightarrow> 'v deferred \<Rightarrow> iterator \<Rightarrow> 'v vmem \<Rightarrow> 'v vmem + 'v vmem" where
  "place_at vt (Deferred_memcpy p) x vm = Inr (vm(x := vm p))"
| "place_at vt (Deferred_copy v) x vm =
     (if copy_throws vt v then Inl (after_throw (copy_leaves vt v) x vm) else Inr (vm(x := v)))"
| "place_at vt (Deferred_move v) x vm =
     (if move_throws vt v then Inl (after_throw (move_leaves vt v) x vm) else Inr (vm(x := v)))"

section \<open>Removal from a full subtree\<close>

function erase_when_full ::
  "'v indexable \<Rightarrow> nat \<Rightarrow> int \<Rightarrow> iterator \<Rightarrow> iterator \<Rightarrow> 'v vmem \<Rightarrow> smem \<Rightarrow> 'v vmem \<times> smem"
where
  "erase_when_full index node_dim node_offset node erased vm sm =
    (if node_offset > 1 then
       let child_dim = inc_dim (kth index) node_dim;
           child_offset = node_offset sdiv 2;
           lnode = left node node_offset;
           rnode = right node node_offset;
           (vm', sm') =
             (if node = erased then
                let tmp = minimum index vm sm node_dim child_dim child_offset rnode;
                    vm1 = vm(erased := vm tmp)
                in erase_when_full index child_dim child_offset rnode tmp vm1 sm
              else if node < erased then
                erase_when_full index child_dim child_offset rnode erased vm sm
              else
                erase_when_full index child_dim child_offset lnode erased vm sm)
       in (vm', sm'(node := Unsure))
     else if node_offset = 1 then
       let rnode = right node node_offset
       in if node = erased
          then (vm(node := vm rnode), (sm(rnode := Invalid))(node := Unsure))
          else (vm, (sm(erased := Invalid))(node := Unsure))
     else (vm, sm(node := Invalid)))"
  by pat_completeness auto
termination
  by (relation "measure (\<lambda>(index, node_dim, node_offset, node, erased, vm, sm).
        nat node_offset)") (auto simp: signed_divide_int_def)

section \<open>The rotating insertion\<close>

text \<open>
  The outcome of \<^verbatim>\<open>_single_insert\<close>: the iterator it returns with the memory it leaves,
  or the memory as it stands when a constructor's exception leaves the function.
\<close>

datatype 'v placement = Placed iterator "'v vmem" smem | Thrown "'v vmem" smem

text \<open>The branch \<^verbatim>\<open>offset == 1\<close> of \<^verbatim>\<open>_single_insert\<close>: a node and its two leaves.\<close>

definition single_insert_leaves ::
  "'v indexable \<Rightarrow> 'v value_traits \<Rightarrow> State \<Rightarrow> nat \<Rightarrow> iterator \<Rightarrow> 'v deferred
     \<Rightarrow> 'v vmem \<Rightarrow> smem \<Rightarrow> 'v placement"
where
  "single_insert_leaves index vt full_state node_dim node defer vm sm =
    (let lnode = left node 1; rnode = right node 1 in
     if select_compare node_dim (cref defer vm) (vm node) index then
       if is_valid sm lnode then
         let vm1 = vm(rnode := vm node);
             sm1 = (sm(rnode := full_state))(node := full_state)
         in if select_compare node_dim (cref defer vm1) (vm1 lnode) index then
              let vm2 = vm1(node := vm1 lnode)
              in (case place_at vt defer lnode vm2 of
                    Inl vmt \<Rightarrow> Thrown vmt sm1
                  | Inr vm3 \<Rightarrow> Placed lnode vm3 sm1)
            else
              (case place_at vt defer node vm1 of
                 Inl vmt \<Rightarrow> Thrown vmt sm1
               | Inr vm2 \<Rightarrow> Placed node vm2 sm1)
       else
         (case place_at vt defer lnode vm of
            Inl vmt \<Rightarrow> Thrown vmt sm
          | Inr vm1 \<Rightarrow>
              let sm1 = sm(lnode := full_state);
                  sm2 = (if is_valid sm1 rnode then sm1(node := full_state) else sm1)
              in Placed lnode vm1 sm2)
     else
       if is_valid sm rnode then
         let vm1 = vm(lnode := vm node);
             sm1 = (sm(lnode := full_state))(node := full_state)
         in if select_compare node_dim (vm1 rnode) (cref defer vm1) index then
              let vm2 = vm1(node := vm1 rnode)
              in (case place_at vt defer rnode vm2 of
                    Inl vmt \<Rightarrow> Thrown vmt sm1
                  | Inr vm3 \<Rightarrow> Placed rnode vm3 sm1)
            else
              (case place_at vt defer node vm1 of
                 Inl vmt \<Rightarrow> Thrown vmt sm1
               | Inr vm2 \<Rightarrow> Placed node vm2 sm1)
       else
         (case place_at vt defer rnode vm of
            Inl vmt \<Rightarrow> Thrown vmt sm
          | Inr vm1 \<Rightarrow>
              let sm1 = sm(rnode := full_state);
                  sm2 = (if is_valid sm1 lnode then sm1(node := full_state) else sm1)
              in Placed rnode vm1 sm2))"

function single_insert ::
  "'v indexable \<Rightarrow> 'v value_traits \<Rightarrow> State \<Rightarrow> nat \<Rightarrow> int \<Rightarrow> iterator \<Rightarrow> 'v deferred
     \<Rightarrow> 'v vmem \<Rightarrow> smem \<Rightarrow> 'v placement"
where
  "single_insert index vt full_state node_dim offset node defer vm sm =
    (if offset = 1 then single_insert_leaves index vt full_state node_dim node defer vm sm
     else if offset > 1 then
       let child_dim = inc_dim (kth index) node_dim;
           child_offset = offset sdiv 2;
           lnode = left node offset;
           rnode = right node offset
       in
       (case
          (if select_compare node_dim (cref defer vm) (vm node) index then
             if sm lnode = full_state then
               (case single_insert index vt full_state child_dim child_offset rnode
                       (Deferred_memcpy node) vm sm of
                  Thrown vm1 sm1 \<Rightarrow> Thrown vm1 sm1
                | Placed pushed vm1 sm1 \<Rightarrow>
                    let tmp = maximum index vm1 sm1 node_dim child_dim child_offset lnode
                    in if select_compare node_dim (cref defer vm1) (vm1 tmp) index then
                         let vm2 = vm1(node := vm1 tmp);
                             (vm3, sm3) = erase_when_full index child_dim child_offset
                                            lnode tmp vm2 sm1
                         in single_insert index vt full_state child_dim child_offset lnode
                              defer vm3 sm3
                       else
                         (case place_at vt defer node vm1 of
                            Inl vmt \<Rightarrow> Thrown vmt sm1
                          | Inr vm2 \<Rightarrow> Placed node vm2 sm1))
             else single_insert index vt full_state child_dim child_offset lnode defer vm sm
           else if select_compare node_dim (vm node) (cref defer vm) index then
             if sm rnode = full_state then
               (case single_insert index vt full_state child_dim child_offset lnode
                       (Deferred_memcpy node) vm sm of
                  Thrown vm1 sm1 \<Rightarrow> Thrown vm1 sm1
                | Placed pushed vm1 sm1 \<Rightarrow>
                    let tmp = minimum index vm1 sm1 node_dim child_dim child_offset rnode
                    in if select_compare node_dim (vm1 tmp) (cref defer vm1) index then
                         let vm2 = vm1(node := vm1 tmp);
                             (vm3, sm3) = erase_when_full index child_dim child_offset
                                            rnode tmp vm2 sm1
                         in single_insert index vt full_state child_dim child_offset rnode
                              defer vm3 sm3
                       else
                         (case place_at vt defer node vm1 of
                            Inl vmt \<Rightarrow> Thrown vmt sm1
                          | Inr vm2 \<Rightarrow> Placed node vm2 sm1))
             else single_insert index vt full_state child_dim child_offset rnode defer vm sm
           else
             if sm lnode = full_state
             then single_insert index vt full_state child_dim child_offset rnode defer vm sm
             else single_insert index vt full_state child_dim child_offset lnode defer vm sm)
        of
          Thrown vm' sm' \<Rightarrow> Thrown vm' sm'
        | Placed ins vm' sm' \<Rightarrow>
            Placed ins vm' (sm'(node := state_plus (sm' lnode) (sm' rnode))))
     else
       (case place_at vt defer node vm of
          Inl vmt \<Rightarrow> Thrown vmt sm
        | Inr vm' \<Rightarrow> Placed node vm' (sm(node := full_state))))"
  by pat_completeness auto
termination
  by (relation "measure (\<lambda>(index, vt, full_state, node_dim, offset, node, defer, vm, sm).
        nat offset)") (auto simp: signed_divide_int_def)

section \<open>Exact-match lookup\<close>

text \<open>
  The two inner \<^verbatim>\<open>for\<close> loops of \<^verbatim>\<open>_find\<close>: starting at dimension \<open>i\<close>, advance while
  \<open>i < bound\<close> and the node's value and \<open>val\<close> do not differ along \<open>i\<close>; the result is the
  value of \<open>i\<close> when the loop is left.
\<close>

function scan_dims :: "'v indexable \<Rightarrow> 'v \<Rightarrow> 'v \<Rightarrow> nat \<Rightarrow> nat \<Rightarrow> nat" where
  "scan_dims index nv val i bound =
    (if i < bound then
       if select_compare i nv val index \<or> select_compare i val nv index then i
       else scan_dims index nv val (i + 1) bound
     else i)"
  by pat_completeness auto
termination
  by (relation "measure (\<lambda>(index, nv, val, i, bound). bound - i)") auto

text \<open>
  \<^verbatim>\<open>_find\<close>; one unfolding is one pass through the body of its outer loop, and the
  recursion on the right child is the loop's next pass.
\<close>

function find_rec ::
  "'v indexable \<Rightarrow> iterator \<Rightarrow> 'v vmem \<Rightarrow> smem \<Rightarrow> nat \<Rightarrow> int \<Rightarrow> iterator \<Rightarrow> 'v \<Rightarrow> iterator"
where
  "find_rec index finish vm sm node_dim node_offset node val =
    (if \<not> is_valid sm node then finish
     else
       let left_only = select_compare node_dim val (vm node) index;
           right_only = select_compare node_dim (vm node) val index
       in
       if \<not> left_only \<and> \<not> right_only
          \<and> scan_dims index (vm node) val 0 node_dim = node_dim
          \<and> scan_dims index (vm node) val (node_dim + 1) (kth index) = kth index
       then node
       else if node_offset \<noteq> 0 then
         let child_dim = inc_dim (kth index) node_dim;
             child_offset = node_offset sdiv 2;
             probe = (if \<not> right_only
                      then find_rec index finish vm sm child_dim child_offset
                             (left node node_offset) val
                      else finish)
         in if \<not> right_only \<and> probe \<noteq> finish then probe
            else if left_only then finish
            else find_rec index finish vm sm child_dim child_offset
                   (right node node_offset) val
       else finish)"
  by pat_completeness auto
termination
  by (relation "measure (\<lambda>(index, finish, vm, sm, node_dim, node_offset, node, val).
        nat \<bar>node_offset\<bar>)") (auto simp: signed_divide_int_def abs_mult)

section \<open>The flat-tree container\<close>

text \<open>
  The members of \<^verbatim>\<open>_kdtree_members\<close>, together with the two memories its iterators point
  into. \<^verbatim>\<open>_capacity\<close> and \<^verbatim>\<open>_count\<close> are \<^verbatim>\<open>std::size_t\<close>.
\<close>

record 'v kdtree =
  impl_index :: "'v indexable"
  impl_values :: "'v vmem"
  impl_states :: smem
  impl_start :: iterator
  impl_finish :: iterator
  impl_capacity :: size_t
  impl_count :: size_t
  impl_full_state :: State

text \<open>
  The default constructor and the constructor from an index: no storage. The contents of
  the memories are whatever they are.
\<close>

definition kdtree_members :: "'v indexable \<Rightarrow> 'v vmem \<Rightarrow> smem \<Rightarrow> 'v kdtree" where
  "kdtree_members i vm sm =
     \<lparr> impl_index = i, impl_values = vm, impl_states = sm, impl_start = 0, impl_finish = 0,
       impl_capacity = 0, impl_count = 0, impl_full_state = Heads \<rparr>"

text \<open>
  A call of the allocator for \<open>n\<close> slots of both arrays returns the address of a block, or
  throws (\<open>None\<close>). What it returns is an input of the model.
\<close>

definition alloc_storage :: "iterator option \<Rightarrow> size_t \<Rightarrow> 'v kdtree \<Rightarrow> 'v kdtree option" where
  "alloc_storage al n c =
    (if n = 0 then Some c
     else
       (case al of
          None \<Rightarrow> None
        | Some v \<Rightarrow> Some (c\<lparr> impl_capacity := ftz n, impl_start := v, impl_finish := v \<rparr>)))"

text \<open>\<^verbatim>\<open>kdtree(std::size_t n, const indexable_type& i)\<close>.\<close>

definition kdtree_sized ::
  "iterator option \<Rightarrow> size_t \<Rightarrow> 'v indexable \<Rightarrow> 'v vmem \<Rightarrow> smem \<Rightarrow> 'v kdtree option"
where
  "kdtree_sized al n i vm sm = alloc_storage al n (kdtree_members i vm sm)"

definition capacity :: "'v kdtree \<Rightarrow> size_t" where
  "capacity c = impl_capacity c"

definition size_of :: "'v kdtree \<Rightarrow> size_t" where
  "size_of c = impl_count c"

definition end_of :: "'v kdtree \<Rightarrow> iterator" where
  "end_of c = impl_finish c"

text \<open>
  The loop of \<^verbatim>\<open>_expand\<close>. It is left only when \<^verbatim>\<open>last\<close> meets \<^verbatim>\<open>first\<close>; a run that never
  meets it is \<open>None\<close>.
\<close>

partial_function (option) expand_loop ::
  "iterator \<Rightarrow> iterator \<Rightarrow> iterator \<Rightarrow> 'v vmem \<Rightarrow> smem \<Rightarrow> ('v vmem \<times> smem) option"
where
  "expand_loop first lst slow vm sm =
    (if lst \<noteq> first then
       let lst1 = lst - 1;
           slow1 = slow - 1;
           sm1 = sm(lst1 := sm slow1);
           vm1 = vm(lst1 := vm slow1);
           lst2 = lst1 - 1;
           sm2 = sm1(lst2 := Invalid)
       in expand_loop first lst2 slow1 vm1 sm2
     else Some (vm, sm))"

declare expand_loop.simps [code]

definition expand :: "iterator \<Rightarrow> 'v kdtree \<Rightarrow> 'v kdtree option" where
  "expand vp c =
    (let offset = (impl_finish c - impl_start c) * 2;
         slow = impl_finish c;
         first = vp;
         lst = vp + offset;
         sm0 = (impl_states c)(lst := Invalid)
     in case expand_loop first lst slow (impl_values c) sm0 of
          None \<Rightarrow> None
        | Some (vm, sm) \<Rightarrow>
            Some (c\<lparr> impl_values := vm, impl_states := sm, impl_finish := vp + offset + 1 \<rparr>))"

text \<open>
  The outcome of an operation that can throw: the container it leaves, with the result
  when it returns.
\<close>

datatype ('a, 'v) outcome = Returned 'a "'v kdtree" | Raised "'v kdtree" | Diverged

definition expand_alloc :: "iterator option \<Rightarrow> 'v kdtree \<Rightarrow> (unit, 'v) outcome" where
  "expand_alloc al c =
    (let n = impl_capacity c * 2 + 1 in
     case al of
       None \<Rightarrow> Raised c
     | Some vp \<Rightarrow>
         (case expand vp c of
            None \<Rightarrow> Diverged
          | Some c1 \<Rightarrow> Returned () (c1\<lparr> impl_start := vp, impl_capacity := n \<rparr>)))"

definition prepare_insert :: "iterator option \<Rightarrow> 'v kdtree \<Rightarrow> (unit, 'v) outcome" where
  "prepare_insert al c =
    (if impl_count c = 0 then
       (case (if impl_capacity c = 0 then alloc_storage al 1 c else Some c) of
          None \<Rightarrow> Raised c
        | Some c1 \<Rightarrow> Returned () (c1\<lparr> impl_finish := impl_start c1 + 1 \<rparr>))
     else if impl_count c = word_of_int (impl_finish c - impl_start c) then
       (case (if impl_count c = impl_capacity c then expand_alloc al c
              else (case expand (impl_start c) c of
                      None \<Rightarrow> Diverged
                    | Some c1 \<Rightarrow> Returned () c1)) of
          Returned u c1 \<Rightarrow> Returned () (c1\<lparr> impl_full_state := state_not (impl_full_state c1) \<rparr>)
        | Raised c1 \<Rightarrow> Raised c1
        | Diverged \<Rightarrow> Diverged)
     else Returned () c)"

text \<open>\<^verbatim>\<open>insert(const value_type&)\<close> and \<^verbatim>\<open>insert(value_type&&)\<close>.\<close>

definition insert_deferred ::
  "'v value_traits \<Rightarrow> iterator option \<Rightarrow> 'v deferred \<Rightarrow> 'v kdtree \<Rightarrow> (iterator, 'v) outcome"
where
  "insert_deferred vt al defer c =
    (case prepare_insert al c of
       Raised c1 \<Rightarrow> Raised c1
     | Diverged \<Rightarrow> Diverged
     | Returned u c1 \<Rightarrow>
         let c2 = c1\<lparr> impl_count := impl_count c1 + 1 \<rparr>;
             dist = impl_finish c2 - impl_start c2
         in (case single_insert (impl_index c2) vt (impl_full_state c2) 0 (root_offset dist)
                   (root (impl_start c2) dist) defer (impl_values c2) (impl_states c2) of
               Thrown vm sm \<Rightarrow> Raised (c2\<lparr> impl_values := vm, impl_states := sm \<rparr>)
             | Placed it vm sm \<Rightarrow> Returned it (c2\<lparr> impl_values := vm, impl_states := sm \<rparr>)))"

definition kdtree_insert ::
  "'v value_traits \<Rightarrow> iterator option \<Rightarrow> 'v \<Rightarrow> 'v kdtree \<Rightarrow> (iterator, 'v) outcome"
where
  "kdtree_insert vt al v c = insert_deferred vt al (Deferred_copy v) c"

definition kdtree_insert_move ::
  "'v value_traits \<Rightarrow> iterator option \<Rightarrow> 'v \<Rightarrow> 'v kdtree \<Rightarrow> (iterator, 'v) outcome"
where
  "kdtree_insert_move vt al v c = insert_deferred vt al (Deferred_move v) c"

text \<open>\<^verbatim>\<open>erase(const value_type&)\<close> and \<^verbatim>\<open>erase(iterator)\<close>.\<close>

definition kdtree_erase :: "'v \<Rightarrow> 'v kdtree \<Rightarrow> size_t \<times> 'v kdtree" where
  "kdtree_erase v c = (0, c\<lparr> impl_count := impl_count c - 1 \<rparr>)"

definition kdtree_erase_at :: "iterator \<Rightarrow> 'v kdtree \<Rightarrow> 'v kdtree" where
  "kdtree_erase_at it c = c\<lparr> impl_count := impl_count c - 1 \<rparr>"

text \<open>\<^verbatim>\<open>find(const value_type&)\<close>.\<close>

definition kdtree_find :: "'v \<Rightarrow> 'v kdtree \<Rightarrow> iterator" where
  "kdtree_find val c =
    (let dist = impl_finish c - impl_start c in
     if impl_count c = 0 then impl_finish c
     else find_rec (impl_index c) (impl_finish c) (impl_values c) (impl_states c)
            0 (root_offset dist) (root (impl_start c) dist) val)"

section \<open>Lookup with every access accounted for\<close>

text \<open>
  \<^verbatim>\<open>_find\<close> and \<^verbatim>\<open>find\<close> once more, over memories in which a slot may not exist and with a
  comparator whose call may not return: \<open>node->is_valid()\<close> reads the state slot of the
  node, \<open>node->value()\<close> its value slot, and \<^verbatim>\<open>select_compare\<close> calls the comparator. The
  result is \<open>None\<close> as soon as a slot that does not exist is read or a call of the
  comparator does not return; so a result \<open>Some\<close> over memories with no slot at all, and
  with a comparator that never returns, is one obtained without any read and without any
  call.
\<close>

type_synonym 'v comparator = "nat \<Rightarrow> 'v \<Rightarrow> 'v \<Rightarrow> bool option"

function scan_dims_checked :: "'v comparator \<Rightarrow> 'v \<Rightarrow> 'v \<Rightarrow> nat \<Rightarrow> nat \<Rightarrow> nat option" where
  "scan_dims_checked cmp nv val i bound =
    (if i < bound then
       do {
         up \<leftarrow> cmp i nv val;
         if up then Some i
         else do {
           down \<leftarrow> cmp i val nv;
           if down then Some i else scan_dims_checked cmp nv val (i + 1) bound
         }
       }
     else Some i)"
  by pat_completeness auto
termination
  by (relation "measure (\<lambda>(cmp, nv, val, i, bound). bound - i)") auto

function find_rec_checked ::
  "'v comparator \<Rightarrow> nat \<Rightarrow> iterator \<Rightarrow> (iterator \<rightharpoonup> 'v) \<Rightarrow> (iterator \<rightharpoonup> State)
     \<Rightarrow> nat \<Rightarrow> int \<Rightarrow> iterator \<Rightarrow> 'v \<Rightarrow> iterator option"
where
  "find_rec_checked cmp K finish pvm psm node_dim node_offset node val =
    do {
      s \<leftarrow> psm node;
      if s = Invalid then Some finish
      else do {
        nv \<leftarrow> pvm node;
        left_only \<leftarrow> cmp node_dim val nv;
        right_only \<leftarrow> cmp node_dim nv val;
        found \<leftarrow>
          (if \<not> left_only \<and> \<not> right_only then
             do {
               i \<leftarrow> scan_dims_checked cmp nv val 0 node_dim;
               if i = node_dim then
                 do {
                   i2 \<leftarrow> scan_dims_checked cmp nv val (node_dim + 1) K;
                   Some (i2 = K)
                 }
               else Some False
             }
           else Some False);
        if found then Some node
        else if node_offset \<noteq> 0 then
          do {
            probe \<leftarrow>
              (if \<not> right_only
               then find_rec_checked cmp K finish pvm psm (inc_dim K node_dim)
                      (node_offset sdiv 2) (left node node_offset) val
               else Some finish);
            if \<not> right_only \<and> probe \<noteq> finish then Some probe
            else if left_only then Some finish
            else find_rec_checked cmp K finish pvm psm (inc_dim K node_dim)
                   (node_offset sdiv 2) (right node node_offset) val
          }
        else Some finish
      }
    }"
  by pat_completeness auto
termination
  by (relation "measure (\<lambda>(cmp, K, finish, pvm, psm, node_dim, node_offset, node, val).
        nat \<bar>node_offset\<bar>)") (auto simp: signed_divide_int_def abs_mult)

definition kdtree_find_checked ::
  "'v comparator \<Rightarrow> (iterator \<rightharpoonup> 'v) \<Rightarrow> (iterator \<rightharpoonup> State) \<Rightarrow> 'v \<Rightarrow> 'v kdtree
     \<Rightarrow> iterator option"
where
  "kdtree_find_checked cmp pvm psm val c =
    (let dist = impl_finish c - impl_start c in
     if impl_count c = 0 then Some (impl_finish c)
     else find_rec_checked cmp (kth (impl_index c)) (impl_finish c) pvm psm
            0 (root_offset dist) (root (impl_start c) dist) val)"

section \<open>Properties of the tree\<close>

text \<open>
  The slots of the subtree below a node, in address order: the node's offset leads to its
  two children, half of it to theirs, down to the leaves, whose offset is 0.
\<close>

function subtree_slots :: "int \<Rightarrow> iterator \<Rightarrow> iterator list" where
  "subtree_slots offset node =
    (if offset \<ge> 1
     then subtree_slots (offset sdiv 2) (left node offset)
            @ node # subtree_slots (offset sdiv 2) (right node offset)
     else [node])"
  by pat_completeness auto
termination
  by (relation "measure (\<lambda>(offset, node). nat offset)") (auto simp: signed_divide_int_def)

text \<open>The values held by the live slots of a subtree, and their number.\<close>

definition live_values :: "'v vmem \<Rightarrow> smem \<Rightarrow> int \<Rightarrow> iterator \<Rightarrow> 'v list" where
  "live_values vm sm offset node = map vm (filter (is_valid sm) (subtree_slots offset node))"

definition live_count :: "smem \<Rightarrow> int \<Rightarrow> iterator \<Rightarrow> nat" where
  "live_count sm offset node = length (filter (is_valid sm) (subtree_slots offset node))"

text \<open>
  The height of the live subtree below a node: 0 when the node is not live, otherwise one
  more than the larger height of its children's live subtrees.
\<close>

function live_height :: "smem \<Rightarrow> int \<Rightarrow> iterator \<Rightarrow> nat" where
  "live_height sm offset node =
    (if \<not> is_valid sm node then 0
     else if offset \<ge> 1
     then 1 + max (live_height sm (offset sdiv 2) (left node offset))
                  (live_height sm (offset sdiv 2) (right node offset))
     else 1)"
  by pat_completeness auto
termination
  by (relation "measure (\<lambda>(sm, offset, node). nat offset)") (auto simp: signed_divide_int_def)

text \<open>
  Balance: at every live node of the subtree, the heights of the live left and right
  subtrees differ by at most one.
\<close>

function balanced :: "smem \<Rightarrow> int \<Rightarrow> iterator \<Rightarrow> bool" where
  "balanced sm offset node =
    (if offset \<ge> 1 then
       (is_valid sm node \<longrightarrow>
          live_height sm (offset sdiv 2) (left node offset)
            \<le> live_height sm (offset sdiv 2) (right node offset) + 1
          \<and> live_height sm (offset sdiv 2) (right node offset)
            \<le> live_height sm (offset sdiv 2) (left node offset) + 1)
       \<and> balanced sm (offset sdiv 2) (left node offset)
       \<and> balanced sm (offset sdiv 2) (right node offset)
     else True)"
  by pat_completeness auto
termination
  by (relation "measure (\<lambda>(sm, offset, node). nat offset)") (auto simp: signed_divide_int_def)

text \<open>
  The k-d ordering: at every live node of the subtree, with split dimension \<open>node_dim\<close>, no
  live value of the right subtree is less than the node's value along that dimension, and
  no live value of the left subtree is greater.
\<close>

function kd_ordered ::
  "'v indexable \<Rightarrow> 'v vmem \<Rightarrow> smem \<Rightarrow> nat \<Rightarrow> int \<Rightarrow> iterator \<Rightarrow> bool"
where
  "kd_ordered index vm sm node_dim offset node =
    (if offset \<ge> 1 then
       (is_valid sm node \<longrightarrow>
          list_all (\<lambda>x. \<not> select_compare node_dim x (vm node) index)
            (live_values vm sm (offset sdiv 2) (right node offset))
          \<and> list_all (\<lambda>x. \<not> select_compare node_dim (vm node) x index)
            (live_values vm sm (offset sdiv 2) (left node offset)))
       \<and> kd_ordered index vm sm (inc_dim (kth index) node_dim) (offset sdiv 2)
            (left node offset)
       \<and> kd_ordered index vm sm (inc_dim (kth index) node_dim) (offset sdiv 2)
            (right node offset)
     else True)"
  by pat_completeness auto
termination
  by (relation "measure (\<lambda>(index, vm, sm, node_dim, offset, node). nat offset)")
    (auto simp: signed_divide_int_def)

text \<open>
  The states of a subtree as the insertion keeps them: a leaf is Invalid or carries the
  full state; a node above the leaves is live, and carries the full state exactly when
  both its children do.
\<close>

function shape_ok :: "State \<Rightarrow> smem \<Rightarrow> int \<Rightarrow> iterator \<Rightarrow> bool" where
  "shape_ok full_state sm offset node =
    (if offset \<ge> 1 then
       is_valid sm node
       \<and> ((sm node = full_state)
            = (sm (left node offset) = full_state \<and> sm (right node offset) = full_state))
       \<and> shape_ok full_state sm (offset sdiv 2) (left node offset)
       \<and> shape_ok full_state sm (offset sdiv 2) (right node offset)
     else (sm node = Invalid \<or> sm node = full_state))"
  by pat_completeness auto
termination
  by (relation "measure (\<lambda>(full_state, sm, offset, node). nat offset)")
    (auto simp: signed_divide_int_def)

text \<open>A number of the form \<open>2 ^ k - 1\<close>: all its binary digits are ones.\<close>

function all_ones :: "int \<Rightarrow> bool" where
  "all_ones n = (if n \<le> 0 then n = 0 else odd n \<and> all_ones (n div 2))"
  by pat_completeness auto
termination
  by (relation "measure nat") auto

text \<open>
  The comparison is a strict weak ordering along every dimension of the index: it is
  irreflexive and transitive, and whatever lies below \<open>c\<close> lies below \<open>b\<close> or \<open>b\<close> lies
  below \<open>c\<close>. The index has at least one dimension.
\<close>

definition strict_weak :: "'v indexable \<Rightarrow> bool" where
  "strict_weak index =
    (0 < kth index
     \<and> (\<forall>d a. d < kth index \<longrightarrow> \<not> select_compare d a a index)
     \<and> (\<forall>d a b c. d < kth index \<longrightarrow> select_compare d a b index
           \<longrightarrow> select_compare d b c index \<longrightarrow> select_compare d a c index)
     \<and> (\<forall>d a b c. d < kth index \<longrightarrow> select_compare d a c index
           \<longrightarrow> select_compare d a b index \<or> select_compare d b c index))"


text \<open>
  The invariant of the container. The full state is Heads or Tails. The capacity is 0 or
  \<open>2 ^ h - 1\<close>, and is at most \<^verbatim>\<open>PTRDIFF_MAX\<close>; the span lies within it. An empty span goes
  with a count of 0; otherwise the span is \<open>2 ^ k - 1\<close>, the states are as the insertion
  keeps them, the values are k-d ordered, and the count is the number of live slots and
  is not 0.
\<close>

definition kdtree_inv :: "'v kdtree \<Rightarrow> bool" where
  "kdtree_inv c =
    (let dist = impl_finish c - impl_start c;
         offset = root_offset dist;
         node = root (impl_start c) dist
     in (impl_full_state c = Heads \<or> impl_full_state c = Tails)
        \<and> all_ones (uint (impl_capacity c))
        \<and> uint (impl_capacity c) < 2 ^ 63
        \<and> 0 \<le> dist \<and> dist \<le> uint (impl_capacity c)
        \<and> (if dist = 0 then impl_count c = 0
            else all_ones dist
                 \<and> shape_ok (impl_full_state c) (impl_states c) offset node
                 \<and> kd_ordered (impl_index c) (impl_values c) (impl_states c) 0 offset node
                 \<and> uint (impl_count c) = int (live_count (impl_states c) offset node)
                 \<and> impl_count c \<noteq> 0))"

text \<open>The values the container holds, in address order.\<close>

definition tree_values :: "'v kdtree \<Rightarrow> 'v list" where
  "tree_values c =
    (let dist = impl_finish c - impl_start c
     in if dist = 0 then []
        else live_values (impl_values c) (impl_states c) (root_offset dist)
               (root (impl_start c) dist))"

text \<open>
  What the allocator may return when \<^verbatim>\<open>insert\<close> asks it for a block of
  \<^verbatim>\<open>_capacity * 2 + 1\<close> slots: nothing, or a block of at most \<^verbatim>\<open>PTRDIFF_MAX\<close> slots that
  does not overlap the block the container holds.
\<close>

definition alloc_ok :: "'v kdtree \<Rightarrow> iterator option \<Rightarrow> bool" where
  "alloc_ok c al =
    (case al of
       None \<Rightarrow> True
     | Some vp \<Rightarrow>
         2 * uint (impl_capacity c) + 1 < 2 ^ 63
         \<and> (vp + (2 * uint (impl_capacity c) + 1) \<le> impl_start c
              \<or> impl_start c + uint (impl_capacity c) \<le> vp))"

text \<open>
  A sequence of insertions; \<open>alloc\<close> is what the allocator answers to the container that
  asks. The result is \<open>None\<close> when an insertion does not return.
\<close>

fun insert_all ::
  "'v value_traits \<Rightarrow> ('v kdtree \<Rightarrow> iterator option) \<Rightarrow> 'v list \<Rightarrow> 'v kdtree \<Rightarrow> 'v kdtree option"
where
  "insert_all vt alloc [] c = Some c"
| "insert_all vt alloc (v # vs) c =
    (case kdtree_insert vt (alloc c) v c of
       Returned it c' \<Rightarrow> insert_all vt alloc vs c'
     | Raised c' \<Rightarrow> None
     | Diverged \<Rightarrow> None)"

section \<open>Notions used in the proofs\<close>

text \<open>
  The offset of a node \<open>h\<close> levels above the leaves: 0 for a leaf, then 1, 2, 4 and so on
  (\<^verbatim>\<open>root_offset\<close> of a span of \<open>2 ^ (h + 1) - 1\<close> slots).
\<close>

fun off_of :: "nat \<Rightarrow> int" where
  "off_of 0 = 0"
| "off_of (Suc h) = 2 ^ h"

text \<open>
  The comparison steps of \<^verbatim>\<open>minimum\<close> and \<^verbatim>\<open>maximum\<close>, and the slots the two functions
  compare the running best with, in the order in which they do.
\<close>

definition pick_lower :: "'v indexable \<Rightarrow> 'v vmem \<Rightarrow> nat \<Rightarrow> iterator \<Rightarrow> iterator \<Rightarrow> iterator" where
  "pick_lower index vm fixed_dim best child =
     (if \<not> select_compare fixed_dim (vm best) (vm child) index then child else best)"

definition pick_upper :: "'v indexable \<Rightarrow> 'v vmem \<Rightarrow> nat \<Rightarrow> iterator \<Rightarrow> iterator \<Rightarrow> iterator" where
  "pick_upper index vm fixed_dim best child =
     (if \<not> select_compare fixed_dim (vm child) (vm best) index then child else best)"

function minimum_visits :: "smem \<Rightarrow> nat \<Rightarrow> nat \<Rightarrow> nat \<Rightarrow> int \<Rightarrow> iterator \<Rightarrow> iterator list" where
  "minimum_visits sm K fixed_dim node_dim node_offset node =
    (if node_offset > 1 then
       let child_dim = inc_dim K node_dim;
           child_offset = node_offset sdiv 2;
           lnode = left node node_offset;
           rnode = right node node_offset
       in (lnode # minimum_visits sm K fixed_dim child_dim child_offset lnode)
          @ (if node_dim = fixed_dim then []
             else rnode # minimum_visits sm K fixed_dim child_dim child_offset rnode)
     else if node_offset = 1 then
       (if is_valid sm (left node node_offset) then [left node node_offset] else [])
       @ (if is_valid sm (right node node_offset) then [right node node_offset] else [])
     else [])"
  by pat_completeness auto
termination
  by (relation "measure (\<lambda>(sm, K, fixed_dim, node_dim, node_offset, node). nat node_offset)")
    (auto simp: signed_divide_int_def)

function maximum_visits :: "smem \<Rightarrow> nat \<Rightarrow> nat \<Rightarrow> nat \<Rightarrow> int \<Rightarrow> iterator \<Rightarrow> iterator list" where
  "maximum_visits sm K fixed_dim node_dim node_offset node =
    (if node_offset > 1 then
       let child_dim = inc_dim K node_dim;
           child_offset = node_offset sdiv 2;
           lnode = left node node_offset;
           rnode = right node node_offset
       in (rnode # maximum_visits sm K fixed_dim child_dim child_offset rnode)
          @ (if node_dim = fixed_dim then []
             else lnode # maximum_visits sm K fixed_dim child_dim child_offset lnode)
     else if node_offset = 1 then
       (if is_valid sm (left node node_offset) then [left node node_offset] else [])
       @ (if is_valid sm (right node node_offset) then [right node node_offset] else [])
     else [])"
  by pat_completeness auto
termination
  by (relation "measure (\<lambda>(sm, K, fixed_dim, node_dim, node_offset, node). nat node_offset)")
    (auto simp: signed_divide_int_def)

text \<open>
  A deferred placement whose constructor does not throw, and one whose \<^verbatim>\<open>cref\<close> reads a
  slot outside a set of slots.
\<close>

fun nothrow :: "'v value_traits \<Rightarrow> 'v deferred \<Rightarrow> bool" where
  "nothrow vt (Deferred_memcpy p) = True"
| "nothrow vt (Deferred_copy v) = (\<not> copy_throws vt v)"
| "nothrow vt (Deferred_move v) = (\<not> move_throws vt v)"

fun reads_outside :: "'v deferred \<Rightarrow> iterator set \<Rightarrow> bool" where
  "reads_outside (Deferred_memcpy p) S = (p \<notin> S)"
| "reads_outside (Deferred_copy v) S = True"
| "reads_outside (Deferred_move v) S = True"

text \<open>Two memories that agree on a set of slots.\<close>

definition same_on :: "iterator set \<Rightarrow> 'v vmem \<Rightarrow> smem \<Rightarrow> 'v vmem \<Rightarrow> smem \<Rightarrow> bool" where
  "same_on S vm' sm' vm sm = (\<forall>a\<in>S. vm' a = vm a \<and> sm' a = sm a)"

text \<open>What an insertion into a subtree that is not full achieves.\<close>

definition inserted ::
  "'v indexable \<Rightarrow> State \<Rightarrow> nat \<Rightarrow> int \<Rightarrow> iterator \<Rightarrow> 'v \<Rightarrow> 'v vmem \<Rightarrow> smem
     \<Rightarrow> iterator \<Rightarrow> 'v vmem \<Rightarrow> smem \<Rightarrow> bool"
where
  "inserted ix fs d off n v vm sm ins vm' sm' =
    (shape_ok fs sm' off n \<and> kd_ordered ix vm' sm' d off n
     \<and> mset (live_values vm' sm' off n) = add_mset v (mset (live_values vm sm off n))
     \<and> (\<forall>a. a \<notin> set (subtree_slots off n) \<longrightarrow> vm' a = vm a \<and> sm' a = sm a)
     \<and> ins \<in> set (subtree_slots off n) \<and> is_valid sm' ins \<and> vm' ins = v)"


text \<open>
  A container prepared for an insertion, holding the values \<open>vs\<close> in a tree of height
  \<open>h + 2\<close> that is not full.
\<close>

definition ready :: "'v kdtree \<Rightarrow> 'v list \<Rightarrow> nat \<Rightarrow> bool" where
  "ready c vs h =
    ((impl_full_state c = Heads \<or> impl_full_state c = Tails)
     \<and> all_ones (uint (impl_capacity c)) \<and> uint (impl_capacity c) < 2 ^ 63
     \<and> impl_finish c - impl_start c = 2 ^ Suc (Suc h) - 1
     \<and> 2 ^ Suc (Suc h) - 1 \<le> uint (impl_capacity c)
     \<and> shape_ok (impl_full_state c) (impl_states c) (off_of (Suc h))
          (impl_start c + 2 ^ Suc h - 1)
     \<and> impl_states c (impl_start c + 2 ^ Suc h - 1) \<noteq> impl_full_state c
     \<and> kd_ordered (impl_index c) (impl_values c) (impl_states c) 0 (off_of (Suc h))
          (impl_start c + 2 ^ Suc h - 1)
     \<and> live_values (impl_values c) (impl_states c) (off_of (Suc h))
          (impl_start c + 2 ^ Suc h - 1) = vs
     \<and> uint (impl_count c) = int (length vs))"

section \<open>Fixtures\<close>

text \<open>
  The index of the test suite: one dimension, a value with one integer field, compared
  by \<^verbatim>\<open>a.a < b.a\<close>. The index of the benchmarks: two dimensions over a pair of integers.
  Value traits whose constructors never throw, and value traits whose constructors always
  throw before they have written anything.
\<close>

definition pod_index :: "int indexable" where
  "pod_index = \<lparr> kth = 1, access_compare = (\<lambda>d a b. a < b) \<rparr>"

definition pod2_index :: "(int \<times> int) indexable" where
  "pod2_index =
     \<lparr> kth = 2, access_compare = (\<lambda>d a b. if d = 0 then fst a < fst b else snd a < snd b) \<rparr>"

definition nothrow_traits :: "'v value_traits" where
  "nothrow_traits =
     \<lparr> copy_throws = (\<lambda>v. False), move_throws = (\<lambda>v. False),
       copy_leaves = (\<lambda>v. None), move_leaves = (\<lambda>v. None) \<rparr>"

definition throwing_traits :: "'v value_traits" where
  "throwing_traits =
     \<lparr> copy_throws = (\<lambda>v. True), move_throws = (\<lambda>v. True),
       copy_leaves = (\<lambda>v. None), move_leaves = (\<lambda>v. None) \<rparr>"


text \<open>
  A container of capacity 3 after the insertion of 5 and then 3: the root slot 1 holds 5
  with the state of the doubling before, the left leaf holds 3, the right leaf is empty.
\<close>

definition two_of_three :: "int kdtree" where
  "two_of_three =
     \<lparr> impl_index = pod_index, impl_values = (\<lambda>a. 0)(1 := 5, 0 := 3),
       impl_states = (\<lambda>a. Invalid)(1 := Heads, 0 := Tails), impl_start = 0, impl_finish = 3,
       impl_capacity = 3, impl_count = 2, impl_full_state = Tails \<rparr>"

text \<open>Value traits whose constructors always throw, after having written \<open>g\<close> to the slot.\<close>

definition scribbling_traits :: "'v \<Rightarrow> 'v value_traits" where
  "scribbling_traits g =
     \<lparr> copy_throws = (\<lambda>v. True), move_throws = (\<lambda>v. True),
       copy_leaves = (\<lambda>v. Some g), move_leaves = (\<lambda>v. Some g) \<rparr>"

text \<open>
  A container of capacity 3 as the sized constructor leaves it, and the same container
  after the insertion of 5.
\<close>

definition none_of_three :: "int kdtree" where
  "none_of_three =
     \<lparr> impl_index = pod_index, impl_values = (\<lambda>a. 0), impl_states = (\<lambda>a. Unsure),
       impl_start = 0, impl_finish = 0, impl_capacity = 3, impl_count = 0,
       impl_full_state = Heads \<rparr>"


text \<open>
  An allocator that places the new block right behind the block the container holds, and
  throws when the container has \<open>2 ^ 62\<close> slots or more.
\<close>

definition bump_alloc :: "'v kdtree \<Rightarrow> iterator option" where
  "bump_alloc c =
     (if uint (impl_capacity c) < 2 ^ 62
      then Some (impl_start c + uint (impl_capacity c)) else None)"

section \<open>Capacity geometry\<close>

text \<open>
  One step of the cascade doubles the window of bits above \<open>n\<close> that are gathered into
  bit \<open>n\<close>.
\<close>

lemma or_shift_window:
  fixes x u :: "'a::len word"
  assumes "\<And>n. bit x n \<longleftrightarrow> (\<exists>m. n \<le> m \<and> m < n + w \<and> bit u m)"
  shows "bit (x OR drop_bit w x) n \<longleftrightarrow> (\<exists>m. n \<le> m \<and> m < n + 2 * w \<and> bit u m)"
proof
  assume "bit (x OR drop_bit w x) n"
  then consider "bit x n" | "bit x (w + n)"
    by (auto simp: bit_or_iff bit_drop_bit_eq)
  then show "\<exists>m. n \<le> m \<and> m < n + 2 * w \<and> bit u m"
  proof cases
    case 1
    then obtain m where "n \<le> m" "m < n + w" "bit u m" using assms by blast
    then show ?thesis by (intro exI [of _ m]) simp
  next
    case 2
    then obtain m where "w + n \<le> m" "m < w + n + w" "bit u m" using assms by blast
    then show ?thesis by (intro exI [of _ m]) simp
  qed
next
  assume "\<exists>m. n \<le> m \<and> m < n + 2 * w \<and> bit u m"
  then obtain m where m: "n \<le> m" "m < n + 2 * w" "bit u m" by blast
  show "bit (x OR drop_bit w x) n"
  proof (cases "m < n + w")
    case True
    with m have "bit x n" using assms by blast
    then show ?thesis by (simp add: bit_or_iff)
  next
    case False
    with m have "w + n \<le> m \<and> m < w + n + w \<and> bit u m" by simp
    then have "bit x (w + n)" using assms by blast
    then show ?thesis by (simp add: bit_or_iff bit_drop_bit_eq)
  qed
qed

lemma bit_ftz_iff: "bit (ftz u) n \<longleftrightarrow> (\<exists>m. n \<le> m \<and> bit u m)"
proof -
  have w1: "\<And>n. bit u n \<longleftrightarrow> (\<exists>m. n \<le> m \<and> m < n + 1 \<and> bit u m)"
    by (metis less_add_one le_refl not_less_eq_eq Suc_eq_plus1 less_Suc_eq_le le_antisym)
  note w2 = or_shift_window [where u = u, OF w1]
  note w4 = or_shift_window [where u = u, OF w2]
  note w8 = or_shift_window [where u = u, OF w4]
  note w16 = or_shift_window [where u = u, OF w8]
  note w32 = or_shift_window [where u = u, OF w16]
  note w64 = or_shift_window [where u = u, OF w32]
  have "bit (ftz u) n \<longleftrightarrow> (\<exists>m. n \<le> m \<and> m < n + 64 \<and> bit u m)"
    using w64 [of n] by (simp add: ftz_def Let_def)
  also have "\<dots> \<longleftrightarrow> (\<exists>m. n \<le> m \<and> bit u m)"
  proof
    assume "\<exists>m. n \<le> m \<and> bit u m"
    then obtain m where m: "n \<le> m" "bit u m" by blast
    then have "m < 64" using bit_imp_le_length [of u m] by simp
    with m show "\<exists>m. n \<le> m \<and> m < n + 64 \<and> bit u m" by (intro exI [of _ m]) simp
  qed blast
  finally show ?thesis .
qed

lemma bit_nat_ge: "bit (N::nat) m \<Longrightarrow> 2 ^ m \<le> N"
  by (rule ccontr) (simp add: bit_nat_def not_le)

lemma bit_nat_top: "2 ^ k \<le> (N::nat) \<Longrightarrow> N < 2 ^ Suc k \<Longrightarrow> bit N k"
proof -
  assume a: "2 ^ k \<le> N" "N < 2 ^ Suc k"
  have "N div 2 ^ k = 1"
  proof -
    have "N div 2 ^ k < 2" using a(2) by (simp add: less_mult_imp_div_less mult.commute)
    moreover have "1 \<le> N div 2 ^ k" using a(1) by (simp add: div_greater_zero_iff Suc_le_eq)
    ultimately show ?thesis by simp
  qed
  then show ?thesis by (simp add: bit_nat_def)
qed

lemma ftz_eq_mask:
  fixes u :: size_t
  assumes lo: "\<And>j. j < k \<Longrightarrow> 2 ^ j \<le> unat u" and hi: "unat u < 2 ^ k" 
  shows "ftz u = mask k"
proof (rule bit_word_eqI)
  fix n assume "n < LENGTH(64)"
  have k64: "k \<le> 64"
  proof (rule ccontr)
    assume "\<not> k \<le> 64"
    then have "(2::nat) ^ 64 \<le> unat u" using lo [of 64] by simp
    moreover have "unat u < 2 ^ 64" using unsigned_less [of u] by simp
    ultimately show False by simp
  qed
  have "bit (ftz u) n \<longleftrightarrow> n < k"
  proof
    assume "bit (ftz u) n"
    then obtain m where m: "n \<le> m" "bit u m" using bit_ftz_iff by blast
    then have "bit (unat u) m" by (simp add: bit_unsigned_iff bit_imp_possible_bit)
    then have "2 ^ m \<le> unat u" by (rule bit_nat_ge)
    with hi have "(2::nat) ^ m < 2 ^ k" by linarith
    then have "m < k" by (simp only: power_strict_increasing_iff one_less_numeral_iff semiring_norm)
    with m show "n < k" by simp
  next
    assume nk: "n < k"
    then obtain k' where k': "k = Suc k'" by (cases k) auto
    have "bit (unat u) k'" using lo [of k'] hi k' by (intro bit_nat_top) auto
    then have "bit u k'" by (simp add: bit_unsigned_iff)
    with nk k' show "bit (ftz u) n" using bit_ftz_iff [of u n] by auto
  qed
  with k64 \<open>n < LENGTH(64)\<close> show "bit (ftz u) n = bit (mask k :: size_t) n"
    by (simp add: bit_mask_iff)
qed

lemma ftz_smallest:
  fixes u :: size_t
  shows "\<exists>k. unat (ftz u) = 2 ^ k - 1 \<and> unat u \<le> 2 ^ k - 1
             \<and> (\<forall>j. unat u \<le> 2 ^ j - 1 \<longrightarrow> k \<le> j)"
proof -
  define k where "k = (LEAST k. unat u < 2 ^ k)"
  have ex: "unat u < 2 ^ 64" using unsigned_less [of u] by simp
  have hi: "unat u < 2 ^ k" unfolding k_def using ex by (rule LeastI)
  have min: "\<And>j. unat u < 2 ^ j \<Longrightarrow> k \<le> j" unfolding k_def by (rule Least_le)
  have k64: "k \<le> 64" using min [OF ex] .
  have lo: "\<And>j. j < k \<Longrightarrow> 2 ^ j \<le> unat u"
    using min by (meson not_less)
  have "ftz u = mask k" using lo hi by (rule ftz_eq_mask)
  then have "uint (ftz u) = mask (min LENGTH(64) k)"
    by (simp only: uint_mask_eq)
  moreover have "min LENGTH(64) k = k" using k64 by simp
  ultimately have "uint (ftz u) = mask k" by simp
  then have "uint (ftz u) = 2 ^ k - 1"
    by (simp only: mask_eq_exp_minus_1)
  then have "int (unat (ftz u)) = int (2 ^ k - 1)"
    by (simp add: of_nat_diff)
  then have "unat (ftz u) = 2 ^ k - 1"
    by (simp only: of_nat_eq_iff)
  moreover have "unat u \<le> 2 ^ k - 1" using hi by simp
  moreover have "\<forall>j. unat u \<le> 2 ^ j - 1 \<longrightarrow> k \<le> j"
  proof (intro allI impI)
    fix j assume "unat u \<le> 2 ^ j - 1"
    then have "unat u < 2 ^ j" by (metis Suc_pred' le_imp_less_Suc zero_less_numeral zero_less_power)
    then show "k \<le> j" by (rule min)
  qed
  ultimately show ?thesis by blast
qed

section \<open>Geometry of the implicit tree\<close>

lemma sdiv_nonneg: "0 \<le> a \<Longrightarrow> 0 \<le> b \<Longrightarrow> (a::int) sdiv b = a div b"
  by (cases "a = 0"; cases "b = 0") (simp_all add: signed_divide_int_def sgn_if)

lemma off_of_Suc_ge1: "1 \<le> off_of (Suc h)"
  by simp

lemma off_of_0_not_ge1: "\<not> 1 \<le> off_of 0"
  by simp

lemma off_of_SS_gt1: "1 < off_of (Suc (Suc h))"
proof -
  have "(1::int) \<le> 2 ^ h" by simp
  then have "(1::int) < 2 * 2 ^ h" by linarith
  then show ?thesis by simp
qed

lemma off_of_half: "off_of (Suc h) sdiv 2 = off_of h"
proof (cases h)
  case 0
  then show ?thesis by (simp add: signed_divide_int_def)
next
  case (Suc k)
  then show ?thesis by (simp add: sdiv_nonneg)
qed

lemma off_of_Suc_0: "off_of (Suc 0) = 1"
  by simp

declare off_of.simps [simp del]
declare subtree_slots.simps [simp del] live_height.simps [simp del] balanced.simps [simp del]
  kd_ordered.simps [simp del] shape_ok.simps [simp del]

lemma left_off: "left n (off_of (Suc h)) = n - 2 ^ h"
  by (simp add: left_def off_of.simps)

lemma right_off: "right n (off_of (Suc h)) = n + 2 ^ h"
  by (simp add: right_def off_of.simps)

lemma subtree_slots_leaf: "subtree_slots (off_of 0) n = [n]"
  by (subst subtree_slots.simps) (simp add: off_of.simps)

lemma subtree_slots_node:
  "subtree_slots (off_of (Suc h)) n =
     subtree_slots (off_of h) (left n (off_of (Suc h)))
       @ n # subtree_slots (off_of h) (right n (off_of (Suc h)))"
  by (subst subtree_slots.simps) (simp add: off_of_half off_of_Suc_ge1)

lemma slots_near:
  "a \<in> set (subtree_slots (off_of h) n) \<Longrightarrow> n - 2 ^ h < a \<and> a < n + 2 ^ h"
proof (induction h arbitrary: n)
  case 0
  then show ?case by (simp add: subtree_slots_leaf)
next
  case (Suc h)
  from Suc.prems consider
      "a \<in> set (subtree_slots (off_of h) (n - 2 ^ h))" | "a = n"
    | "a \<in> set (subtree_slots (off_of h) (n + 2 ^ h))"
    by (auto simp: subtree_slots_node left_off right_off)
  then show ?case
  proof cases
    case 1
    from Suc.IH [OF this] show ?thesis by simp
  next
    case 2
    then show ?thesis by simp
  next
    case 3
    from Suc.IH [OF this] show ?thesis by simp
  qed
qed

lemma set_subtree_slots:
  "set (subtree_slots (off_of h) n) = {n - 2 ^ h + 1 .. n + 2 ^ h - 1}"
proof (induction h arbitrary: n)
  case 0
  then show ?case by (auto simp: subtree_slots_leaf)
next
  case (Suc h)
  have p: "(1::int) \<le> 2 ^ h" by simp
  have q: "(1::int) \<le> 2 * 2 ^ h" using p by linarith
  show ?case using p q
    by (auto simp: subtree_slots_node left_off right_off Suc.IH)
qed

lemma node_in_slots: "n \<in> set (subtree_slots (off_of h) n)"
  by (cases h) (simp_all add: subtree_slots_leaf subtree_slots_node)

lemma left_slots_below:
  "a \<in> set (subtree_slots (off_of h) (left n (off_of (Suc h)))) \<Longrightarrow> a < n"
  using slots_near [of a h "left n (off_of (Suc h))"]
  by (simp add: left_off)

lemma right_slots_above:
  "a \<in> set (subtree_slots (off_of h) (right n (off_of (Suc h)))) \<Longrightarrow> n < a"
  using slots_near [of a h "right n (off_of (Suc h))"]
  by (simp add: right_off)

lemma shape_ok_leaf: "shape_ok fs sm (off_of 0) n = (sm n = Invalid \<or> sm n = fs)"
  by (subst shape_ok.simps) (simp add: off_of.simps)

lemma shape_ok_node:
  "shape_ok fs sm (off_of (Suc h)) n =
    (is_valid sm n
     \<and> ((sm n = fs) = (sm (left n (off_of (Suc h))) = fs \<and> sm (right n (off_of (Suc h))) = fs))
     \<and> shape_ok fs sm (off_of h) (left n (off_of (Suc h)))
     \<and> shape_ok fs sm (off_of h) (right n (off_of (Suc h))))"
  by (subst shape_ok.simps) (simp add: off_of_half off_of_Suc_ge1)

lemma kd_ordered_leaf: "kd_ordered ix vm sm d (off_of 0) n"
  by (subst kd_ordered.simps) (simp add: off_of.simps)

lemma kd_ordered_node:
  "kd_ordered ix vm sm d (off_of (Suc h)) n =
    ((is_valid sm n \<longrightarrow>
        list_all (\<lambda>x. \<not> select_compare d x (vm n) ix)
          (live_values vm sm (off_of h) (right n (off_of (Suc h))))
        \<and> list_all (\<lambda>x. \<not> select_compare d (vm n) x ix)
          (live_values vm sm (off_of h) (left n (off_of (Suc h)))))
     \<and> kd_ordered ix vm sm (inc_dim (kth ix) d) (off_of h) (left n (off_of (Suc h)))
     \<and> kd_ordered ix vm sm (inc_dim (kth ix) d) (off_of h) (right n (off_of (Suc h))))"
  by (subst kd_ordered.simps) (simp add: off_of_half off_of_Suc_ge1)

lemma live_values_leaf:
  "live_values vm sm (off_of 0) n = (if is_valid sm n then [vm n] else [])"
  by (simp add: live_values_def subtree_slots_leaf)

lemma live_values_node:
  "live_values vm sm (off_of (Suc h)) n =
     live_values vm sm (off_of h) (left n (off_of (Suc h)))
     @ (if is_valid sm n then [vm n] else [])
     @ live_values vm sm (off_of h) (right n (off_of (Suc h)))"
  by (simp add: live_values_def subtree_slots_node)

lemma live_count_leaf: "live_count sm (off_of 0) n = (if is_valid sm n then 1 else 0)"
  by (simp add: live_count_def subtree_slots_leaf)

lemma live_count_node:
  "live_count sm (off_of (Suc h)) n =
     live_count sm (off_of h) (left n (off_of (Suc h)))
     + (if is_valid sm n then 1 else 0)
     + live_count sm (off_of h) (right n (off_of (Suc h)))"
  by (simp add: live_count_def subtree_slots_node)

lemma live_count_length: "live_count sm offset n = length (live_values vm sm offset n)"
  by (simp add: live_count_def live_values_def)

text \<open>Frames: a property of a subtree depends on the memory at its slots only.\<close>

lemma live_values_cong:
  "(\<And>a. a \<in> set (subtree_slots offset n) \<Longrightarrow> vm' a = vm a \<and> sm' a = sm a)
     \<Longrightarrow> live_values vm' sm' offset n = live_values vm sm offset n"
proof -
  assume a: "\<And>a. a \<in> set (subtree_slots offset n) \<Longrightarrow> vm' a = vm a \<and> sm' a = sm a"
  have "filter (is_valid sm') (subtree_slots offset n) = filter (is_valid sm) (subtree_slots offset n)"
    by (rule filter_cong) (simp_all add: is_valid_def a)
  moreover have "map vm' (filter (is_valid sm) (subtree_slots offset n))
      = map vm (filter (is_valid sm) (subtree_slots offset n))"
    by (rule map_cong) (simp_all add: a)
  ultimately show ?thesis by (simp add: live_values_def)
qed

lemma shape_ok_cong:
  "(\<And>a. a \<in> set (subtree_slots (off_of h) n) \<Longrightarrow> sm' a = sm a)
     \<Longrightarrow> shape_ok fs sm' (off_of h) n = shape_ok fs sm (off_of h) n"
proof (induction h arbitrary: n)
  case 0
  then show ?case by (simp add: shape_ok_leaf subtree_slots_leaf)
next
  case (Suc h)
  let ?l = "left n (off_of (Suc h))" and ?r = "right n (off_of (Suc h))"
  have l: "shape_ok fs sm' (off_of h) ?l = shape_ok fs sm (off_of h) ?l"
    by (rule Suc.IH) (simp add: Suc.prems subtree_slots_node)
  have r: "shape_ok fs sm' (off_of h) ?r = shape_ok fs sm (off_of h) ?r"
    by (rule Suc.IH) (simp add: Suc.prems subtree_slots_node)
  have "sm' n = sm n" "sm' ?l = sm ?l" "sm' ?r = sm ?r"
    by (simp_all add: Suc.prems subtree_slots_node node_in_slots)
  then show ?case by (simp add: shape_ok_node l r is_valid_def)
qed

lemma kd_ordered_cong:
  "(\<And>a. a \<in> set (subtree_slots (off_of h) n) \<Longrightarrow> vm' a = vm a \<and> sm' a = sm a)
     \<Longrightarrow> kd_ordered ix vm' sm' d (off_of h) n = kd_ordered ix vm sm d (off_of h) n"
proof (induction h arbitrary: n d)
  case 0
  then show ?case by (simp add: kd_ordered_leaf)
next
  case (Suc h)
  let ?l = "left n (off_of (Suc h))" and ?r = "right n (off_of (Suc h))"
  have l: "kd_ordered ix vm' sm' (inc_dim (kth ix) d) (off_of h) ?l
      = kd_ordered ix vm sm (inc_dim (kth ix) d) (off_of h) ?l"
    by (rule Suc.IH) (simp add: Suc.prems subtree_slots_node)
  have r: "kd_ordered ix vm' sm' (inc_dim (kth ix) d) (off_of h) ?r
      = kd_ordered ix vm sm (inc_dim (kth ix) d) (off_of h) ?r"
    by (rule Suc.IH) (simp add: Suc.prems subtree_slots_node)
  have lv: "live_values vm' sm' (off_of h) ?l = live_values vm sm (off_of h) ?l"
    by (rule live_values_cong) (simp add: Suc.prems subtree_slots_node)
  have rv: "live_values vm' sm' (off_of h) ?r = live_values vm sm (off_of h) ?r"
    by (rule live_values_cong) (simp add: Suc.prems subtree_slots_node)
  have "sm' n = sm n" "vm' n = vm n"
    by (simp_all add: Suc.prems subtree_slots_node)
  then show ?case by (simp add: kd_ordered_node l r lv rv is_valid_def)
qed

declare minimum_loop.simps [simp del] maximum_loop.simps [simp del]
  minimum_visits.simps [simp del] maximum_visits.simps [simp del]

text \<open>Consequences of a strict weak ordering.\<close>

lemma sw_irrefl: "strict_weak ix \<Longrightarrow> d < kth ix \<Longrightarrow> \<not> select_compare d a a ix"
  by (simp add: strict_weak_def)

lemma sw_trans:
  assumes "strict_weak ix" "d < kth ix" "select_compare d a b ix" "select_compare d b c ix"
  shows "select_compare d a c ix"
proof -
  from assms(1) have "\<forall>d a b c. d < kth ix \<longrightarrow> select_compare d a b ix
           \<longrightarrow> select_compare d b c ix \<longrightarrow> select_compare d a c ix"
    by (simp add: strict_weak_def)
  with assms(2-4) show ?thesis by blast
qed

lemma sw_neg_trans:
  assumes "strict_weak ix" "d < kth ix" "select_compare d a c ix"
  shows "select_compare d a b ix \<or> select_compare d b c ix"
proof -
  from assms(1) have "\<forall>d a b c. d < kth ix \<longrightarrow> select_compare d a c ix
           \<longrightarrow> select_compare d a b ix \<or> select_compare d b c ix"
    by (simp add: strict_weak_def)
  with assms(2-3) show ?thesis by blast
qed

lemma sw_asym:
  "strict_weak ix \<Longrightarrow> d < kth ix \<Longrightarrow> select_compare d a b ix \<Longrightarrow> \<not> select_compare d b a ix"
  using sw_irrefl [of ix d a] sw_trans [of ix d a b a] by blast

lemma sw_le_trans:
  "strict_weak ix \<Longrightarrow> d < kth ix \<Longrightarrow> \<not> select_compare d b a ix \<Longrightarrow> \<not> select_compare d c b ix
     \<Longrightarrow> \<not> select_compare d c a ix"
  using sw_neg_trans [of ix d c a b] by blast

lemma sw_le_less_trans:
  "strict_weak ix \<Longrightarrow> d < kth ix \<Longrightarrow> \<not> select_compare d b a ix \<Longrightarrow> select_compare d b c ix
     \<Longrightarrow> select_compare d a c ix"
  using sw_neg_trans [of ix d b c a] by blast

lemma sw_less_le_trans:
  "strict_weak ix \<Longrightarrow> d < kth ix \<Longrightarrow> select_compare d a b ix \<Longrightarrow> \<not> select_compare d c b ix
     \<Longrightarrow> select_compare d a c ix"
  using sw_neg_trans [of ix d a b c] by blast

lemma inc_dim_less: "0 < K \<Longrightarrow> inc_dim K d < K"
  by (simp add: inc_dim_def)

lemma sw_kth: "strict_weak ix \<Longrightarrow> 0 < kth ix"
  by (simp add: strict_weak_def)

lemma pick_lower_assoc:
  assumes "strict_weak ix" "f < kth ix"
  shows "pick_lower ix vm f b (pick_lower ix vm f l x) = pick_lower ix vm f (pick_lower ix vm f b l) x"
proof -
  note t1 = sw_le_trans [OF assms] and t2 = sw_le_less_trans [OF assms]
    and t3 = sw_less_le_trans [OF assms] and t4 = sw_trans [OF assms]
  show ?thesis
  proof (cases "select_compare f (vm l) (vm x) ix")
    case lx: True
    show ?thesis
    proof (cases "select_compare f (vm b) (vm l) ix")
      case bl: True
      then have "select_compare f (vm b) (vm x) ix" using lx t4 by blast
      with lx bl show ?thesis by (simp add: pick_lower_def)
    next
      case False
      with lx show ?thesis by (simp add: pick_lower_def)
    qed
  next
    case lx: False
    show ?thesis
    proof (cases "select_compare f (vm b) (vm l) ix")
      case bl: True
      with lx show ?thesis by (simp add: pick_lower_def)
    next
      case bl: False
      then have "\<not> select_compare f (vm b) (vm x) ix" using lx t1 by blast
      with lx bl show ?thesis by (simp add: pick_lower_def)
    qed
  qed
qed

lemma pick_lower_foldl:
  assumes "strict_weak ix" "f < kth ix"
  shows "pick_lower ix vm f b (foldl (pick_lower ix vm f) l xs)
           = foldl (pick_lower ix vm f) (pick_lower ix vm f b l) xs"
proof (induction xs arbitrary: l b)
  case Nil
  show ?case by simp
next
  case (Cons x xs)
  show ?case by (simp add: Cons.IH pick_lower_assoc [OF assms])
qed

lemma pick_upper_assoc:
  assumes "strict_weak ix" "f < kth ix"
  shows "pick_upper ix vm f b (pick_upper ix vm f l x) = pick_upper ix vm f (pick_upper ix vm f b l) x"
proof -
  note t1 = sw_le_trans [OF assms] and t2 = sw_le_less_trans [OF assms]
    and t3 = sw_less_le_trans [OF assms] and t4 = sw_trans [OF assms]
  show ?thesis
  proof (cases "select_compare f (vm x) (vm l) ix")
    case lx: True
    show ?thesis
    proof (cases "select_compare f (vm l) (vm b) ix")
      case bl: True
      then have "select_compare f (vm x) (vm b) ix" using lx t4 by blast
      with lx bl show ?thesis by (simp add: pick_upper_def)
    next
      case False
      with lx show ?thesis by (simp add: pick_upper_def)
    qed
  next
    case lx: False
    show ?thesis
    proof (cases "select_compare f (vm l) (vm b) ix")
      case bl: True
      with lx show ?thesis by (simp add: pick_upper_def)
    next
      case bl: False
      then have "\<not> select_compare f (vm x) (vm b) ix" using lx t1 by blast
      with lx bl show ?thesis by (simp add: pick_upper_def)
    qed
  qed
qed

lemma pick_upper_foldl:
  assumes "strict_weak ix" "f < kth ix"
  shows "pick_upper ix vm f b (foldl (pick_upper ix vm f) l xs)
           = foldl (pick_upper ix vm f) (pick_upper ix vm f b l) xs"
proof (induction xs arbitrary: l b)
  case Nil
  show ?case by simp
next
  case (Cons x xs)
  show ?case by (simp add: Cons.IH pick_upper_assoc [OF assms])
qed

lemma sdiv2_less: "1 < (off::int) \<Longrightarrow> nat (off sdiv 2) < nat off"
  by (simp add: signed_divide_int_def)

lemma minimum_loop_step:
  "1 < off \<Longrightarrow>
    minimum_loop ix vm sm f d off n best =
      (if d = f
       then pick_lower ix vm f best
              (minimum_loop ix vm sm f (inc_dim (kth ix) d) (off sdiv 2) (left n off) (left n off))
       else minimum_loop ix vm sm f (inc_dim (kth ix) d) (off sdiv 2) (right n off)
              (pick_lower ix vm f
                 (pick_lower ix vm f best
                    (minimum_loop ix vm sm f (inc_dim (kth ix) d) (off sdiv 2) (left n off)
                       (left n off)))
                 (right n off)))"
  by (subst minimum_loop.simps) (simp add: Let_def pick_lower_def)

lemma minimum_loop_leaves:
  "minimum_loop ix vm sm f d 1 n best =
     foldl (pick_lower ix vm f) best
       ((if is_valid sm (left n 1) then [left n 1] else [])
        @ (if is_valid sm (right n 1) then [right n 1] else []))"
  by (subst minimum_loop.simps) (simp add: Let_def pick_lower_def)

lemma minimum_loop_stop: "off < 1 \<Longrightarrow> minimum_loop ix vm sm f d off n best = best"
  by (subst minimum_loop.simps) simp

lemma minimum_visits_step:
  "1 < off \<Longrightarrow>
    minimum_visits sm K f d off n =
      (left n off # minimum_visits sm K f (inc_dim K d) (off sdiv 2) (left n off))
      @ (if d = f then []
         else right n off # minimum_visits sm K f (inc_dim K d) (off sdiv 2) (right n off))"
  by (subst minimum_visits.simps) (simp add: Let_def)

lemma minimum_visits_leaves:
  "minimum_visits sm K f d 1 n =
     (if is_valid sm (left n 1) then [left n 1] else [])
     @ (if is_valid sm (right n 1) then [right n 1] else [])"
  by (subst minimum_visits.simps) simp

lemma minimum_visits_stop: "off < 1 \<Longrightarrow> minimum_visits sm K f d off n = []"
  by (subst minimum_visits.simps) simp

lemma minimum_loop_foldl:
  assumes sw: "strict_weak ix" "f < kth ix"
  shows "minimum_loop ix vm sm f d off n best
       = foldl (pick_lower ix vm f) best (minimum_visits sm (kth ix) f d off n)"
proof (induction "nat off" arbitrary: off d n best rule: less_induct)
  case less
  consider "1 < off" | "off = 1" | "off < 1" by linarith
  then show ?case
  proof cases
    case 1
    note IH = less.hyps [OF sdiv2_less [OF 1]]
    show ?thesis
      by (simp add: minimum_loop_step [OF 1] minimum_visits_step [OF 1] IH
          pick_lower_foldl [OF sw])
  next
    case 2
    then show ?thesis by (simp add: minimum_loop_leaves minimum_visits_leaves)
  next
    case 3
    then show ?thesis by (simp add: minimum_loop_stop minimum_visits_stop)
  qed
qed

lemma maximum_loop_step:
  "1 < off \<Longrightarrow>
    maximum_loop ix vm sm f d off n best =
      (if d = f
       then pick_upper ix vm f best
              (maximum_loop ix vm sm f (inc_dim (kth ix) d) (off sdiv 2) (right n off) (right n off))
       else maximum_loop ix vm sm f (inc_dim (kth ix) d) (off sdiv 2) (left n off)
              (pick_upper ix vm f
                 (pick_upper ix vm f best
                    (maximum_loop ix vm sm f (inc_dim (kth ix) d) (off sdiv 2) (right n off)
                       (right n off)))
                 (left n off)))"
  by (subst maximum_loop.simps) (simp add: Let_def pick_upper_def)

lemma maximum_loop_leaves:
  "maximum_loop ix vm sm f d 1 n best =
     foldl (pick_upper ix vm f) best
       ((if is_valid sm (left n 1) then [left n 1] else [])
        @ (if is_valid sm (right n 1) then [right n 1] else []))"
  by (subst maximum_loop.simps) (simp add: Let_def pick_upper_def)

lemma maximum_loop_stop: "off < 1 \<Longrightarrow> maximum_loop ix vm sm f d off n best = best"
  by (subst maximum_loop.simps) simp

lemma maximum_visits_step:
  "1 < off \<Longrightarrow>
    maximum_visits sm K f d off n =
      (right n off # maximum_visits sm K f (inc_dim K d) (off sdiv 2) (right n off))
      @ (if d = f then []
         else left n off # maximum_visits sm K f (inc_dim K d) (off sdiv 2) (left n off))"
  by (subst maximum_visits.simps) (simp add: Let_def)

lemma maximum_visits_leaves:
  "maximum_visits sm K f d 1 n =
     (if is_valid sm (left n 1) then [left n 1] else [])
     @ (if is_valid sm (right n 1) then [right n 1] else [])"
  by (subst maximum_visits.simps) simp

lemma maximum_visits_stop: "off < 1 \<Longrightarrow> maximum_visits sm K f d off n = []"
  by (subst maximum_visits.simps) simp

lemma maximum_loop_foldl:
  assumes sw: "strict_weak ix" "f < kth ix"
  shows "maximum_loop ix vm sm f d off n best
       = foldl (pick_upper ix vm f) best (maximum_visits sm (kth ix) f d off n)"
proof (induction "nat off" arbitrary: off d n best rule: less_induct)
  case less
  consider "1 < off" | "off = 1" | "off < 1" by linarith
  then show ?case
  proof cases
    case 1
    note IH = less.hyps [OF sdiv2_less [OF 1]]
    show ?thesis
      by (simp add: maximum_loop_step [OF 1] maximum_visits_step [OF 1] IH
          pick_upper_foldl [OF sw])
  next
    case 2
    then show ?thesis by (simp add: maximum_loop_leaves maximum_visits_leaves)
  next
    case 3
    then show ?thesis by (simp add: maximum_loop_stop maximum_visits_stop)
  qed
qed

text \<open>What a fold of the comparison step returns: a slot that is examined, not above any
  examined slot, and strictly below all slots examined after it.\<close>

lemma foldl_pick_lower:
  assumes sw: "strict_weak ix" "f < kth ix"
  shows "\<exists>ys zs. b # xs = ys @ foldl (pick_lower ix vm f) b xs # zs
           \<and> (\<forall>y\<in>set ys. \<not> select_compare f (vm y) (vm (foldl (pick_lower ix vm f) b xs)) ix)
           \<and> (\<forall>z\<in>set zs. select_compare f (vm (foldl (pick_lower ix vm f) b xs)) (vm z) ix)"
proof (induction xs arbitrary: b)
  case Nil
  have "[b] = [] @ b # []" by simp
  then show ?case by (metis empty_iff foldl_Nil list.set(1))
next
  case (Cons x xs)
  let ?p = "pick_lower ix vm f"
  let ?r = "foldl ?p (?p b x) xs"
  from Cons.IH [of "?p b x"] obtain ys zs where
    split: "?p b x # xs = ys @ ?r # zs"
    and lo: "\<forall>y\<in>set ys. \<not> select_compare f (vm y) (vm ?r) ix"
    and hi: "\<forall>z\<in>set zs. select_compare f (vm ?r) (vm z) ix"
    by blast
  have rle: "\<not> select_compare f (vm (?p b x)) (vm ?r) ix"
  proof (cases ys)
    case Nil
    with split have "?p b x # xs = ?r # zs" by (simp only: append_Nil)
    then have "?p b x = ?r" by blast
    then show ?thesis using sw_irrefl [OF sw, of "vm ?r"] by metis
  next
    case (Cons y ys')
    with split lo show ?thesis by simp
  qed
  have goal: "\<exists>ys zs. b # x # xs = ys @ ?r # zs
           \<and> (\<forall>y\<in>set ys. \<not> select_compare f (vm y) (vm ?r) ix)
           \<and> (\<forall>z\<in>set zs. select_compare f (vm ?r) (vm z) ix)"
  proof (cases "select_compare f (vm b) (vm x) ix")
    case bx: True
    then have pb: "?p b x = b" by (simp add: pick_lower_def)
    show ?thesis
    proof (cases ys)
      case Nil
      with split have "?p b x # xs = ?r # zs" by (simp only: append_Nil)
      then have "?p b x = ?r" "xs = zs" by blast+
      with pb have r: "?r = b" "zs = xs" by simp_all
      have 1: "b # x # xs = [] @ ?r # (x # xs)" using r by simp
      have 2: "\<forall>z\<in>set (x # xs). select_compare f (vm ?r) (vm z) ix"
        using hi r bx by simp
      have 3: "\<forall>y\<in>set ([]::int list). \<not> select_compare f (vm y) (vm ?r) ix" by simp
      from 1 2 3 show ?thesis by blast
    next
      case (Cons y ys')
      with split have "?p b x # xs = y # (ys' @ ?r # zs)" by (simp only: append_Cons)
      then have "?p b x = y" "xs = ys' @ ?r # zs" by blast+
      with pb have e: "y = b" "xs = ys' @ ?r # zs" by metis+
      have rb: "\<not> select_compare f (vm b) (vm ?r) ix" using rle pb by simp
      have rx: "\<not> select_compare f (vm x) (vm ?r) ix"
        using sw_less_le_trans [OF sw bx, of "vm ?r"] rb sw_asym [OF sw] by blast
      have 1: "b # x # xs = (b # x # ys') @ ?r # zs" using e by simp
      have 2: "\<forall>y\<in>set (b # x # ys'). \<not> select_compare f (vm y) (vm ?r) ix"
        using lo Cons rb rx by simp
      from 1 2 hi show ?thesis by blast
    qed
  next
    case bx: False
    then have pb: "?p b x = x" by (simp add: pick_lower_def)
    have rx: "\<not> select_compare f (vm x) (vm ?r) ix" using rle pb by simp
    have rb: "\<not> select_compare f (vm b) (vm ?r) ix"
      using sw_le_trans [OF sw rx bx] .
    have 1: "b # x # xs = (b # ys) @ ?r # zs" using split pb by simp
    have 2: "\<forall>y\<in>set (b # ys). \<not> select_compare f (vm y) (vm ?r) ix"
      using lo rb by simp
    from 1 2 hi show ?thesis by blast
  qed
  then show ?case by simp
qed

lemma foldl_pick_upper:
  assumes sw: "strict_weak ix" "f < kth ix"
  shows "\<exists>ys zs. b # xs = ys @ foldl (pick_upper ix vm f) b xs # zs
           \<and> (\<forall>y\<in>set ys. \<not> select_compare f (vm (foldl (pick_upper ix vm f) b xs)) (vm y) ix)
           \<and> (\<forall>z\<in>set zs. select_compare f (vm z) (vm (foldl (pick_upper ix vm f) b xs)) ix)"
proof (induction xs arbitrary: b)
  case Nil
  have "[b] = [] @ b # []" by simp
  then show ?case by (metis empty_iff foldl_Nil list.set(1))
next
  case (Cons x xs)
  let ?p = "pick_upper ix vm f"
  let ?r = "foldl ?p (?p b x) xs"
  from Cons.IH [of "?p b x"] obtain ys zs where
    split: "?p b x # xs = ys @ ?r # zs"
    and lo: "\<forall>y\<in>set ys. \<not> select_compare f (vm ?r) (vm y) ix"
    and hi: "\<forall>z\<in>set zs. select_compare f (vm z) (vm ?r) ix"
    by blast
  have rle: "\<not> select_compare f (vm ?r) (vm (?p b x)) ix"
  proof (cases ys)
    case Nil
    with split have "?p b x # xs = ?r # zs" by (simp only: append_Nil)
    then have "?p b x = ?r" by blast
    then show ?thesis using sw_irrefl [OF sw, of "vm ?r"] by metis
  next
    case (Cons y ys')
    with split lo show ?thesis by simp
  qed
  have goal: "\<exists>ys zs. b # x # xs = ys @ ?r # zs
           \<and> (\<forall>y\<in>set ys. \<not> select_compare f (vm ?r) (vm y) ix)
           \<and> (\<forall>z\<in>set zs. select_compare f (vm z) (vm ?r) ix)"
  proof (cases "select_compare f (vm x) (vm b) ix")
    case bx: True
    then have pb: "?p b x = b" by (simp add: pick_upper_def)
    show ?thesis
    proof (cases ys)
      case Nil
      with split have "?p b x # xs = ?r # zs" by (simp only: append_Nil)
      then have "?p b x = ?r" "xs = zs" by blast+
      with pb have r: "?r = b" "zs = xs" by simp_all
      have 1: "b # x # xs = [] @ ?r # (x # xs)" using r by simp
      have 2: "\<forall>z\<in>set (x # xs). select_compare f (vm z) (vm ?r) ix"
        using hi r bx by simp
      have 3: "\<forall>y\<in>set ([]::int list). \<not> select_compare f (vm ?r) (vm y) ix" by simp
      from 1 2 3 show ?thesis by blast
    next
      case (Cons y ys')
      with split have "?p b x # xs = y # (ys' @ ?r # zs)" by (simp only: append_Cons)
      then have "?p b x = y" "xs = ys' @ ?r # zs" by blast+
      with pb have e: "y = b" "xs = ys' @ ?r # zs" by metis+
      have rb: "\<not> select_compare f (vm ?r) (vm b) ix" using rle pb by simp
      have rx: "\<not> select_compare f (vm ?r) (vm x) ix"
        using sw_le_less_trans [OF sw rb, of "vm x"] bx sw_asym [OF sw] sw_trans [OF sw] by blast
      have 1: "b # x # xs = (b # x # ys') @ ?r # zs" using e by simp
      have 2: "\<forall>y\<in>set (b # x # ys'). \<not> select_compare f (vm ?r) (vm y) ix"
        using lo Cons rb rx by simp
      from 1 2 hi show ?thesis by blast
    qed
  next
    case bx: False
    then have pb: "?p b x = x" by (simp add: pick_upper_def)
    have rx: "\<not> select_compare f (vm ?r) (vm x) ix" using rle pb by simp
    have rb: "\<not> select_compare f (vm ?r) (vm b) ix"
      using sw_le_trans [OF sw bx rx] .
    have 1: "b # x # xs = (b # ys) @ ?r # zs" using split pb by simp
    have 2: "\<forall>y\<in>set (b # ys). \<not> select_compare f (vm ?r) (vm y) ix"
      using lo rb by simp
    from 1 2 hi show ?thesis by blast
  qed
  then show ?case by simp
qed

lemma list_all_live_values:
  "list_all P (live_values vm sm off n)
     = (\<forall>a\<in>set (subtree_slots off n). is_valid sm a \<longrightarrow> P (vm a))"
  by (auto simp: live_values_def list_all_iff)

lemma set_live_values:
  "set (live_values vm sm off n) = vm ` {a \<in> set (subtree_slots off n). is_valid sm a}"
  by (auto simp: live_values_def)

lemma left_in_slots:
  "a \<in> set (subtree_slots (off_of h) (left n (off_of (Suc h))))
     \<Longrightarrow> a \<in> set (subtree_slots (off_of (Suc h)) n)"
  by (simp add: subtree_slots_node)

lemma right_in_slots:
  "a \<in> set (subtree_slots (off_of h) (right n (off_of (Suc h))))
     \<Longrightarrow> a \<in> set (subtree_slots (off_of (Suc h)) n)"
  by (simp add: subtree_slots_node)

lemma shape_ok_valid: "shape_ok fs sm (off_of (Suc h)) n \<Longrightarrow> is_valid sm n"
  by (simp add: shape_ok_node)

lemma subtree_slots_one: "subtree_slots 1 n = [left n 1, n, right n 1]"
  using subtree_slots_node [of 0 n] by (simp add: off_of_Suc_0 subtree_slots_leaf)

lemma minimum_visits_sound:
  "shape_ok fs sm (off_of h) n \<Longrightarrow> a \<in> set (minimum_visits sm K f d (off_of h) n)
     \<Longrightarrow> a \<in> set (subtree_slots (off_of h) n) \<and> is_valid sm a"
proof (induction h arbitrary: n d)
  case 0
  then show ?case by (simp add: minimum_visits_stop off_of.simps)
next
  case (Suc h)
  let ?l = "left n (off_of (Suc h))" and ?r = "right n (off_of (Suc h))"
  from Suc.prems(1) have sl: "shape_ok fs sm (off_of h) ?l" and sr: "shape_ok fs sm (off_of h) ?r"
    by (simp_all add: shape_ok_node)
  show ?case
  proof (cases h)
    case 0
    with Suc.prems(2) show ?thesis
      by (auto simp: off_of_Suc_0 minimum_visits_leaves subtree_slots_one split: if_splits)
  next
    case (Suc k)
    have gt: "1 < off_of (Suc h)" unfolding Suc by (rule off_of_SS_gt1)
    have vl: "is_valid sm ?l" and vr: "is_valid sm ?r"
      using sl sr unfolding Suc by (auto dest: shape_ok_valid)
    from Suc.prems(2) consider "a = ?l" | "a = ?r"
      | "a \<in> set (minimum_visits sm K f (inc_dim K d) (off_of h) ?l)"
      | "a \<in> set (minimum_visits sm K f (inc_dim K d) (off_of h) ?r)"
      by (auto simp: minimum_visits_step [OF gt] off_of_half split: if_splits)
    then show ?thesis
    proof cases
      case 1
      then show ?thesis using vl by (simp add: subtree_slots_node node_in_slots)
    next
      case 2
      then show ?thesis using vr by (simp add: subtree_slots_node node_in_slots)
    next
      case 3
      from Suc.IH [OF sl this] show ?thesis by (simp add: subtree_slots_node)
    next
      case 4
      from Suc.IH [OF sr this] show ?thesis by (simp add: subtree_slots_node)
    qed
  qed
qed

lemma maximum_visits_sound:
  "shape_ok fs sm (off_of h) n \<Longrightarrow> a \<in> set (maximum_visits sm K f d (off_of h) n)
     \<Longrightarrow> a \<in> set (subtree_slots (off_of h) n) \<and> is_valid sm a"
proof (induction h arbitrary: n d)
  case 0
  then show ?case by (simp add: maximum_visits_stop off_of.simps)
next
  case (Suc h)
  let ?l = "left n (off_of (Suc h))" and ?r = "right n (off_of (Suc h))"
  from Suc.prems(1) have sl: "shape_ok fs sm (off_of h) ?l" and sr: "shape_ok fs sm (off_of h) ?r"
    by (simp_all add: shape_ok_node)
  show ?case
  proof (cases h)
    case 0
    with Suc.prems(2) show ?thesis
      by (auto simp: off_of_Suc_0 maximum_visits_leaves subtree_slots_one split: if_splits)
  next
    case (Suc k)
    have gt: "1 < off_of (Suc h)" unfolding Suc by (rule off_of_SS_gt1)
    have vl: "is_valid sm ?l" and vr: "is_valid sm ?r"
      using sl sr unfolding Suc by (auto dest: shape_ok_valid)
    from Suc.prems(2) consider "a = ?l" | "a = ?r"
      | "a \<in> set (maximum_visits sm K f (inc_dim K d) (off_of h) ?l)"
      | "a \<in> set (maximum_visits sm K f (inc_dim K d) (off_of h) ?r)"
      by (auto simp: maximum_visits_step [OF gt] off_of_half split: if_splits)
    then show ?thesis
    proof cases
      case 1
      then show ?thesis using vl by (simp add: subtree_slots_node node_in_slots)
    next
      case 2
      then show ?thesis using vr by (simp add: subtree_slots_node node_in_slots)
    next
      case 3
      from Suc.IH [OF sl this] show ?thesis by (simp add: subtree_slots_node)
    next
      case 4
      from Suc.IH [OF sr this] show ?thesis by (simp add: subtree_slots_node)
    qed
  qed
qed

text \<open>Every live slot of the subtree is not below some examined slot: the slots that
  \<open>minimum\<close> skips lie in right subtrees of nodes that split along the fixed dimension.\<close>

lemma minimum_visits_cover:
  assumes sw: "strict_weak ix" "f < kth ix"
  shows "shape_ok fs sm (off_of h) n \<Longrightarrow> kd_ordered ix vm sm d (off_of h) n
     \<Longrightarrow> a \<in> set (subtree_slots (off_of h) n) \<Longrightarrow> is_valid sm a
     \<Longrightarrow> \<exists>y\<in>set (n # minimum_visits sm (kth ix) f d (off_of h) n).
           \<not> select_compare f (vm a) (vm y) ix"
proof (induction h arbitrary: n d)
  case 0
  then show ?case using sw_irrefl [OF sw] by (simp add: subtree_slots_leaf)
next
  case (Suc h)
  let ?l = "left n (off_of (Suc h))" and ?r = "right n (off_of (Suc h))"
  let ?cd = "inc_dim (kth ix) d"
  from Suc.prems(1) have sl: "shape_ok fs sm (off_of h) ?l" and sr: "shape_ok fs sm (off_of h) ?r"
    and vn: "is_valid sm n"
    by (simp_all add: shape_ok_node)
  from Suc.prems(2) have kl: "kd_ordered ix vm sm ?cd (off_of h) ?l"
    and kr: "kd_ordered ix vm sm ?cd (off_of h) ?r"
    by (simp_all add: kd_ordered_node)
  from Suc.prems(3) consider "a = n" | "a \<in> set (subtree_slots (off_of h) ?l)"
    | "a \<in> set (subtree_slots (off_of h) ?r)"
    by (auto simp: subtree_slots_node)
  then show ?case
  proof cases
    case 1
    then show ?thesis using sw_irrefl [OF sw] by simp
  next
    case 2
    show ?thesis
    proof (cases h)
      case 0
      with 2 have "a = ?l" by (simp add: subtree_slots_leaf)
      then have "a \<in> set (minimum_visits sm (kth ix) f d (off_of (Suc h)) n)"
        using Suc.prems(4) 0 by (simp add: off_of_Suc_0 minimum_visits_leaves)
      then show ?thesis using sw_irrefl [OF sw] by auto
    next
      case (Suc k)
      have gt: "1 < off_of (Suc h)" unfolding Suc by (rule off_of_SS_gt1)
      from Suc.IH [OF sl kl 2 Suc.prems(4)] obtain y where
        "y \<in> set (?l # minimum_visits sm (kth ix) f ?cd (off_of h) ?l)"
        "\<not> select_compare f (vm a) (vm y) ix" by blast
      then show ?thesis
        by (auto simp: minimum_visits_step [OF gt] off_of_half)
    qed
  next
    case 3
    show ?thesis
    proof (cases h)
      case 0
      with 3 have "a = ?r" by (simp add: subtree_slots_leaf)
      then have "a \<in> set (minimum_visits sm (kth ix) f d (off_of (Suc h)) n)"
        using Suc.prems(4) 0 by (simp add: off_of_Suc_0 minimum_visits_leaves)
      then show ?thesis using sw_irrefl [OF sw] by auto
    next
      case (Suc k)
      have gt: "1 < off_of (Suc h)" unfolding Suc by (rule off_of_SS_gt1)
      show ?thesis
      proof (cases "d = f")
        case True
        have "\<not> select_compare f (vm a) (vm n) ix"
          using Suc.prems(2) vn 3 Suc.prems(4) True
          by (simp add: kd_ordered_node list_all_live_values)
        then show ?thesis by auto
      next
        case False
        from Suc.IH [OF sr kr 3 Suc.prems(4)] obtain y where
          "y \<in> set (?r # minimum_visits sm (kth ix) f ?cd (off_of h) ?r)"
          "\<not> select_compare f (vm a) (vm y) ix" by blast
        then show ?thesis using False
          by (auto simp: minimum_visits_step [OF gt] off_of_half)
      qed
    qed
  qed
qed

lemma maximum_visits_cover:
  assumes sw: "strict_weak ix" "f < kth ix"
  shows "shape_ok fs sm (off_of h) n \<Longrightarrow> kd_ordered ix vm sm d (off_of h) n
     \<Longrightarrow> a \<in> set (subtree_slots (off_of h) n) \<Longrightarrow> is_valid sm a
     \<Longrightarrow> \<exists>y\<in>set (n # maximum_visits sm (kth ix) f d (off_of h) n).
           \<not> select_compare f (vm y) (vm a) ix"
proof (induction h arbitrary: n d)
  case 0
  then show ?case using sw_irrefl [OF sw] by (simp add: subtree_slots_leaf)
next
  case (Suc h)
  let ?l = "left n (off_of (Suc h))" and ?r = "right n (off_of (Suc h))"
  let ?cd = "inc_dim (kth ix) d"
  from Suc.prems(1) have sl: "shape_ok fs sm (off_of h) ?l" and sr: "shape_ok fs sm (off_of h) ?r"
    and vn: "is_valid sm n"
    by (simp_all add: shape_ok_node)
  from Suc.prems(2) have kl: "kd_ordered ix vm sm ?cd (off_of h) ?l"
    and kr: "kd_ordered ix vm sm ?cd (off_of h) ?r"
    by (simp_all add: kd_ordered_node)
  from Suc.prems(3) consider "a = n" | "a \<in> set (subtree_slots (off_of h) ?l)"
    | "a \<in> set (subtree_slots (off_of h) ?r)"
    by (auto simp: subtree_slots_node)
  then show ?case
  proof cases
    case 1
    then show ?thesis using sw_irrefl [OF sw] by simp
  next
    case 3
    show ?thesis
    proof (cases h)
      case 0
      with 3 have "a = ?r" by (simp add: subtree_slots_leaf)
      then have "a \<in> set (maximum_visits sm (kth ix) f d (off_of (Suc h)) n)"
        using Suc.prems(4) 0 by (simp add: off_of_Suc_0 maximum_visits_leaves)
      then show ?thesis using sw_irrefl [OF sw] by auto
    next
      case (Suc k)
      have gt: "1 < off_of (Suc h)" unfolding Suc by (rule off_of_SS_gt1)
      from Suc.IH [OF sr kr 3 Suc.prems(4)] obtain y where
        "y \<in> set (?r # maximum_visits sm (kth ix) f ?cd (off_of h) ?r)"
        "\<not> select_compare f (vm y) (vm a) ix" by blast
      then show ?thesis
        by (auto simp: maximum_visits_step [OF gt] off_of_half)
    qed
  next
    case 2
    show ?thesis
    proof (cases h)
      case 0
      with 2 have "a = ?l" by (simp add: subtree_slots_leaf)
      then have "a \<in> set (maximum_visits sm (kth ix) f d (off_of (Suc h)) n)"
        using Suc.prems(4) 0 by (simp add: off_of_Suc_0 maximum_visits_leaves)
      then show ?thesis using sw_irrefl [OF sw] by auto
    next
      case (Suc k)
      have gt: "1 < off_of (Suc h)" unfolding Suc by (rule off_of_SS_gt1)
      show ?thesis
      proof (cases "d = f")
        case True
        have "\<not> select_compare f (vm n) (vm a) ix"
          using Suc.prems(2) vn 2 Suc.prems(4) True
          by (simp add: kd_ordered_node list_all_live_values)
        then show ?thesis by auto
      next
        case False
        from Suc.IH [OF sl kl 2 Suc.prems(4)] obtain y where
          "y \<in> set (?l # maximum_visits sm (kth ix) f ?cd (off_of h) ?l)"
          "\<not> select_compare f (vm y) (vm a) ix" by blast
        then show ?thesis using False
          by (auto simp: maximum_visits_step [OF gt] off_of_half)
      qed
    qed
  qed
qed

lemma minimum_correct:
  assumes sw: "strict_weak ix" "f < kth ix"
    and sh: "shape_ok fs sm (off_of h) n" and kd: "kd_ordered ix vm sm d (off_of h) n"
    and vn: "is_valid sm n"
  shows "minimum ix vm sm f d (off_of h) n \<in> set (subtree_slots (off_of h) n)"
    and "is_valid sm (minimum ix vm sm f d (off_of h) n)"
    and "\<And>a. a \<in> set (subtree_slots (off_of h) n) \<Longrightarrow> is_valid sm a
           \<Longrightarrow> \<not> select_compare f (vm a) (vm (minimum ix vm sm f d (off_of h) n)) ix"
    and "\<exists>ys zs. n # minimum_visits sm (kth ix) f d (off_of h) n
             = ys @ minimum ix vm sm f d (off_of h) n # zs
           \<and> (\<forall>z\<in>set zs. select_compare f (vm (minimum ix vm sm f d (off_of h) n)) (vm z) ix)"
proof -
  let ?vs = "minimum_visits sm (kth ix) f d (off_of h) n"
  let ?r = "minimum ix vm sm f d (off_of h) n"
  have r: "?r = foldl (pick_lower ix vm f) n ?vs"
    by (simp add: minimum_def minimum_loop_foldl [OF sw])
  from foldl_pick_lower [OF sw, of n ?vs vm] obtain ys zs where
    split: "n # ?vs = ys @ ?r # zs"
    and lo: "\<forall>y\<in>set ys. \<not> select_compare f (vm y) (vm ?r) ix"
    and hi: "\<forall>z\<in>set zs. select_compare f (vm ?r) (vm z) ix"
    unfolding r by blast
  have mem: "?r \<in> set (n # ?vs)" using split by simp
  have vis: "\<And>y. y \<in> set (n # ?vs) \<Longrightarrow> y \<in> set (subtree_slots (off_of h) n) \<and> is_valid sm y"
    using minimum_visits_sound [OF sh] vn node_in_slots by auto
  show "?r \<in> set (subtree_slots (off_of h) n)" "is_valid sm ?r"
    using vis [OF mem] by simp_all
  have below: "\<And>y. y \<in> set (n # ?vs) \<Longrightarrow> \<not> select_compare f (vm y) (vm ?r) ix"
  proof -
    fix y assume "y \<in> set (n # ?vs)"
    then have "y \<in> set ys \<or> y = ?r \<or> y \<in> set zs" unfolding split by auto
    then show "\<not> select_compare f (vm y) (vm ?r) ix"
      using lo hi sw_irrefl [OF sw] sw_asym [OF sw] by blast
  qed
  show "\<not> select_compare f (vm a) (vm ?r) ix"
    if "a \<in> set (subtree_slots (off_of h) n)" "is_valid sm a" for a
  proof -
    from minimum_visits_cover [OF sw sh kd that] obtain y where
      y: "y \<in> set (n # ?vs)" "\<not> select_compare f (vm a) (vm y) ix" by blast
    from sw_le_trans [OF sw below [OF y(1)] y(2)] show ?thesis .
  qed
  show "\<exists>ys zs. n # ?vs = ys @ ?r # zs \<and> (\<forall>z\<in>set zs. select_compare f (vm ?r) (vm z) ix)"
    using split hi by blast
qed

lemma maximum_correct:
  assumes sw: "strict_weak ix" "f < kth ix"
    and sh: "shape_ok fs sm (off_of h) n" and kd: "kd_ordered ix vm sm d (off_of h) n"
    and vn: "is_valid sm n"
  shows "maximum ix vm sm f d (off_of h) n \<in> set (subtree_slots (off_of h) n)"
    and "is_valid sm (maximum ix vm sm f d (off_of h) n)"
    and "\<And>a. a \<in> set (subtree_slots (off_of h) n) \<Longrightarrow> is_valid sm a
           \<Longrightarrow> \<not> select_compare f (vm (maximum ix vm sm f d (off_of h) n)) (vm a) ix"
    and "\<exists>ys zs. n # maximum_visits sm (kth ix) f d (off_of h) n
             = ys @ maximum ix vm sm f d (off_of h) n # zs
           \<and> (\<forall>z\<in>set zs. select_compare f (vm z) (vm (maximum ix vm sm f d (off_of h) n)) ix)"
proof -
  let ?vs = "maximum_visits sm (kth ix) f d (off_of h) n"
  let ?r = "maximum ix vm sm f d (off_of h) n"
  have r: "?r = foldl (pick_upper ix vm f) n ?vs"
    by (simp add: maximum_def maximum_loop_foldl [OF sw])
  from foldl_pick_upper [OF sw, of n ?vs vm] obtain ys zs where
    split: "n # ?vs = ys @ ?r # zs"
    and lo: "\<forall>y\<in>set ys. \<not> select_compare f (vm ?r) (vm y) ix"
    and hi: "\<forall>z\<in>set zs. select_compare f (vm z) (vm ?r) ix"
    unfolding r by blast
  have mem: "?r \<in> set (n # ?vs)" using split by simp
  have vis: "\<And>y. y \<in> set (n # ?vs) \<Longrightarrow> y \<in> set (subtree_slots (off_of h) n) \<and> is_valid sm y"
    using maximum_visits_sound [OF sh] vn node_in_slots by auto
  show "?r \<in> set (subtree_slots (off_of h) n)" "is_valid sm ?r"
    using vis [OF mem] by simp_all
  have above: "\<And>y. y \<in> set (n # ?vs) \<Longrightarrow> \<not> select_compare f (vm ?r) (vm y) ix"
  proof -
    fix y assume "y \<in> set (n # ?vs)"
    then have "y \<in> set ys \<or> y = ?r \<or> y \<in> set zs" unfolding split by auto
    then show "\<not> select_compare f (vm ?r) (vm y) ix"
      using lo hi sw_irrefl [OF sw] sw_asym [OF sw] by blast
  qed
  show "\<not> select_compare f (vm ?r) (vm a) ix"
    if "a \<in> set (subtree_slots (off_of h) n)" "is_valid sm a" for a
  proof -
    from maximum_visits_cover [OF sw sh kd that] obtain y where
      y: "y \<in> set (n # ?vs)" "\<not> select_compare f (vm y) (vm a) ix" by blast
    from sw_le_trans [OF sw y(2) above [OF y(1)]] show ?thesis .
  qed
  show "\<exists>ys zs. n # ?vs = ys @ ?r # zs \<and> (\<forall>z\<in>set zs. select_compare f (vm z) (vm ?r) ix)"
    using split hi by blast
qed

declare erase_when_full.simps [simp del] single_insert.simps [simp del] find_rec.simps [simp del]

lemma erase_step:
  "1 < off \<Longrightarrow>
   erase_when_full ix d off n e vm sm =
    (let (vm', sm') =
       (if n = e then
          erase_when_full ix (inc_dim (kth ix) d) (off sdiv 2) (right n off)
            (minimum ix vm sm d (inc_dim (kth ix) d) (off sdiv 2) (right n off))
            (vm(e := vm (minimum ix vm sm d (inc_dim (kth ix) d) (off sdiv 2) (right n off)))) sm
        else if n < e then
          erase_when_full ix (inc_dim (kth ix) d) (off sdiv 2) (right n off) e vm sm
        else erase_when_full ix (inc_dim (kth ix) d) (off sdiv 2) (left n off) e vm sm)
     in (vm', sm'(n := Unsure)))"
  by (subst erase_when_full.simps) (simp add: Let_def)

lemma erase_leaves:
  "erase_when_full ix d 1 n e vm sm =
    (if n = e then (vm(n := vm (right n 1)), (sm(right n 1 := Invalid))(n := Unsure))
     else (vm, (sm(e := Invalid))(n := Unsure)))"
  by (subst erase_when_full.simps) (simp add: Let_def)

lemma mset_live_node:
  "mset (live_values vm sm (off_of (Suc h)) n) =
     mset (live_values vm sm (off_of h) (left n (off_of (Suc h))))
     + (if is_valid sm n then {#vm n#} else {#})
     + mset (live_values vm sm (off_of h) (right n (off_of (Suc h))))"
  by (simp add: live_values_node)

lemma full_all:
  "shape_ok fs sm (off_of h) n \<Longrightarrow> sm n = fs \<Longrightarrow> a \<in> set (subtree_slots (off_of h) n)
     \<Longrightarrow> sm a = fs"
proof (induction h arbitrary: n)
  case 0
  then show ?case by (simp add: subtree_slots_leaf)
next
  case (Suc h)
  from Suc.prems(1,2) have
    "shape_ok fs sm (off_of h) (left n (off_of (Suc h)))" "sm (left n (off_of (Suc h))) = fs"
    "shape_ok fs sm (off_of h) (right n (off_of (Suc h)))" "sm (right n (off_of (Suc h))) = fs"
    by (simp_all add: shape_ok_node)
  with Suc.IH Suc.prems(2,3) show ?case
    by (auto simp: subtree_slots_node)
qed

lemma kd_node_values:
  "kd_ordered ix vm sm d (off_of (Suc h)) n =
    ((is_valid sm n \<longrightarrow>
        (\<forall>x\<in>#mset (live_values vm sm (off_of h) (right n (off_of (Suc h)))).
            \<not> select_compare d x (vm n) ix)
        \<and> (\<forall>x\<in>#mset (live_values vm sm (off_of h) (left n (off_of (Suc h)))).
            \<not> select_compare d (vm n) x ix))
     \<and> kd_ordered ix vm sm (inc_dim (kth ix) d) (off_of h) (left n (off_of (Suc h)))
     \<and> kd_ordered ix vm sm (inc_dim (kth ix) d) (off_of h) (right n (off_of (Suc h))))"
  by (simp add: kd_ordered_node list_all_iff)

lemma in_live_values:
  "x \<in># mset (live_values vm sm off n)
     \<longleftrightarrow> (\<exists>a\<in>set (subtree_slots off n). is_valid sm a \<and> vm a = x)"
  by (auto simp: live_values_def)

lemma left_right_disjoint:
  "a \<in> set (subtree_slots (off_of h) (left n (off_of (Suc h))))
     \<Longrightarrow> a \<notin> set (subtree_slots (off_of h) (right n (off_of (Suc h))))"
  using left_slots_below [of a h n] right_slots_above [of a h n] by auto

lemma node_not_left: "n \<notin> set (subtree_slots (off_of h) (left n (off_of (Suc h))))"
  using left_slots_below [of n h n] by auto

lemma node_not_right: "n \<notin> set (subtree_slots (off_of h) (right n (off_of (Suc h))))"
  using right_slots_above [of n h n] by auto

lemma shape_ok_one:
  "shape_ok fs sm 1 n =
    (is_valid sm n
     \<and> ((sm n = fs) = (sm (left n 1) = fs \<and> sm (right n 1) = fs))
     \<and> (sm (left n 1) = Invalid \<or> sm (left n 1) = fs)
     \<and> (sm (right n 1) = Invalid \<or> sm (right n 1) = fs))"
  using shape_ok_node [of fs sm 0 n] by (simp add: off_of_Suc_0 shape_ok_leaf)

lemma live_values_one:
  "live_values vm sm 1 n =
     (if is_valid sm (left n 1) then [vm (left n 1)] else [])
     @ (if is_valid sm n then [vm n] else [])
     @ (if is_valid sm (right n 1) then [vm (right n 1)] else [])"
  using live_values_node [of vm sm 0 n] by (simp add: off_of_Suc_0 live_values_leaf)

lemma kd_ordered_one:
  "kd_ordered ix vm sm d 1 n =
    (is_valid sm n \<longrightarrow>
       (is_valid sm (right n 1) \<longrightarrow> \<not> select_compare d (vm (right n 1)) (vm n) ix)
       \<and> (is_valid sm (left n 1) \<longrightarrow> \<not> select_compare d (vm n) (vm (left n 1)) ix))"
  using kd_ordered_node [of ix vm sm d 0 n]
  by (simp add: off_of_Suc_0 kd_ordered_leaf live_values_leaf)

lemma left_right_one: "left n 1 \<noteq> n" "right n 1 \<noteq> n" "left n 1 \<noteq> right n 1"
  by (simp_all add: left_def right_def)

lemma erase_one:
  assumes sw: "strict_weak ix" and fs: "fs = Heads \<or> fs = Tails" and d: "d < kth ix"
    and sh: "shape_ok fs sm 1 n" and full: "sm n = fs"
    and kd: "kd_ordered ix vm sm d 1 n"
    and e: "e \<in> set (subtree_slots 1 n)"
    and res: "erase_when_full ix d 1 n e vm sm = (vm', sm')"
  shows "shape_ok fs sm' 1 n \<and> sm' n \<noteq> fs \<and> kd_ordered ix vm' sm' d 1 n
     \<and> add_mset (vm e) (mset (live_values vm' sm' 1 n)) = mset (live_values vm sm 1 n)
     \<and> (\<forall>a. a \<notin> set (subtree_slots 1 n) \<longrightarrow> vm' a = vm a \<and> sm' a = sm a)"
proof -
  note lr = left_right_one [of n] left_right_one [of n, symmetric]
  from sh full have st: "sm (left n 1) = fs" "sm (right n 1) = fs"
    by (simp_all add: shape_ok_one)
  from fs have fsv: "fs \<noteq> Invalid" "fs \<noteq> Unsure" by auto
  from kd full st fsv have ord: "\<not> select_compare d (vm (right n 1)) (vm n) ix"
      "\<not> select_compare d (vm n) (vm (left n 1)) ix"
    by (simp_all add: kd_ordered_one is_valid_def)
  have lr_ord: "\<not> select_compare d (vm (right n 1)) (vm (left n 1)) ix"
    using sw_le_trans [OF sw d ord(2) ord(1)] .
  from e consider "e = n" | "e = left n 1" | "e = right n 1"
    by (auto simp: subtree_slots_one)
  then show ?thesis
  proof cases
    case 1
    with res have r: "vm' = vm(n := vm (right n 1))"
        "sm' = (sm(right n 1 := Invalid))(n := Unsure)"
      by (simp_all add: erase_leaves)
    show ?thesis
      unfolding r using lr st full fsv lr_ord 1
      by (simp add: shape_ok_one kd_ordered_one live_values_one is_valid_def subtree_slots_one)
  next
    case 2
    with res lr have r: "vm' = vm" "sm' = (sm(left n 1 := Invalid))(n := Unsure)"
      by (simp_all add: erase_leaves)
    show ?thesis
      unfolding r using lr st full fsv ord 2
      by (simp add: shape_ok_one kd_ordered_one live_values_one is_valid_def subtree_slots_one)
  next
    case 3
    with res lr have r: "vm' = vm" "sm' = (sm(right n 1 := Invalid))(n := Unsure)"
      by (simp_all add: erase_leaves)
    show ?thesis
      unfolding r using lr st full fsv ord 3
      by (simp add: shape_ok_one kd_ordered_one live_values_one is_valid_def subtree_slots_one)
  qed
qed

lemma in_set_live_values:
  "x \<in> set (live_values vm sm off n)
     \<longleftrightarrow> (\<exists>a\<in>set (subtree_slots off n). is_valid sm a \<and> vm a = x)"
  by (auto simp: live_values_def)

lemma live_value_mem:
  "a \<in> set (subtree_slots off n) \<Longrightarrow> is_valid sm a \<Longrightarrow> vm a \<in> set (live_values vm sm off n)"
  by (auto simp: live_values_def)

lemma erase_when_full_correct:
  assumes sw: "strict_weak ix" and fs: "fs = Heads \<or> fs = Tails"
  shows "d < kth ix \<Longrightarrow> shape_ok fs sm (off_of (Suc h)) n \<Longrightarrow> sm n = fs
     \<Longrightarrow> kd_ordered ix vm sm d (off_of (Suc h)) n
     \<Longrightarrow> e \<in> set (subtree_slots (off_of (Suc h)) n)
     \<Longrightarrow> erase_when_full ix d (off_of (Suc h)) n e vm sm = (vm', sm')
     \<Longrightarrow> shape_ok fs sm' (off_of (Suc h)) n \<and> sm' n \<noteq> fs
         \<and> kd_ordered ix vm' sm' d (off_of (Suc h)) n
         \<and> add_mset (vm e) (mset (live_values vm' sm' (off_of (Suc h)) n))
             = mset (live_values vm sm (off_of (Suc h)) n)
         \<and> (\<forall>a. a \<notin> set (subtree_slots (off_of (Suc h)) n) \<longrightarrow> vm' a = vm a \<and> sm' a = sm a)"
proof (induction h arbitrary: d n e vm sm vm' sm')
  case 0
  show ?case
    unfolding off_of_Suc_0
    by (rule erase_one [OF sw fs "0.prems" [unfolded off_of_Suc_0]])
next
  case (Suc k)
  let ?o = "off_of (Suc (Suc k))" and ?co = "off_of (Suc k)"
  let ?l = "left n ?o" and ?r = "right n ?o" and ?cd = "inc_dim (kth ix) d"
  note d = Suc.prems(1) and sh = Suc.prems(2) and full = Suc.prems(3) and kd = Suc.prems(4)
    and e = Suc.prems(5) and res = Suc.prems(6)
  note shape_top = shape_ok_node [where h = "Suc k" and n = n]
  note kd_top = kd_node_values [where h = "Suc k" and n = n]
  note ms_top = mset_live_node [where h = "Suc k" and n = n]
  have gt: "1 < ?o" by (rule off_of_SS_gt1)
  have half: "?o sdiv 2 = ?co" by (rule off_of_half)
  have cd: "?cd < kth ix" using inc_dim_less sw_kth [OF sw] .
  from fs have fsv: "fs \<noteq> Invalid" "fs \<noteq> Unsure" by auto
  from sh have vn: "is_valid sm n" and shl: "shape_ok fs sm ?co ?l" and shr: "shape_ok fs sm ?co ?r"
    by (simp_all add: shape_top)
  from sh full have fl: "sm ?l = fs" and fr: "sm ?r = fs"
    by (simp_all add: shape_top)
  from kd vn have knr: "\<And>x. x \<in># mset (live_values vm sm ?co ?r) \<Longrightarrow> \<not> select_compare d x (vm n) ix"
    and knl: "\<And>x. x \<in># mset (live_values vm sm ?co ?l) \<Longrightarrow> \<not> select_compare d (vm n) x ix"
    and kl: "kd_ordered ix vm sm ?cd ?co ?l" and kr: "kd_ordered ix vm sm ?cd ?co ?r"
    by (simp_all add: kd_top)
  have nl: "n \<notin> set (subtree_slots ?co ?l)" by (rule node_not_left)
  have nr: "n \<notin> set (subtree_slots ?co ?r)" by (rule node_not_right)
  have lr: "\<And>a. a \<in> set (subtree_slots ?co ?l) \<Longrightarrow> a \<notin> set (subtree_slots ?co ?r)"
    by (rule left_right_disjoint)
  have rin: "?r \<in> set (subtree_slots ?co ?r)" and lin: "?l \<in> set (subtree_slots ?co ?l)"
    by (rule node_in_slots)+
  have slots: "\<And>a. a \<in> set (subtree_slots ?o n) \<longleftrightarrow>
      a \<in> set (subtree_slots ?co ?l) \<or> a = n \<or> a \<in> set (subtree_slots ?co ?r)"
    by (auto simp: subtree_slots_node)
  have allv: "\<And>a. a \<in> set (subtree_slots ?o n) \<Longrightarrow> is_valid sm a"
    using full_all [OF sh full] fsv by (simp add: is_valid_def)
  consider (self) "n = e" | (right) "n \<noteq> e" "n < e" | (left) "n \<noteq> e" "\<not> n < e" by blast
  then show ?case
  proof cases
    case self
    define t where "t = minimum ix vm sm d ?cd ?co ?r"
    define vm1 where "vm1 = vm(e := vm t)"
    have vr: "is_valid sm ?r" using fr fsv by (simp add: is_valid_def)
    have t_in: "t \<in> set (subtree_slots ?co ?r)" and t_valid: "is_valid sm t"
      and t_min: "\<And>a. a \<in> set (subtree_slots ?co ?r) \<Longrightarrow> is_valid sm a
                    \<Longrightarrow> \<not> select_compare d (vm a) (vm t) ix"
      unfolding t_def using minimum_correct [OF sw d shr kr vr] by blast+
    obtain vm2 sm2 where rec: "erase_when_full ix ?cd ?co ?r t vm1 sm = (vm2, sm2)"
      by (cases "erase_when_full ix ?cd ?co ?r t vm1 sm") auto
    from res have r: "vm' = vm2" "sm' = sm2(n := Unsure)"
      using rec self by (simp_all add: erase_step [OF gt] half t_def vm1_def Let_def)
    have ag1: "\<And>a. a \<in> set (subtree_slots ?co ?r) \<Longrightarrow> vm1 a = vm a \<and> sm a = sm a"
      using nr self by (auto simp: vm1_def)
    have kr1: "kd_ordered ix vm1 sm ?cd ?co ?r"
      using kd_ordered_cong [of "Suc k" ?r vm1 vm sm sm ix ?cd] ag1 kr by blast
    have lvr1: "live_values vm1 sm ?co ?r = live_values vm sm ?co ?r"
      by (rule live_values_cong) (use ag1 in blast)
    from Suc.IH [OF cd shr fr kr1 t_in rec]
    have sh2: "shape_ok fs sm2 ?co ?r" and nf2: "sm2 ?r \<noteq> fs"
      and kd2: "kd_ordered ix vm2 sm2 ?cd ?co ?r"
      and ms2: "add_mset (vm1 t) (mset (live_values vm2 sm2 ?co ?r))
                  = mset (live_values vm1 sm ?co ?r)"
      and fr2: "\<And>a. a \<notin> set (subtree_slots ?co ?r) \<Longrightarrow> vm2 a = vm1 a \<and> sm2 a = sm a"
      by blast+
    have tn: "t \<noteq> n" using t_in nr by blast
    have vt: "vm1 t = vm t" using tn self by (simp add: vm1_def)
    have agl: "\<And>a. a \<in> set (subtree_slots ?co ?l) \<Longrightarrow> vm' a = vm a \<and> sm' a = sm a"
      using fr2 lr nl self by (auto simp: r vm1_def)
    have agr: "\<And>a. a \<in> set (subtree_slots ?co ?r) \<Longrightarrow> vm' a = vm2 a \<and> sm' a = sm2 a"
      using nr by (auto simp: r)
    have node: "vm' n = vm t" "sm' n = Unsure"
      using fr2 [OF nr] self by (simp_all add: r vm1_def)
    have shl': "shape_ok fs sm' ?co ?l"
      using shape_ok_cong [of "Suc k" ?l sm' sm fs] agl shl by blast
    have shr': "shape_ok fs sm' ?co ?r"
      using shape_ok_cong [of "Suc k" ?r sm' sm2 fs] agr sh2 by blast
    have kl': "kd_ordered ix vm' sm' ?cd ?co ?l"
      using kd_ordered_cong [of "Suc k" ?l vm' vm sm' sm ix ?cd] agl kl by blast
    have kr': "kd_ordered ix vm' sm' ?cd ?co ?r"
      using kd_ordered_cong [of "Suc k" ?r vm' vm2 sm' sm2 ix ?cd] agr kd2 by blast
    have lvl': "live_values vm' sm' ?co ?l = live_values vm sm ?co ?l"
      by (rule live_values_cong) (use agl in blast)
    have lvr': "live_values vm' sm' ?co ?r = live_values vm2 sm2 ?co ?r"
      by (rule live_values_cong) (use agr in blast)
    have msr: "add_mset (vm t) (mset (live_values vm' sm' ?co ?r)) = mset (live_values vm sm ?co ?r)"
      using ms2 by (simp add: lvr' lvr1 vt)
    have "sm' ?r \<noteq> fs" using agr [OF rin] nf2 by simp
    then have shape: "shape_ok fs sm' ?o n" "sm' n \<noteq> fs"
      using shl' shr' node fsv by (simp_all add: shape_top is_valid_def)
    have t_old: "\<not> select_compare d (vm t) (vm n) ix"
      using knr [of "vm t"] live_value_mem [OF t_in t_valid, of vm] by simp
    have ord_r: "\<And>x. x \<in># mset (live_values vm' sm' ?co ?r) \<Longrightarrow> \<not> select_compare d x (vm t) ix"
    proof -
      fix x assume "x \<in># mset (live_values vm' sm' ?co ?r)"
      then have "x \<in># mset (live_values vm sm ?co ?r)"
        using msr by (metis insert_iff set_mset_add_mset_insert)
      then show "\<not> select_compare d x (vm t) ix"
        using t_min by (auto simp: in_set_live_values)
    qed
    have ord_l: "\<And>x. x \<in># mset (live_values vm' sm' ?co ?l) \<Longrightarrow> \<not> select_compare d (vm t) x ix"
      using knl sw_le_trans [OF sw d _ t_old] by (simp add: lvl')
    have kd': "kd_ordered ix vm' sm' d ?o n"
      using ord_r ord_l kl' kr' node by (simp add: kd_top)
    have "add_mset (vm n) (mset (live_values vm' sm' ?o n)) = mset (live_values vm sm ?o n)"
      using msr [symmetric] vn node
      by (simp add: ms_top lvl' is_valid_def)
    then have ms: "add_mset (vm e) (mset (live_values vm' sm' ?o n)) = mset (live_values vm sm ?o n)"
      using self by simp
    have frame: "\<forall>a. a \<notin> set (subtree_slots ?o n) \<longrightarrow> vm' a = vm a \<and> sm' a = sm a"
    proof (intro allI impI)
      fix a assume "a \<notin> set (subtree_slots ?o n)"
      then have a: "a \<notin> set (subtree_slots ?co ?r)" "a \<noteq> n" using slots by blast+
      from fr2 [OF a(1)] a(2) self show "vm' a = vm a \<and> sm' a = sm a"
        by (simp add: r vm1_def)
    qed
    from shape kd' ms frame show ?thesis by blast
  next
    case right
    have e_in: "e \<in> set (subtree_slots ?co ?r)"
      using e right left_slots_below [of e "Suc k" n] by (auto simp: slots)
    obtain vm2 sm2 where rec: "erase_when_full ix ?cd ?co ?r e vm sm = (vm2, sm2)"
      by (cases "erase_when_full ix ?cd ?co ?r e vm sm") auto
    from res have r: "vm' = vm2" "sm' = sm2(n := Unsure)"
      using rec right by (simp_all add: erase_step [OF gt] half Let_def)
    from Suc.IH [OF cd shr fr kr e_in rec]
    have sh2: "shape_ok fs sm2 ?co ?r" and nf2: "sm2 ?r \<noteq> fs"
      and kd2: "kd_ordered ix vm2 sm2 ?cd ?co ?r"
      and ms2: "add_mset (vm e) (mset (live_values vm2 sm2 ?co ?r))
                  = mset (live_values vm sm ?co ?r)"
      and fr2: "\<And>a. a \<notin> set (subtree_slots ?co ?r) \<Longrightarrow> vm2 a = vm a \<and> sm2 a = sm a"
      by blast+
    have agl: "\<And>a. a \<in> set (subtree_slots ?co ?l) \<Longrightarrow> vm' a = vm a \<and> sm' a = sm a"
      using fr2 lr nl by (auto simp: r)
    have agr: "\<And>a. a \<in> set (subtree_slots ?co ?r) \<Longrightarrow> vm' a = vm2 a \<and> sm' a = sm2 a"
      using nr by (auto simp: r)
    have node: "vm' n = vm n" "sm' n = Unsure"
      using fr2 [OF nr] by (simp_all add: r)
    have shl': "shape_ok fs sm' ?co ?l"
      using shape_ok_cong [of "Suc k" ?l sm' sm fs] agl shl by blast
    have shr': "shape_ok fs sm' ?co ?r"
      using shape_ok_cong [of "Suc k" ?r sm' sm2 fs] agr sh2 by blast
    have kl': "kd_ordered ix vm' sm' ?cd ?co ?l"
      using kd_ordered_cong [of "Suc k" ?l vm' vm sm' sm ix ?cd] agl kl by blast
    have kr': "kd_ordered ix vm' sm' ?cd ?co ?r"
      using kd_ordered_cong [of "Suc k" ?r vm' vm2 sm' sm2 ix ?cd] agr kd2 by blast
    have lvl': "live_values vm' sm' ?co ?l = live_values vm sm ?co ?l"
      by (rule live_values_cong) (use agl in blast)
    have lvr': "live_values vm' sm' ?co ?r = live_values vm2 sm2 ?co ?r"
      by (rule live_values_cong) (use agr in blast)
    have msr: "add_mset (vm e) (mset (live_values vm' sm' ?co ?r)) = mset (live_values vm sm ?co ?r)"
      using ms2 by (simp add: lvr')
    have "sm' ?r \<noteq> fs" using agr [OF rin] nf2 by simp
    then have shape: "shape_ok fs sm' ?o n" "sm' n \<noteq> fs"
      using shl' shr' node fsv by (simp_all add: shape_top is_valid_def)
    have ord_r: "\<And>x. x \<in># mset (live_values vm' sm' ?co ?r) \<Longrightarrow> \<not> select_compare d x (vm n) ix"
    proof -
      fix x assume "x \<in># mset (live_values vm' sm' ?co ?r)"
      then have "x \<in># mset (live_values vm sm ?co ?r)"
        using msr by (metis insert_iff set_mset_add_mset_insert)
      then show "\<not> select_compare d x (vm n) ix" by (rule knr)
    qed
    have kd': "kd_ordered ix vm' sm' d ?o n"
      using ord_r knl kl' kr' node by (simp add: kd_top lvl')
    have ms: "add_mset (vm e) (mset (live_values vm' sm' ?o n)) = mset (live_values vm sm ?o n)"
      using msr [symmetric] vn node
      by (simp add: ms_top lvl' is_valid_def)
    have frame: "\<forall>a. a \<notin> set (subtree_slots ?o n) \<longrightarrow> vm' a = vm a \<and> sm' a = sm a"
      using fr2 by (auto simp: slots r)
    from shape kd' ms frame show ?thesis by blast
  next
    case left
    have e_in: "e \<in> set (subtree_slots ?co ?l)"
      using e left right_slots_above [of e "Suc k" n] by (auto simp: slots)
    obtain vm2 sm2 where rec: "erase_when_full ix ?cd ?co ?l e vm sm = (vm2, sm2)"
      by (cases "erase_when_full ix ?cd ?co ?l e vm sm") auto
    from res have r: "vm' = vm2" "sm' = sm2(n := Unsure)"
      using rec left by (simp_all add: erase_step [OF gt] half Let_def)
    from Suc.IH [OF cd shl fl kl e_in rec]
    have sh2: "shape_ok fs sm2 ?co ?l" and nf2: "sm2 ?l \<noteq> fs"
      and kd2: "kd_ordered ix vm2 sm2 ?cd ?co ?l"
      and ms2: "add_mset (vm e) (mset (live_values vm2 sm2 ?co ?l))
                  = mset (live_values vm sm ?co ?l)"
      and fr2: "\<And>a. a \<notin> set (subtree_slots ?co ?l) \<Longrightarrow> vm2 a = vm a \<and> sm2 a = sm a"
      by blast+
    have agr: "\<And>a. a \<in> set (subtree_slots ?co ?r) \<Longrightarrow> vm' a = vm a \<and> sm' a = sm a"
      using fr2 lr nr by (auto simp: r)
    have agl: "\<And>a. a \<in> set (subtree_slots ?co ?l) \<Longrightarrow> vm' a = vm2 a \<and> sm' a = sm2 a"
      using nl by (auto simp: r)
    have node: "vm' n = vm n" "sm' n = Unsure"
      using fr2 [OF nl] by (simp_all add: r)
    have shr': "shape_ok fs sm' ?co ?r"
      using shape_ok_cong [of "Suc k" ?r sm' sm fs] agr shr by blast
    have shl': "shape_ok fs sm' ?co ?l"
      using shape_ok_cong [of "Suc k" ?l sm' sm2 fs] agl sh2 by blast
    have kr': "kd_ordered ix vm' sm' ?cd ?co ?r"
      using kd_ordered_cong [of "Suc k" ?r vm' vm sm' sm ix ?cd] agr kr by blast
    have kl': "kd_ordered ix vm' sm' ?cd ?co ?l"
      using kd_ordered_cong [of "Suc k" ?l vm' vm2 sm' sm2 ix ?cd] agl kd2 by blast
    have lvr': "live_values vm' sm' ?co ?r = live_values vm sm ?co ?r"
      by (rule live_values_cong) (use agr in blast)
    have lvl': "live_values vm' sm' ?co ?l = live_values vm2 sm2 ?co ?l"
      by (rule live_values_cong) (use agl in blast)
    have msl: "add_mset (vm e) (mset (live_values vm' sm' ?co ?l)) = mset (live_values vm sm ?co ?l)"
      using ms2 by (simp add: lvl')
    have "sm' ?l \<noteq> fs" using agl [OF lin] nf2 by simp
    then have shape: "shape_ok fs sm' ?o n" "sm' n \<noteq> fs"
      using shl' shr' node fsv by (simp_all add: shape_top is_valid_def)
    have ord_l: "\<And>x. x \<in># mset (live_values vm' sm' ?co ?l) \<Longrightarrow> \<not> select_compare d (vm n) x ix"
    proof -
      fix x assume "x \<in># mset (live_values vm' sm' ?co ?l)"
      then have "x \<in># mset (live_values vm sm ?co ?l)"
        using msl by (metis insert_iff set_mset_add_mset_insert)
      then show "\<not> select_compare d (vm n) x ix" by (rule knl)
    qed
    have kd': "kd_ordered ix vm' sm' d ?o n"
      using ord_l knr kl' kr' node by (simp add: kd_top lvr')
    have ms: "add_mset (vm e) (mset (live_values vm' sm' ?o n)) = mset (live_values vm sm ?o n)"
      using msl [symmetric] vn node
      by (simp add: ms_top lvr' is_valid_def)
    have frame: "\<forall>a. a \<notin> set (subtree_slots ?o n) \<longrightarrow> vm' a = vm a \<and> sm' a = sm a"
      using fr2 by (auto simp: slots r)
    from shape kd' ms frame show ?thesis by blast
  qed
qed

lemma place_at_nothrow: "nothrow vt defer \<Longrightarrow> place_at vt defer x vm = Inr (vm(x := cref defer vm))"
  by (cases "defer") simp_all

lemma cref_frame:
  "reads_outside defer S \<Longrightarrow> (\<And>a. a \<notin> S \<Longrightarrow> vm' a = vm a) \<Longrightarrow> cref defer vm' = cref defer vm"
  by (cases "defer") simp_all

lemma reads_outside_mono: "reads_outside defer S \<Longrightarrow> T \<subseteq> S \<Longrightarrow> reads_outside defer T"
  by (cases "defer") auto

lemma single_insert_one:
  "single_insert ix vt fs d 1 n defer vm sm = single_insert_leaves ix vt fs d n defer vm sm"
  by (subst single_insert.simps) simp

lemma insert_leaves_correct:
  assumes sw: "strict_weak ix" and fs: "fs = Heads \<or> fs = Tails" and d: "d < kth ix"
    and sh: "shape_ok fs sm 1 n" and nf: "sm n \<noteq> fs"
    and kd: "kd_ordered ix vm sm d 1 n"
    and nt: "nothrow vt defer" and out: "reads_outside defer (set (subtree_slots 1 n))"
  shows "\<exists>ins vm' sm'. single_insert_leaves ix vt fs d n defer vm sm = Placed ins vm' sm'
       \<and> shape_ok fs sm' 1 n \<and> kd_ordered ix vm' sm' d 1 n
       \<and> mset (live_values vm' sm' 1 n) = add_mset (cref defer vm) (mset (live_values vm sm 1 n))
       \<and> (\<forall>a. a \<notin> set (subtree_slots 1 n) \<longrightarrow> vm' a = vm a \<and> sm' a = sm a)
       \<and> ins \<in> set (subtree_slots 1 n) \<and> is_valid sm' ins \<and> vm' ins = cref defer vm"
proof -
  let ?l = "left n 1" and ?r = "right n 1" and ?v = "cref defer vm"
  note lr = left_right_one [of n] left_right_one [of n, symmetric]
  from fs have fsv: "fs \<noteq> Invalid" "fs \<noteq> Unsure" by auto
  from sh nf have vn: "sm n \<noteq> Invalid" and leaves: "sm ?l = Invalid \<or> sm ?l = fs"
      "sm ?r = Invalid \<or> sm ?r = fs" and notboth: "\<not> (sm ?l = fs \<and> sm ?r = fs)"
    by (auto simp: shape_ok_one is_valid_def)
  have pl: "\<And>x m. place_at vt defer x m = Inr (m(x := cref defer m))"
    using place_at_nothrow [OF nt] .
  have cr: "\<And>m. (\<And>a. a \<noteq> ?l \<Longrightarrow> a \<noteq> n \<Longrightarrow> a \<noteq> ?r \<Longrightarrow> m a = vm a) \<Longrightarrow> cref defer m = ?v"
    by (rule cref_frame [OF out]) (simp add: subtree_slots_one)
  have asym: "\<And>a b. select_compare d a b ix \<Longrightarrow> \<not> select_compare d b a ix"
    using sw_asym [OF sw d] .
  from kd vn have kdr: "sm ?r \<noteq> Invalid \<Longrightarrow> \<not> select_compare d (vm ?r) (vm n) ix"
    and kdl: "sm ?l \<noteq> Invalid \<Longrightarrow> \<not> select_compare d (vm n) (vm ?l) ix"
    by (simp_all add: kd_ordered_one is_valid_def)
  show ?thesis
  proof (cases "select_compare d ?v (vm n) ix")
    case less: True
    show ?thesis
    proof (cases "sm ?l = Invalid")
      case True
      then show ?thesis
        using less lr fsv vn leaves notboth kdr asym [OF less] nf
        by (auto simp: single_insert_leaves_def Let_def pl is_valid_def shape_ok_one
            kd_ordered_one live_values_one subtree_slots_one)
    next
      case False
      with leaves notboth have st: "sm ?l = fs" "sm ?r = Invalid" by auto
      have c1: "cref defer (vm(?r := vm n)) = ?v"
          "cref defer (vm(?r := vm n, n := vm ?l)) = ?v" by (rule cr, simp)+
      show ?thesis
      proof (cases "select_compare d ?v (vm ?l) ix")
        case True
        then show ?thesis
          using less lr fsv vn st kdl asym [OF True] c1
          by (simp add: single_insert_leaves_def Let_def pl is_valid_def shape_ok_one
              kd_ordered_one live_values_one subtree_slots_one)
      next
        case False
        then show ?thesis
          using less lr fsv vn st kdl asym [OF less] c1
          by (simp add: single_insert_leaves_def Let_def pl is_valid_def shape_ok_one
              kd_ordered_one live_values_one subtree_slots_one)
      qed
    qed
  next
    case nless: False
    show ?thesis
    proof (cases "sm ?r = Invalid")
      case True
      then show ?thesis
        using nless lr fsv vn leaves notboth kdl nf
        by (auto simp: single_insert_leaves_def Let_def pl is_valid_def shape_ok_one
            kd_ordered_one live_values_one subtree_slots_one)
    next
      case False
      with leaves notboth have st: "sm ?r = fs" "sm ?l = Invalid" by auto
      have c1: "cref defer (vm(?l := vm n)) = ?v"
          "cref defer (vm(?l := vm n, n := vm ?r)) = ?v" by (rule cr, simp)+
      show ?thesis
      proof (cases "select_compare d (vm ?r) ?v ix")
        case True
        then show ?thesis
          using nless lr fsv vn st kdr asym [OF True] c1
          by (simp add: single_insert_leaves_def Let_def pl is_valid_def shape_ok_one
              kd_ordered_one live_values_one subtree_slots_one)
      next
        case False
        then show ?thesis
          using nless lr fsv vn st kdr c1
          by (simp add: single_insert_leaves_def Let_def pl is_valid_def shape_ok_one
              kd_ordered_one live_values_one subtree_slots_one)
      qed
    qed
  qed
qed

lemma same_on_refl: "same_on S vm sm vm sm"
  by (simp add: same_on_def)

lemma same_on_subset: "same_on S vm' sm' vm sm \<Longrightarrow> T \<subseteq> S \<Longrightarrow> same_on T vm' sm' vm sm"
  by (auto simp: same_on_def)

lemma same_on_trans:
  "same_on S vm'' sm'' vm' sm' \<Longrightarrow> same_on S vm' sm' vm sm \<Longrightarrow> same_on S vm'' sm'' vm sm"
  by (simp add: same_on_def)

lemma same_on_sym: "same_on S vm' sm' vm sm \<Longrightarrow> same_on S vm sm vm' sm'"
  by (simp add: same_on_def)

lemma same_on_frame:
  "(\<forall>a. a \<notin> S \<longrightarrow> vm' a = vm a \<and> sm' a = sm a) \<Longrightarrow> T \<inter> S = {} \<Longrightarrow> same_on T vm' sm' vm sm"
  by (auto simp: same_on_def)

lemma same_on_upd_v: "x \<notin> S \<Longrightarrow> same_on S (vm(x := y)) sm vm sm"
  by (auto simp: same_on_def)

lemma same_on_upd_s: "x \<notin> S \<Longrightarrow> same_on S vm (sm(x := y)) vm sm"
  by (auto simp: same_on_def)

lemma same_on_D: "same_on S vm' sm' vm sm \<Longrightarrow> a \<in> S \<Longrightarrow> vm' a = vm a \<and> sm' a = sm a"
  by (simp add: same_on_def)

lemma shape_ok_same:
  "same_on (set (subtree_slots (off_of h) n)) vm' sm' vm sm
     \<Longrightarrow> shape_ok fs sm' (off_of h) n = shape_ok fs sm (off_of h) n"
  by (rule shape_ok_cong) (simp add: same_on_def)

lemma kd_ordered_same:
  "same_on (set (subtree_slots (off_of h) n)) vm' sm' vm sm
     \<Longrightarrow> kd_ordered ix vm' sm' d (off_of h) n = kd_ordered ix vm sm d (off_of h) n"
  by (rule kd_ordered_cong) (simp add: same_on_def)

lemma live_values_same:
  "same_on (set (subtree_slots off n)) vm' sm' vm sm
     \<Longrightarrow> live_values vm' sm' off n = live_values vm sm off n"
  by (rule live_values_cong) (simp add: same_on_def)

lemma cref_same:
  "reads_outside defer S \<Longrightarrow> same_on (- S) vm' sm' vm sm \<Longrightarrow> cref defer vm' = cref defer vm"
  by (rule cref_frame) (auto simp: same_on_def)

lemma state_plus_full:
  "fs = Heads \<or> fs = Tails \<Longrightarrow> (state_plus a b = fs) = (a = fs \<and> b = fs)"
  by (auto simp: state_plus_def)

lemma state_plus_valid: "a \<noteq> Invalid \<Longrightarrow> state_plus a b \<noteq> Invalid"
  by (auto simp: state_plus_def)

text \<open>The last step of an insertion above the leaves: the node's state is recomputed from
  its children's.\<close>

lemma assemble_node:
  assumes fs: "fs = Heads \<or> fs = Tails"
    and shl: "shape_ok fs sm (off_of (Suc k)) (left n (off_of (Suc (Suc k))))"
    and shr: "shape_ok fs sm (off_of (Suc k)) (right n (off_of (Suc (Suc k))))"
    and kl: "kd_ordered ix vm sm (inc_dim (kth ix) d) (off_of (Suc k)) (left n (off_of (Suc (Suc k))))"
    and kr: "kd_ordered ix vm sm (inc_dim (kth ix) d) (off_of (Suc k)) (right n (off_of (Suc (Suc k))))"
    and ordr: "\<And>x. x \<in> set (live_values vm sm (off_of (Suc k)) (right n (off_of (Suc (Suc k)))))
                \<Longrightarrow> \<not> select_compare d x (vm n) ix"
    and ordl: "\<And>x. x \<in> set (live_values vm sm (off_of (Suc k)) (left n (off_of (Suc (Suc k)))))
                \<Longrightarrow> \<not> select_compare d (vm n) x ix"
    and sm': "sm' = sm(n := state_plus (sm (left n (off_of (Suc (Suc k)))))
                                        (sm (right n (off_of (Suc (Suc k))))))"
  shows "shape_ok fs sm' (off_of (Suc (Suc k))) n"
    and "kd_ordered ix vm sm' d (off_of (Suc (Suc k))) n"
    and "mset (live_values vm sm' (off_of (Suc (Suc k))) n)
          = add_mset (vm n)
              (mset (live_values vm sm (off_of (Suc k)) (left n (off_of (Suc (Suc k)))))
               + mset (live_values vm sm (off_of (Suc k)) (right n (off_of (Suc (Suc k))))))"
proof -
  let ?o = "off_of (Suc (Suc k))" and ?co = "off_of (Suc k)"
  let ?l = "left n ?o" and ?r = "right n ?o"
  have sl: "same_on (set (subtree_slots ?co ?l)) vm sm' vm sm"
    unfolding sm' by (rule same_on_upd_s) (rule node_not_left)
  have sr: "same_on (set (subtree_slots ?co ?r)) vm sm' vm sm"
    unfolding sm' by (rule same_on_upd_s) (rule node_not_right)
  have vl: "sm ?l \<noteq> Invalid" using shape_ok_valid [OF shl] by (simp add: is_valid_def)
  have ln: "?l \<noteq> n" "?r \<noteq> n"
    using node_not_left [of n "Suc k"] node_not_right [of n "Suc k"]
      node_in_slots [of ?l "Suc k"] node_in_slots [of ?r "Suc k"] by auto
  have st: "sm' n = state_plus (sm ?l) (sm ?r)" "sm' ?l = sm ?l" "sm' ?r = sm ?r"
    using ln by (simp_all add: sm')
  have vn: "is_valid sm' n" using state_plus_valid [OF vl] by (simp add: st is_valid_def)
  show "shape_ok fs sm' ?o n"
    using vn shl shr state_plus_full [OF fs, of "sm ?l" "sm ?r"]
    by (simp add: shape_ok_node [where h = "Suc k" and n = n] st
        shape_ok_same [OF sl] shape_ok_same [OF sr])
  show "kd_ordered ix vm sm' d ?o n"
    using kl kr ordr ordl
    by (simp add: kd_ordered_node [where h = "Suc k" and n = n] list_all_iff
        kd_ordered_same [OF sl] kd_ordered_same [OF sr]
        live_values_same [OF sl] live_values_same [OF sr])
  show "mset (live_values vm sm' ?o n)
          = add_mset (vm n) (mset (live_values vm sm ?co ?l) + mset (live_values vm sm ?co ?r))"
    using vn
    by (simp add: mset_live_node [where h = "Suc k" and n = n]
        live_values_same [OF sl] live_values_same [OF sr])
qed

lemma slots_node_iff:
  "a \<in> set (subtree_slots (off_of (Suc h)) n) \<longleftrightarrow>
      a \<in> set (subtree_slots (off_of h) (left n (off_of (Suc h)))) \<or> a = n
      \<or> a \<in> set (subtree_slots (off_of h) (right n (off_of (Suc h))))"
  by (auto simp: subtree_slots_node)

lemma finish_node:
  assumes fs: "fs = Heads \<or> fs = Tails"
    and shl: "shape_ok fs smX (off_of (Suc k)) (left n (off_of (Suc (Suc k))))"
    and shr: "shape_ok fs smX (off_of (Suc k)) (right n (off_of (Suc (Suc k))))"
    and kl: "kd_ordered ix vmX smX (inc_dim (kth ix) d) (off_of (Suc k)) (left n (off_of (Suc (Suc k))))"
    and kr: "kd_ordered ix vmX smX (inc_dim (kth ix) d) (off_of (Suc k)) (right n (off_of (Suc (Suc k))))"
    and ordr: "\<And>x. x \<in> set (live_values vmX smX (off_of (Suc k)) (right n (off_of (Suc (Suc k)))))
                \<Longrightarrow> \<not> select_compare d x (vmX n) ix"
    and ordl: "\<And>x. x \<in> set (live_values vmX smX (off_of (Suc k)) (left n (off_of (Suc (Suc k)))))
                \<Longrightarrow> \<not> select_compare d (vmX n) x ix"
    and ms: "add_mset (vmX n)
               (mset (live_values vmX smX (off_of (Suc k)) (left n (off_of (Suc (Suc k)))))
                + mset (live_values vmX smX (off_of (Suc k)) (right n (off_of (Suc (Suc k))))))
             = add_mset v (mset (live_values vm sm (off_of (Suc (Suc k))) n))"
    and frame: "\<And>a. a \<notin> set (subtree_slots (off_of (Suc (Suc k))) n)
                  \<Longrightarrow> vmX a = vm a \<and> smX a = sm a"
    and ins: "ins \<in> set (subtree_slots (off_of (Suc (Suc k))) n)" "ins = n \<or> is_valid smX ins"
      "vmX ins = v"
    and smF: "smF = smX(n := state_plus (smX (left n (off_of (Suc (Suc k)))))
                                          (smX (right n (off_of (Suc (Suc k))))))"
  shows "inserted ix fs d (off_of (Suc (Suc k))) n v vm sm ins vmX smF"
proof -
  note a = assemble_node [OF fs shl shr kl kr ordr ordl smF]
  have nin: "n \<in> set (subtree_slots (off_of (Suc (Suc k))) n)" by (rule node_in_slots)
  have vn: "is_valid smF n" using shape_ok_valid [OF a(1)] .
  have fr: "\<forall>a. a \<notin> set (subtree_slots (off_of (Suc (Suc k))) n) \<longrightarrow> vmX a = vm a \<and> smF a = sm a"
    using frame nin by (auto simp: smF)
  have vi: "is_valid smF ins" using ins(2) vn by (auto simp: smF is_valid_def)
  show ?thesis
    unfolding inserted_def using a(1,2) a(3) ms fr ins(1,3) vi by simp
qed

lemma descend_left:
  assumes fs: "fs = Heads \<or> fs = Tails"
    and sh: "shape_ok fs sm (off_of (Suc (Suc k))) n"
    and kd: "kd_ordered ix vm sm d (off_of (Suc (Suc k))) n"
    and rec: "inserted ix fs (inc_dim (kth ix) d) (off_of (Suc k)) (left n (off_of (Suc (Suc k))))
                v vm sm ins vm1 sm1"
    and ord: "\<not> select_compare d (vm n) v ix"
    and smF: "smF = sm1(n := state_plus (sm1 (left n (off_of (Suc (Suc k)))))
                                          (sm1 (right n (off_of (Suc (Suc k))))))"
  shows "inserted ix fs d (off_of (Suc (Suc k))) n v vm sm ins vm1 smF"
proof -
  let ?o = "off_of (Suc (Suc k))" and ?co = "off_of (Suc k)"
  let ?l = "left n ?o" and ?r = "right n ?o" and ?cd = "inc_dim (kth ix) d"
  note shape_top = shape_ok_node [where h = "Suc k" and n = n]
  note kd_top = kd_ordered_node [where h = "Suc k" and n = n]
  note ms_top = mset_live_node [where h = "Suc k" and n = n]
  from rec have shl1: "shape_ok fs sm1 ?co ?l" and kl1: "kd_ordered ix vm1 sm1 ?cd ?co ?l"
    and ms1: "mset (live_values vm1 sm1 ?co ?l) = add_mset v (mset (live_values vm sm ?co ?l))"
    and fr1: "\<And>a. a \<notin> set (subtree_slots ?co ?l) \<Longrightarrow> vm1 a = vm a \<and> sm1 a = sm a"
    and ins1: "ins \<in> set (subtree_slots ?co ?l)" "is_valid sm1 ins" "vm1 ins = v"
    by (simp_all add: inserted_def)
  from sh have vn: "is_valid sm n" and shr: "shape_ok fs sm ?co ?r"
    by (simp_all add: shape_top)
  from kd vn have knr: "\<And>x. x \<in> set (live_values vm sm ?co ?r) \<Longrightarrow> \<not> select_compare d x (vm n) ix"
    and knl: "\<And>x. x \<in> set (live_values vm sm ?co ?l) \<Longrightarrow> \<not> select_compare d (vm n) x ix"
    and kr: "kd_ordered ix vm sm ?cd ?co ?r"
    by (simp_all add: kd_top list_all_iff)
  have sr: "same_on (set (subtree_slots ?co ?r)) vm1 sm1 vm sm"
    using fr1 left_right_disjoint [of _ "Suc k" n] by (auto simp: same_on_def)
  have n1: "vm1 n = vm n" using fr1 [OF node_not_left] by simp
  have setl: "set (live_values vm1 sm1 ?co ?l) = insert v (set (live_values vm sm ?co ?l))"
    using ms1 by (metis set_mset_add_mset_insert set_mset_mset)
  show ?thesis
  proof (rule finish_node [OF fs shl1 _ kl1 _ _ _ _ _ _ _ _ smF])
    show "shape_ok fs sm1 ?co ?r" using shr by (simp add: shape_ok_same [OF sr])
    show "kd_ordered ix vm1 sm1 ?cd ?co ?r" using kr by (simp add: kd_ordered_same [OF sr])
    show "\<And>x. x \<in> set (live_values vm1 sm1 ?co ?r) \<Longrightarrow> \<not> select_compare d x (vm1 n) ix"
      using knr by (simp add: live_values_same [OF sr] n1)
    show "\<And>x. x \<in> set (live_values vm1 sm1 ?co ?l) \<Longrightarrow> \<not> select_compare d (vm1 n) x ix"
      using knl ord by (auto simp: setl n1)
    show "add_mset (vm1 n) (mset (live_values vm1 sm1 ?co ?l) + mset (live_values vm1 sm1 ?co ?r))
             = add_mset v (mset (live_values vm sm ?o n))"
      using vn by (simp add: ms_top ms1 live_values_same [OF sr] n1)
    show "\<And>a. a \<notin> set (subtree_slots ?o n) \<Longrightarrow> vm1 a = vm a \<and> sm1 a = sm a"
      using fr1 by (simp add: slots_node_iff [where h = "Suc k"])
    show "ins \<in> set (subtree_slots ?o n)" using ins1(1) by (simp add: slots_node_iff [where h = "Suc k"])
    show "ins = n \<or> is_valid sm1 ins" using ins1(2) by simp
    show "vm1 ins = v" by (rule ins1(3))
  qed
qed

lemma descend_right:
  assumes fs: "fs = Heads \<or> fs = Tails"
    and sh: "shape_ok fs sm (off_of (Suc (Suc k))) n"
    and kd: "kd_ordered ix vm sm d (off_of (Suc (Suc k))) n"
    and rec: "inserted ix fs (inc_dim (kth ix) d) (off_of (Suc k)) (right n (off_of (Suc (Suc k))))
                v vm sm ins vm1 sm1"
    and ord: "\<not> select_compare d v (vm n) ix"
    and smF: "smF = sm1(n := state_plus (sm1 (left n (off_of (Suc (Suc k)))))
                                          (sm1 (right n (off_of (Suc (Suc k))))))"
  shows "inserted ix fs d (off_of (Suc (Suc k))) n v vm sm ins vm1 smF"
proof -
  let ?o = "off_of (Suc (Suc k))" and ?co = "off_of (Suc k)"
  let ?l = "left n ?o" and ?r = "right n ?o" and ?cd = "inc_dim (kth ix) d"
  note shape_top = shape_ok_node [where h = "Suc k" and n = n]
  note kd_top = kd_ordered_node [where h = "Suc k" and n = n]
  note ms_top = mset_live_node [where h = "Suc k" and n = n]
  from rec have shr1: "shape_ok fs sm1 ?co ?r" and kr1: "kd_ordered ix vm1 sm1 ?cd ?co ?r"
    and ms1: "mset (live_values vm1 sm1 ?co ?r) = add_mset v (mset (live_values vm sm ?co ?r))"
    and fr1: "\<And>a. a \<notin> set (subtree_slots ?co ?r) \<Longrightarrow> vm1 a = vm a \<and> sm1 a = sm a"
    and ins1: "ins \<in> set (subtree_slots ?co ?r)" "is_valid sm1 ins" "vm1 ins = v"
    by (simp_all add: inserted_def)
  from sh have vn: "is_valid sm n" and shl: "shape_ok fs sm ?co ?l"
    by (simp_all add: shape_top)
  from kd vn have knr: "\<And>x. x \<in> set (live_values vm sm ?co ?r) \<Longrightarrow> \<not> select_compare d x (vm n) ix"
    and knl: "\<And>x. x \<in> set (live_values vm sm ?co ?l) \<Longrightarrow> \<not> select_compare d (vm n) x ix"
    and kl: "kd_ordered ix vm sm ?cd ?co ?l"
    by (simp_all add: kd_top list_all_iff)
  have sl: "same_on (set (subtree_slots ?co ?l)) vm1 sm1 vm sm"
    using fr1 left_right_disjoint [of _ "Suc k" n] by (auto simp: same_on_def)
  have n1: "vm1 n = vm n" using fr1 [OF node_not_right] by simp
  have setr: "set (live_values vm1 sm1 ?co ?r) = insert v (set (live_values vm sm ?co ?r))"
    using ms1 by (metis set_mset_add_mset_insert set_mset_mset)
  show ?thesis
  proof (rule finish_node [OF fs _ shr1 _ kr1 _ _ _ _ _ _ _ smF])
    show "shape_ok fs sm1 ?co ?l" using shl by (simp add: shape_ok_same [OF sl])
    show "kd_ordered ix vm1 sm1 ?cd ?co ?l" using kl by (simp add: kd_ordered_same [OF sl])
    show "\<And>x. x \<in> set (live_values vm1 sm1 ?co ?l) \<Longrightarrow> \<not> select_compare d (vm1 n) x ix"
      using knl by (simp add: live_values_same [OF sl] n1)
    show "\<And>x. x \<in> set (live_values vm1 sm1 ?co ?r) \<Longrightarrow> \<not> select_compare d x (vm1 n) ix"
      using knr ord by (auto simp: setr n1)
    show "add_mset (vm1 n) (mset (live_values vm1 sm1 ?co ?l) + mset (live_values vm1 sm1 ?co ?r))
             = add_mset v (mset (live_values vm sm ?o n))"
      using vn by (simp add: ms_top ms1 live_values_same [OF sl] n1)
    show "\<And>a. a \<notin> set (subtree_slots ?o n) \<Longrightarrow> vm1 a = vm a \<and> sm1 a = sm a"
      using fr1 by (simp add: slots_node_iff [where h = "Suc k"])
    show "ins \<in> set (subtree_slots ?o n)" using ins1(1) by (simp add: slots_node_iff [where h = "Suc k"])
    show "ins = n \<or> is_valid sm1 ins" using ins1(2) by simp
    show "vm1 ins = v" by (rule ins1(3))
  qed
qed

lemma rotate_left:
  fixes dfr :: "'v deferred"
  assumes sw: "strict_weak ix" and fs: "fs = Heads \<or> fs = Tails" and d: "d < kth ix"
    and sh: "shape_ok fs sm (off_of (Suc (Suc k))) n" and nf: "sm n \<noteq> fs"
    and kd: "kd_ordered ix vm sm d (off_of (Suc (Suc k))) n"
    and nt: "nothrow vt dfr"
    and out: "reads_outside dfr (set (subtree_slots (off_of (Suc (Suc k))) n))"
    and less: "select_compare d (cref dfr vm) (vm n) ix"
    and full: "sm (left n (off_of (Suc (Suc k)))) = fs"
    and IH: "\<And>d n (dfr :: 'v deferred) vm sm. d < kth ix \<Longrightarrow> shape_ok fs sm (off_of (Suc k)) n
       \<Longrightarrow> sm n \<noteq> fs \<Longrightarrow> kd_ordered ix vm sm d (off_of (Suc k)) n \<Longrightarrow> nothrow vt dfr
       \<Longrightarrow> reads_outside dfr (set (subtree_slots (off_of (Suc k)) n))
       \<Longrightarrow> \<exists>ins vm' sm'. single_insert ix vt fs d (off_of (Suc k)) n dfr vm sm = Placed ins vm' sm'
             \<and> inserted ix fs d (off_of (Suc k)) n (cref dfr vm) vm sm ins vm' sm'"
  shows "\<exists>ins vm' sm'. single_insert ix vt fs d (off_of (Suc (Suc k))) n dfr vm sm = Placed ins vm' sm'
             \<and> inserted ix fs d (off_of (Suc (Suc k))) n (cref dfr vm) vm sm ins vm' sm'"
proof -
  let ?o = "off_of (Suc (Suc k))" and ?co = "off_of (Suc k)"
  let ?l = "left n ?o" and ?r = "right n ?o" and ?cd = "inc_dim (kth ix) d"
  let ?Ls = "set (subtree_slots ?co ?l)" and ?Rs = "set (subtree_slots ?co ?r)"
  let ?v = "cref dfr vm"
  note shape_top = shape_ok_node [where h = "Suc k" and n = n]
  note kd_top = kd_ordered_node [where h = "Suc k" and n = n]
  note ms_top = mset_live_node [where h = "Suc k" and n = n]
  note slots = slots_node_iff [where h = "Suc k" and n = n]
  have gt: "1 < ?o" by (rule off_of_SS_gt1)
  then have ne1: "?o \<noteq> 1" by simp
  have half: "?o sdiv 2 = ?co" by (rule off_of_half)
  have cd: "?cd < kth ix" using inc_dim_less sw_kth [OF sw] .
  from fs have fsv: "fs \<noteq> Invalid" "fs \<noteq> Unsure" by auto
  from sh have vn: "is_valid sm n" and shl: "shape_ok fs sm ?co ?l" and shr: "shape_ok fs sm ?co ?r"
    by (simp_all add: shape_top)
  from sh nf full have nfr: "sm ?r \<noteq> fs" by (simp add: shape_top)
  from kd vn have knr: "\<And>x. x \<in> set (live_values vm sm ?co ?r) \<Longrightarrow> \<not> select_compare d x (vm n) ix"
    and knl: "\<And>x. x \<in> set (live_values vm sm ?co ?l) \<Longrightarrow> \<not> select_compare d (vm n) x ix"
    and kl: "kd_ordered ix vm sm ?cd ?co ?l" and kr: "kd_ordered ix vm sm ?cd ?co ?r"
    by (simp_all add: kd_top list_all_iff)
  have nl: "n \<notin> ?Ls" by (rule node_not_left)
  have nr: "n \<notin> ?Rs" by (rule node_not_right)
  have lr: "\<And>a. a \<in> ?Ls \<Longrightarrow> a \<notin> ?Rs" by (rule left_right_disjoint)
  have outl: "reads_outside dfr ?Ls" and outr: "reads_outside dfr ?Rs"
    by (rule reads_outside_mono [OF out]; auto simp: slots)+
  \<comment> \<open>the node's value is pushed into the right subtree\<close>
  have nt1: "nothrow vt (Deferred_memcpy n :: 'v deferred)" by simp
  have out1: "reads_outside (Deferred_memcpy n :: 'v deferred) ?Rs" using nr by simp
  from IH [OF cd shr nfr kr nt1 out1] obtain p vm1 sm1 where
    rec1: "single_insert ix vt fs ?cd ?co ?r (Deferred_memcpy n) vm sm = Placed p vm1 sm1"
    and ins1: "inserted ix fs ?cd ?co ?r (vm n) vm sm p vm1 sm1"
    by auto
  from ins1 have shr1: "shape_ok fs sm1 ?co ?r" and kr1: "kd_ordered ix vm1 sm1 ?cd ?co ?r"
    and ms1: "mset (live_values vm1 sm1 ?co ?r) = add_mset (vm n) (mset (live_values vm sm ?co ?r))"
    and fr1: "\<And>a. a \<notin> ?Rs \<Longrightarrow> vm1 a = vm a \<and> sm1 a = sm a"
    by (simp_all add: inserted_def)
  have sl1: "same_on ?Ls vm1 sm1 vm sm" using fr1 lr by (auto simp: same_on_def)
  have n1: "vm1 n = vm n" "sm1 n = sm n" using fr1 [OF nr] by simp_all
  have c1: "cref dfr vm1 = ?v"
    by (rule cref_frame [OF out]) (use fr1 in \<open>simp add: slots\<close>)
  have shl1: "shape_ok fs sm1 ?co ?l" using shl by (simp add: shape_ok_same [OF sl1])
  have kl1: "kd_ordered ix vm1 sm1 ?cd ?co ?l" using kl by (simp add: kd_ordered_same [OF sl1])
  have lvl1: "live_values vm1 sm1 ?co ?l = live_values vm sm ?co ?l"
    by (rule live_values_same [OF sl1])
  have full1: "sm1 ?l = fs" using same_on_D [OF sl1 node_in_slots] full by simp
  have vl1: "is_valid sm1 ?l" using full1 fsv by (simp add: is_valid_def)
  have setr1: "set (live_values vm1 sm1 ?co ?r) = insert (vm n) (set (live_values vm sm ?co ?r))"
    using ms1 by (metis set_mset_add_mset_insert set_mset_mset)
  \<comment> \<open>the maximum of the left subtree along the node's dimension\<close>
  define t where "t = maximum ix vm1 sm1 d ?cd ?co ?l"
  have t_in: "t \<in> ?Ls" and t_valid: "is_valid sm1 t"
    and t_max: "\<And>a. a \<in> ?Ls \<Longrightarrow> is_valid sm1 a \<Longrightarrow> \<not> select_compare d (vm1 t) (vm1 a) ix"
    unfolding t_def using maximum_correct [OF sw d shl1 kl1 vl1] by blast+
  have t_max': "\<And>x. x \<in> set (live_values vm sm ?co ?l) \<Longrightarrow> \<not> select_compare d (vm1 t) x ix"
    using t_max unfolding lvl1 [symmetric] by (auto simp: in_set_live_values)
  have tn: "t \<noteq> n" using t_in nl by blast
  have t_le_n: "\<not> select_compare d (vm n) (vm1 t) ix"
    using knl [of "vm1 t"] live_value_mem [OF t_in t_valid, of vm1] by (simp add: lvl1)
  show ?thesis
  proof (cases "select_compare d ?v (vm1 t) ix")
    case False
    \<comment> \<open>the pending value becomes the node's value\<close>
    define vm2 where "vm2 = vm1(n := ?v)"
    define smF where "smF = sm1(n := state_plus (sm1 ?l) (sm1 ?r))"
    have res: "single_insert ix vt fs d ?o n dfr vm sm = Placed n vm2 smF"
      using gt ne1 less full False
      by (subst single_insert.simps)
        (simp add: Let_def half rec1 c1 t_def [symmetric] place_at_nothrow [OF nt] vm2_def smF_def)
    have sl2: "same_on ?Ls vm2 sm1 vm1 sm1" unfolding vm2_def by (rule same_on_upd_v [OF nl])
    have sr2: "same_on ?Rs vm2 sm1 vm1 sm1" unfolding vm2_def by (rule same_on_upd_v [OF nr])
    have n2: "vm2 n = ?v" by (simp add: vm2_def)
    have "inserted ix fs d ?o n ?v vm sm n vm2 smF"
    proof (rule finish_node [OF fs _ _ _ _ _ _ _ _ _ _ _ smF_def])
      show "shape_ok fs sm1 ?co ?l" by (rule shl1)
      show "shape_ok fs sm1 ?co ?r" by (rule shr1)
      show "kd_ordered ix vm2 sm1 ?cd ?co ?l" using kl1 by (simp add: kd_ordered_same [OF sl2])
      show "kd_ordered ix vm2 sm1 ?cd ?co ?r" using kr1 by (simp add: kd_ordered_same [OF sr2])
      show "\<not> select_compare d x (vm2 n) ix" if "x \<in> set (live_values vm2 sm1 ?co ?r)" for x
      proof -
        from that have "x = vm n \<or> x \<in> set (live_values vm sm ?co ?r)"
          by (simp add: live_values_same [OF sr2] setr1)
        then show ?thesis
          using sw_asym [OF sw d less] knr sw_trans [OF sw d _ less] by (auto simp: n2)
      qed
      show "\<not> select_compare d (vm2 n) x ix" if "x \<in> set (live_values vm2 sm1 ?co ?l)" for x
      proof -
        from that have "x \<in> set (live_values vm sm ?co ?l)"
          by (simp add: live_values_same [OF sl2] lvl1)
        from sw_le_trans [OF sw d t_max' [OF this] False] show ?thesis by (simp add: n2)
      qed
      show "add_mset (vm2 n) (mset (live_values vm2 sm1 ?co ?l) + mset (live_values vm2 sm1 ?co ?r))
             = add_mset ?v (mset (live_values vm sm ?o n))"
        using vn by (simp add: ms_top live_values_same [OF sl2] live_values_same [OF sr2] lvl1 ms1 n2)
      show "\<And>a. a \<notin> set (subtree_slots ?o n) \<Longrightarrow> vm2 a = vm a \<and> sm1 a = sm a"
        using fr1 by (simp add: slots vm2_def)
      show "n \<in> set (subtree_slots ?o n)" by (rule node_in_slots)
      show "n = n \<or> is_valid sm1 n" by simp
      show "vm2 n = ?v" by (rule n2)
    qed
    with res show ?thesis by blast
  next
    case True
    \<comment> \<open>the maximum becomes the node's value; the pending value goes to the left\<close>
    define vm2 where "vm2 = vm1(n := vm1 t)"
    obtain vm3 sm3 where er: "erase_when_full ix ?cd ?co ?l t vm2 sm1 = (vm3, sm3)"
      by (cases "erase_when_full ix ?cd ?co ?l t vm2 sm1") auto
    have sl2: "same_on ?Ls vm2 sm1 vm1 sm1" unfolding vm2_def by (rule same_on_upd_v [OF nl])
    have sr2: "same_on ?Rs vm2 sm1 vm1 sm1" unfolding vm2_def by (rule same_on_upd_v [OF nr])
    have kl2: "kd_ordered ix vm2 sm1 ?cd ?co ?l" using kl1 by (simp add: kd_ordered_same [OF sl2])
    from erase_when_full_correct [OF sw fs cd shl1 full1 kl2 t_in er]
    have shl3: "shape_ok fs sm3 ?co ?l" and nf3: "sm3 ?l \<noteq> fs"
      and kl3: "kd_ordered ix vm3 sm3 ?cd ?co ?l"
      and ms3: "add_mset (vm2 t) (mset (live_values vm3 sm3 ?co ?l))
                  = mset (live_values vm2 sm1 ?co ?l)"
      and fr3: "\<And>a. a \<notin> ?Ls \<Longrightarrow> vm3 a = vm2 a \<and> sm3 a = sm1 a"
      by blast+
    from IH [OF cd shl3 nf3 kl3 nt outl] obtain ins vm4 sm4 where
      rec2: "single_insert ix vt fs ?cd ?co ?l dfr vm3 sm3 = Placed ins vm4 sm4"
      and ins2: "inserted ix fs ?cd ?co ?l (cref dfr vm3) vm3 sm3 ins vm4 sm4"
      by auto
    have c3: "cref dfr vm3 = ?v"
      by (rule cref_frame [OF out]) (use fr3 fr1 in \<open>simp add: slots vm2_def\<close>)
    from ins2 have shl4: "shape_ok fs sm4 ?co ?l" and kl4: "kd_ordered ix vm4 sm4 ?cd ?co ?l"
      and ms4: "mset (live_values vm4 sm4 ?co ?l) = add_mset ?v (mset (live_values vm3 sm3 ?co ?l))"
      and fr4: "\<And>a. a \<notin> ?Ls \<Longrightarrow> vm4 a = vm3 a \<and> sm4 a = sm3 a"
      and ins4: "ins \<in> ?Ls" "is_valid sm4 ins" "vm4 ins = ?v"
      by (simp_all add: inserted_def c3)
    define smF where "smF = sm4(n := state_plus (sm4 ?l) (sm4 ?r))"
    have res: "single_insert ix vt fs d ?o n dfr vm sm = Placed ins vm4 smF"
      using gt ne1 less full True
      by (subst single_insert.simps)
        (simp add: Let_def half rec1 c1 t_def [symmetric] vm2_def [symmetric] er rec2 smF_def)
    have sr4: "same_on ?Rs vm4 sm4 vm1 sm1"
      unfolding same_on_def
    proof
      fix a assume "a \<in> ?Rs"
      then have "a \<notin> ?Ls" "a \<noteq> n" using lr nr by blast+
      with fr4 [of a] fr3 [of a] show "vm4 a = vm1 a \<and> sm4 a = sm1 a"
        by (simp add: vm2_def)
    qed
    have n4: "vm4 n = vm1 t" using fr4 [OF nl] fr3 [OF nl] by (simp add: vm2_def)
    have t2: "vm2 t = vm1 t" using tn by (simp add: vm2_def)
    have ms3': "add_mset (vm1 t) (mset (live_values vm3 sm3 ?co ?l)) = mset (live_values vm sm ?co ?l)"
      using ms3 by (simp add: t2 live_values_same [OF sl2] lvl1)
    have sub3: "\<And>x. x \<in> set (live_values vm3 sm3 ?co ?l) \<Longrightarrow> x \<in> set (live_values vm sm ?co ?l)"
      using ms3' by (metis insert_iff set_mset_add_mset_insert set_mset_mset)
    have setl4: "set (live_values vm4 sm4 ?co ?l) = insert ?v (set (live_values vm3 sm3 ?co ?l))"
      using ms4 by (metis set_mset_add_mset_insert set_mset_mset)
    have "inserted ix fs d ?o n ?v vm sm ins vm4 smF"
    proof (rule finish_node [OF fs _ _ _ _ _ _ _ _ _ _ _ smF_def])
      show "shape_ok fs sm4 ?co ?l" by (rule shl4)
      show "shape_ok fs sm4 ?co ?r" using shr1 by (simp add: shape_ok_same [OF sr4])
      show "kd_ordered ix vm4 sm4 ?cd ?co ?l" by (rule kl4)
      show "kd_ordered ix vm4 sm4 ?cd ?co ?r" using kr1 by (simp add: kd_ordered_same [OF sr4])
      show "\<not> select_compare d x (vm4 n) ix" if "x \<in> set (live_values vm4 sm4 ?co ?r)" for x
      proof -
        from that have "x = vm n \<or> x \<in> set (live_values vm sm ?co ?r)"
          by (simp add: live_values_same [OF sr4] setr1)
        then show ?thesis
          using t_le_n knr sw_le_trans [OF sw d t_le_n] by (auto simp: n4)
      qed
      show "\<not> select_compare d (vm4 n) x ix" if "x \<in> set (live_values vm4 sm4 ?co ?l)" for x
      proof -
        from that have "x = ?v \<or> x \<in> set (live_values vm sm ?co ?l)"
          using sub3 by (auto simp: setl4)
        then show ?thesis
          using sw_asym [OF sw d True] t_max' by (auto simp: n4)
      qed
      show "add_mset (vm4 n) (mset (live_values vm4 sm4 ?co ?l) + mset (live_values vm4 sm4 ?co ?r))
             = add_mset ?v (mset (live_values vm sm ?o n))"
        using vn ms3' [symmetric]
        by (simp add: ms_top live_values_same [OF sr4] ms1 ms4 n4)
      show "\<And>a. a \<notin> set (subtree_slots ?o n) \<Longrightarrow> vm4 a = vm a \<and> sm4 a = sm a"
        using fr4 fr3 fr1 by (simp add: slots vm2_def)
      show "ins \<in> set (subtree_slots ?o n)" using ins4(1) by (simp add: slots)
      show "ins = n \<or> is_valid sm4 ins" using ins4(2) by simp
      show "vm4 ins = ?v" by (rule ins4(3))
    qed
    with res show ?thesis by blast
  qed
qed

lemma rotate_right:
  fixes dfr :: "'v deferred"
  assumes sw: "strict_weak ix" and fs: "fs = Heads \<or> fs = Tails" and d: "d < kth ix"
    and sh: "shape_ok fs sm (off_of (Suc (Suc k))) n" and nf: "sm n \<noteq> fs"
    and kd: "kd_ordered ix vm sm d (off_of (Suc (Suc k))) n"
    and nt: "nothrow vt dfr"
    and out: "reads_outside dfr (set (subtree_slots (off_of (Suc (Suc k))) n))"
    and nless: "\<not> select_compare d (cref dfr vm) (vm n) ix"
    and greater: "select_compare d (vm n) (cref dfr vm) ix"
    and full: "sm (right n (off_of (Suc (Suc k)))) = fs"
    and IH: "\<And>d n (dfr :: 'v deferred) vm sm. d < kth ix \<Longrightarrow> shape_ok fs sm (off_of (Suc k)) n
       \<Longrightarrow> sm n \<noteq> fs \<Longrightarrow> kd_ordered ix vm sm d (off_of (Suc k)) n \<Longrightarrow> nothrow vt dfr
       \<Longrightarrow> reads_outside dfr (set (subtree_slots (off_of (Suc k)) n))
       \<Longrightarrow> \<exists>ins vm' sm'. single_insert ix vt fs d (off_of (Suc k)) n dfr vm sm = Placed ins vm' sm'
             \<and> inserted ix fs d (off_of (Suc k)) n (cref dfr vm) vm sm ins vm' sm'"
  shows "\<exists>ins vm' sm'. single_insert ix vt fs d (off_of (Suc (Suc k))) n dfr vm sm = Placed ins vm' sm'
             \<and> inserted ix fs d (off_of (Suc (Suc k))) n (cref dfr vm) vm sm ins vm' sm'"
proof -
  let ?o = "off_of (Suc (Suc k))" and ?co = "off_of (Suc k)"
  let ?l = "left n ?o" and ?r = "right n ?o" and ?cd = "inc_dim (kth ix) d"
  let ?Ls = "set (subtree_slots ?co ?l)" and ?Rs = "set (subtree_slots ?co ?r)"
  let ?v = "cref dfr vm"
  note shape_top = shape_ok_node [where h = "Suc k" and n = n]
  note kd_top = kd_ordered_node [where h = "Suc k" and n = n]
  note ms_top = mset_live_node [where h = "Suc k" and n = n]
  note slots = slots_node_iff [where h = "Suc k" and n = n]
  have gt: "1 < ?o" by (rule off_of_SS_gt1)
  then have ne1: "?o \<noteq> 1" by simp
  have half: "?o sdiv 2 = ?co" by (rule off_of_half)
  have cd: "?cd < kth ix" using inc_dim_less sw_kth [OF sw] .
  from fs have fsv: "fs \<noteq> Invalid" "fs \<noteq> Unsure" by auto
  from sh have vn: "is_valid sm n" and shl: "shape_ok fs sm ?co ?l" and shr: "shape_ok fs sm ?co ?r"
    by (simp_all add: shape_top)
  from sh nf full have nfl: "sm ?l \<noteq> fs" by (simp add: shape_top)
  from kd vn have knr: "\<And>x. x \<in> set (live_values vm sm ?co ?r) \<Longrightarrow> \<not> select_compare d x (vm n) ix"
    and knl: "\<And>x. x \<in> set (live_values vm sm ?co ?l) \<Longrightarrow> \<not> select_compare d (vm n) x ix"
    and kl: "kd_ordered ix vm sm ?cd ?co ?l" and kr: "kd_ordered ix vm sm ?cd ?co ?r"
    by (simp_all add: kd_top list_all_iff)
  have nl: "n \<notin> ?Ls" by (rule node_not_left)
  have nr: "n \<notin> ?Rs" by (rule node_not_right)
  have lr: "\<And>a. a \<in> ?Ls \<Longrightarrow> a \<notin> ?Rs" by (rule left_right_disjoint)
  have outl: "reads_outside dfr ?Ls" and outr: "reads_outside dfr ?Rs"
    by (rule reads_outside_mono [OF out]; auto simp: slots)+
  \<comment> \<open>the node's value is pushed into the left subtree\<close>
  have nt1: "nothrow vt (Deferred_memcpy n :: 'v deferred)" by simp
  have out1: "reads_outside (Deferred_memcpy n :: 'v deferred) ?Ls" using nl by simp
  from IH [OF cd shl nfl kl nt1 out1] obtain p vm1 sm1 where
    rec1: "single_insert ix vt fs ?cd ?co ?l (Deferred_memcpy n) vm sm = Placed p vm1 sm1"
    and ins1: "inserted ix fs ?cd ?co ?l (vm n) vm sm p vm1 sm1"
    by auto
  from ins1 have shl1: "shape_ok fs sm1 ?co ?l" and kl1: "kd_ordered ix vm1 sm1 ?cd ?co ?l"
    and ms1: "mset (live_values vm1 sm1 ?co ?l) = add_mset (vm n) (mset (live_values vm sm ?co ?l))"
    and fr1: "\<And>a. a \<notin> ?Ls \<Longrightarrow> vm1 a = vm a \<and> sm1 a = sm a"
    by (simp_all add: inserted_def)
  have sr1: "same_on ?Rs vm1 sm1 vm sm" using fr1 lr by (auto simp: same_on_def)
  have n1: "vm1 n = vm n" "sm1 n = sm n" using fr1 [OF nl] by simp_all
  have c1: "cref dfr vm1 = ?v"
    by (rule cref_frame [OF out]) (use fr1 in \<open>simp add: slots\<close>)
  have shr1: "shape_ok fs sm1 ?co ?r" using shr by (simp add: shape_ok_same [OF sr1])
  have kr1: "kd_ordered ix vm1 sm1 ?cd ?co ?r" using kr by (simp add: kd_ordered_same [OF sr1])
  have lvr1: "live_values vm1 sm1 ?co ?r = live_values vm sm ?co ?r"
    by (rule live_values_same [OF sr1])
  have full1: "sm1 ?r = fs" using same_on_D [OF sr1 node_in_slots] full by simp
  have vr1: "is_valid sm1 ?r" using full1 fsv by (simp add: is_valid_def)
  have setl1: "set (live_values vm1 sm1 ?co ?l) = insert (vm n) (set (live_values vm sm ?co ?l))"
    using ms1 by (metis set_mset_add_mset_insert set_mset_mset)
  \<comment> \<open>the minimum of the right subtree along the node's dimension\<close>
  define t where "t = minimum ix vm1 sm1 d ?cd ?co ?r"
  have t_in: "t \<in> ?Rs" and t_valid: "is_valid sm1 t"
    and t_min: "\<And>a. a \<in> ?Rs \<Longrightarrow> is_valid sm1 a \<Longrightarrow> \<not> select_compare d (vm1 a) (vm1 t) ix"
    unfolding t_def using minimum_correct [OF sw d shr1 kr1 vr1] by blast+
  have t_min': "\<And>x. x \<in> set (live_values vm sm ?co ?r) \<Longrightarrow> \<not> select_compare d x (vm1 t) ix"
    using t_min unfolding lvr1 [symmetric] by (auto simp: in_set_live_values)
  have tn: "t \<noteq> n" using t_in nr by blast
  have n_le_t: "\<not> select_compare d (vm1 t) (vm n) ix"
    using knr [of "vm1 t"] live_value_mem [OF t_in t_valid, of vm1] by (simp add: lvr1)
  show ?thesis
  proof (cases "select_compare d (vm1 t) ?v ix")
    case False
    \<comment> \<open>the pending value becomes the node's value\<close>
    define vm2 where "vm2 = vm1(n := ?v)"
    define smF where "smF = sm1(n := state_plus (sm1 ?l) (sm1 ?r))"
    have res: "single_insert ix vt fs d ?o n dfr vm sm = Placed n vm2 smF"
      using gt ne1 nless greater full False
      by (subst single_insert.simps)
        (simp add: Let_def half rec1 c1 t_def [symmetric] place_at_nothrow [OF nt] vm2_def smF_def)
    have sl2: "same_on ?Ls vm2 sm1 vm1 sm1" unfolding vm2_def by (rule same_on_upd_v [OF nl])
    have sr2: "same_on ?Rs vm2 sm1 vm1 sm1" unfolding vm2_def by (rule same_on_upd_v [OF nr])
    have n2: "vm2 n = ?v" by (simp add: vm2_def)
    have "inserted ix fs d ?o n ?v vm sm n vm2 smF"
    proof (rule finish_node [OF fs _ _ _ _ _ _ _ _ _ _ _ smF_def])
      show "shape_ok fs sm1 ?co ?l" by (rule shl1)
      show "shape_ok fs sm1 ?co ?r" by (rule shr1)
      show "kd_ordered ix vm2 sm1 ?cd ?co ?l" using kl1 by (simp add: kd_ordered_same [OF sl2])
      show "kd_ordered ix vm2 sm1 ?cd ?co ?r" using kr1 by (simp add: kd_ordered_same [OF sr2])
      show "\<not> select_compare d (vm2 n) x ix" if "x \<in> set (live_values vm2 sm1 ?co ?l)" for x
      proof -
        from that have "x = vm n \<or> x \<in> set (live_values vm sm ?co ?l)"
          by (simp add: live_values_same [OF sl2] setl1)
        then show ?thesis
          using nless knl sw_trans [OF sw d greater] by (auto simp: n2)
      qed
      show "\<not> select_compare d x (vm2 n) ix" if "x \<in> set (live_values vm2 sm1 ?co ?r)" for x
      proof -
        from that have "x \<in> set (live_values vm sm ?co ?r)"
          by (simp add: live_values_same [OF sr2] lvr1)
        from sw_le_trans [OF sw d False t_min' [OF this]] show ?thesis by (simp add: n2)
      qed
      show "add_mset (vm2 n) (mset (live_values vm2 sm1 ?co ?l) + mset (live_values vm2 sm1 ?co ?r))
             = add_mset ?v (mset (live_values vm sm ?o n))"
        using vn by (simp add: ms_top live_values_same [OF sl2] live_values_same [OF sr2] lvr1 ms1 n2)
      show "\<And>a. a \<notin> set (subtree_slots ?o n) \<Longrightarrow> vm2 a = vm a \<and> sm1 a = sm a"
        using fr1 by (simp add: slots vm2_def)
      show "n \<in> set (subtree_slots ?o n)" by (rule node_in_slots)
      show "n = n \<or> is_valid sm1 n" by simp
      show "vm2 n = ?v" by (rule n2)
    qed
    with res show ?thesis by blast
  next
    case True
    \<comment> \<open>the minimum becomes the node's value; the pending value goes to the right\<close>
    define vm2 where "vm2 = vm1(n := vm1 t)"
    obtain vm3 sm3 where er: "erase_when_full ix ?cd ?co ?r t vm2 sm1 = (vm3, sm3)"
      by (cases "erase_when_full ix ?cd ?co ?r t vm2 sm1") auto
    have sl2: "same_on ?Ls vm2 sm1 vm1 sm1" unfolding vm2_def by (rule same_on_upd_v [OF nl])
    have sr2: "same_on ?Rs vm2 sm1 vm1 sm1" unfolding vm2_def by (rule same_on_upd_v [OF nr])
    have kr2: "kd_ordered ix vm2 sm1 ?cd ?co ?r" using kr1 by (simp add: kd_ordered_same [OF sr2])
    from erase_when_full_correct [OF sw fs cd shr1 full1 kr2 t_in er]
    have shr3: "shape_ok fs sm3 ?co ?r" and nf3: "sm3 ?r \<noteq> fs"
      and kr3: "kd_ordered ix vm3 sm3 ?cd ?co ?r"
      and ms3: "add_mset (vm2 t) (mset (live_values vm3 sm3 ?co ?r))
                  = mset (live_values vm2 sm1 ?co ?r)"
      and fr3: "\<And>a. a \<notin> ?Rs \<Longrightarrow> vm3 a = vm2 a \<and> sm3 a = sm1 a"
      by blast+
    from IH [OF cd shr3 nf3 kr3 nt outr] obtain ins vm4 sm4 where
      rec2: "single_insert ix vt fs ?cd ?co ?r dfr vm3 sm3 = Placed ins vm4 sm4"
      and ins2: "inserted ix fs ?cd ?co ?r (cref dfr vm3) vm3 sm3 ins vm4 sm4"
      by auto
    have c3: "cref dfr vm3 = ?v"
      by (rule cref_frame [OF out]) (use fr3 fr1 in \<open>simp add: slots vm2_def\<close>)
    from ins2 have shr4: "shape_ok fs sm4 ?co ?r" and kr4: "kd_ordered ix vm4 sm4 ?cd ?co ?r"
      and ms4: "mset (live_values vm4 sm4 ?co ?r) = add_mset ?v (mset (live_values vm3 sm3 ?co ?r))"
      and fr4: "\<And>a. a \<notin> ?Rs \<Longrightarrow> vm4 a = vm3 a \<and> sm4 a = sm3 a"
      and ins4: "ins \<in> ?Rs" "is_valid sm4 ins" "vm4 ins = ?v"
      by (simp_all add: inserted_def c3)
    define smF where "smF = sm4(n := state_plus (sm4 ?l) (sm4 ?r))"
    have res: "single_insert ix vt fs d ?o n dfr vm sm = Placed ins vm4 smF"
      using gt ne1 nless greater full True
      by (subst single_insert.simps)
        (simp add: Let_def half rec1 c1 t_def [symmetric] vm2_def [symmetric] er rec2 smF_def)
    have sl4: "same_on ?Ls vm4 sm4 vm1 sm1"
      unfolding same_on_def
    proof
      fix a assume "a \<in> ?Ls"
      then have "a \<notin> ?Rs" "a \<noteq> n" using lr nl by blast+
      with fr4 [of a] fr3 [of a] show "vm4 a = vm1 a \<and> sm4 a = sm1 a"
        by (simp add: vm2_def)
    qed
    have n4: "vm4 n = vm1 t" using fr4 [OF nr] fr3 [OF nr] by (simp add: vm2_def)
    have t2: "vm2 t = vm1 t" using tn by (simp add: vm2_def)
    have ms3': "add_mset (vm1 t) (mset (live_values vm3 sm3 ?co ?r)) = mset (live_values vm sm ?co ?r)"
      using ms3 by (simp add: t2 live_values_same [OF sr2] lvr1)
    have sub3: "\<And>x. x \<in> set (live_values vm3 sm3 ?co ?r) \<Longrightarrow> x \<in> set (live_values vm sm ?co ?r)"
      using ms3' by (metis insert_iff set_mset_add_mset_insert set_mset_mset)
    have setr4: "set (live_values vm4 sm4 ?co ?r) = insert ?v (set (live_values vm3 sm3 ?co ?r))"
      using ms4 by (metis set_mset_add_mset_insert set_mset_mset)
    have "inserted ix fs d ?o n ?v vm sm ins vm4 smF"
    proof (rule finish_node [OF fs _ _ _ _ _ _ _ _ _ _ _ smF_def])
      show "shape_ok fs sm4 ?co ?r" by (rule shr4)
      show "shape_ok fs sm4 ?co ?l" using shl1 by (simp add: shape_ok_same [OF sl4])
      show "kd_ordered ix vm4 sm4 ?cd ?co ?r" by (rule kr4)
      show "kd_ordered ix vm4 sm4 ?cd ?co ?l" using kl1 by (simp add: kd_ordered_same [OF sl4])
      show "\<not> select_compare d (vm4 n) x ix" if "x \<in> set (live_values vm4 sm4 ?co ?l)" for x
      proof -
        from that have "x = vm n \<or> x \<in> set (live_values vm sm ?co ?l)"
          by (simp add: live_values_same [OF sl4] setl1)
        then show ?thesis
          using n_le_t knl sw_le_trans [OF sw d _ n_le_t] by (auto simp: n4)
      qed
      show "\<not> select_compare d x (vm4 n) ix" if "x \<in> set (live_values vm4 sm4 ?co ?r)" for x
      proof -
        from that have "x = ?v \<or> x \<in> set (live_values vm sm ?co ?r)"
          using sub3 by (auto simp: setr4)
        then show ?thesis
          using sw_asym [OF sw d True] t_min' by (auto simp: n4)
      qed
      show "add_mset (vm4 n) (mset (live_values vm4 sm4 ?co ?l) + mset (live_values vm4 sm4 ?co ?r))
             = add_mset ?v (mset (live_values vm sm ?o n))"
        using vn ms3' [symmetric]
        by (simp add: ms_top live_values_same [OF sl4] ms1 ms4 n4)
      show "\<And>a. a \<notin> set (subtree_slots ?o n) \<Longrightarrow> vm4 a = vm a \<and> sm4 a = sm a"
        using fr4 fr3 fr1 by (simp add: slots vm2_def)
      show "ins \<in> set (subtree_slots ?o n)" using ins4(1) by (simp add: slots)
      show "ins = n \<or> is_valid sm4 ins" using ins4(2) by simp
      show "vm4 ins = ?v" by (rule ins4(3))
    qed
    with res show ?thesis by blast
  qed
qed

lemma insert_leaves_inserted:
  assumes "strict_weak ix" "fs = Heads \<or> fs = Tails" "d < kth ix"
    "shape_ok fs sm 1 n" "sm n \<noteq> fs" "kd_ordered ix vm sm d 1 n"
    "nothrow vt dfr" "reads_outside dfr (set (subtree_slots 1 n))"
  shows "\<exists>ins vm' sm'. single_insert ix vt fs d 1 n dfr vm sm = Placed ins vm' sm'
       \<and> inserted ix fs d 1 n (cref dfr vm) vm sm ins vm' sm'"
  using insert_leaves_correct [OF assms]
  unfolding inserted_def single_insert_one by blast

theorem single_insert_correct:
  fixes dfr :: "'v deferred"
  assumes sw: "strict_weak ix" and fs: "fs = Heads \<or> fs = Tails"
  shows "d < kth ix \<Longrightarrow> shape_ok fs sm (off_of (Suc h)) n \<Longrightarrow> sm n \<noteq> fs
     \<Longrightarrow> kd_ordered ix vm sm d (off_of (Suc h)) n \<Longrightarrow> nothrow vt dfr
     \<Longrightarrow> reads_outside dfr (set (subtree_slots (off_of (Suc h)) n))
     \<Longrightarrow> \<exists>ins vm' sm'. single_insert ix vt fs d (off_of (Suc h)) n dfr vm sm = Placed ins vm' sm'
           \<and> inserted ix fs d (off_of (Suc h)) n (cref dfr vm) vm sm ins vm' sm'"
proof (induction h arbitrary: d n dfr vm sm)
  case 0
  show ?case
    unfolding off_of_Suc_0
    by (rule insert_leaves_inserted [OF sw fs "0.prems" [unfolded off_of_Suc_0]])
next
  case (Suc k)
  let ?o = "off_of (Suc (Suc k))" and ?co = "off_of (Suc k)"
  let ?l = "left n ?o" and ?r = "right n ?o" and ?cd = "inc_dim (kth ix) d"
  let ?v = "cref dfr vm"
  note d = Suc.prems(1) and sh = Suc.prems(2) and nf = Suc.prems(3) and kd = Suc.prems(4)
    and nt = Suc.prems(5) and out = Suc.prems(6)
  note shape_top = shape_ok_node [where h = "Suc k" and n = n]
  note kd_top = kd_ordered_node [where h = "Suc k" and n = n]
  note slots = slots_node_iff [where h = "Suc k" and n = n]
  have gt: "1 < ?o" by (rule off_of_SS_gt1)
  then have ne1: "?o \<noteq> 1" by simp
  have half: "?o sdiv 2 = ?co" by (rule off_of_half)
  have cd: "?cd < kth ix" using inc_dim_less sw_kth [OF sw] .
  from sh have shl: "shape_ok fs sm ?co ?l" and shr: "shape_ok fs sm ?co ?r"
    by (simp_all add: shape_top)
  from sh nf have notboth: "\<not> (sm ?l = fs \<and> sm ?r = fs)" by (simp add: shape_top)
  from kd have kl: "kd_ordered ix vm sm ?cd ?co ?l" and kr: "kd_ordered ix vm sm ?cd ?co ?r"
    by (simp_all add: kd_top)
  have outl: "reads_outside dfr (set (subtree_slots ?co ?l))"
    and outr: "reads_outside dfr (set (subtree_slots ?co ?r))"
    by (rule reads_outside_mono [OF out]; auto simp: slots)+
  consider (rot_l) "select_compare d ?v (vm n) ix" "sm ?l = fs"
    | (desc_l) "select_compare d ?v (vm n) ix" "sm ?l \<noteq> fs"
    | (rot_r) "\<not> select_compare d ?v (vm n) ix" "select_compare d (vm n) ?v ix" "sm ?r = fs"
    | (desc_r) "\<not> select_compare d ?v (vm n) ix" "select_compare d (vm n) ?v ix" "sm ?r \<noteq> fs"
    | (eq_r) "\<not> select_compare d ?v (vm n) ix" "\<not> select_compare d (vm n) ?v ix" "sm ?l = fs"
    | (eq_l) "\<not> select_compare d ?v (vm n) ix" "\<not> select_compare d (vm n) ?v ix" "sm ?l \<noteq> fs"
    by blast
  then show ?case
  proof cases
    case rot_l
    show ?thesis
      by (rule rotate_left [OF sw fs d sh nf kd nt out rot_l Suc.IH])
  next
    case rot_r
    show ?thesis
      by (rule rotate_right [OF sw fs d sh nf kd nt out rot_r Suc.IH])
  next
    case desc_l
    from Suc.IH [OF cd shl desc_l(2) kl nt outl] obtain ins vm1 sm1 where
      rec: "single_insert ix vt fs ?cd ?co ?l dfr vm sm = Placed ins vm1 sm1"
      and ins: "inserted ix fs ?cd ?co ?l ?v vm sm ins vm1 sm1" by auto
    define smF where "smF = sm1(n := state_plus (sm1 ?l) (sm1 ?r))"
    have res: "single_insert ix vt fs d ?o n dfr vm sm = Placed ins vm1 smF"
      using gt ne1 desc_l
      by (subst single_insert.simps) (simp add: Let_def half rec smF_def)
    have "inserted ix fs d ?o n ?v vm sm ins vm1 smF"
      by (rule descend_left [OF fs sh kd ins sw_asym [OF sw d desc_l(1)] smF_def])
    with res show ?thesis by blast
  next
    case eq_l
    from Suc.IH [OF cd shl eq_l(3) kl nt outl] obtain ins vm1 sm1 where
      rec: "single_insert ix vt fs ?cd ?co ?l dfr vm sm = Placed ins vm1 sm1"
      and ins: "inserted ix fs ?cd ?co ?l ?v vm sm ins vm1 sm1" by auto
    define smF where "smF = sm1(n := state_plus (sm1 ?l) (sm1 ?r))"
    have res: "single_insert ix vt fs d ?o n dfr vm sm = Placed ins vm1 smF"
      using gt ne1 eq_l
      by (subst single_insert.simps) (simp add: Let_def half rec smF_def)
    have "inserted ix fs d ?o n ?v vm sm ins vm1 smF"
      by (rule descend_left [OF fs sh kd ins eq_l(2) smF_def])
    with res show ?thesis by blast
  next
    case desc_r
    from Suc.IH [OF cd shr desc_r(3) kr nt outr] obtain ins vm1 sm1 where
      rec: "single_insert ix vt fs ?cd ?co ?r dfr vm sm = Placed ins vm1 sm1"
      and ins: "inserted ix fs ?cd ?co ?r ?v vm sm ins vm1 sm1" by auto
    define smF where "smF = sm1(n := state_plus (sm1 ?l) (sm1 ?r))"
    have res: "single_insert ix vt fs d ?o n dfr vm sm = Placed ins vm1 smF"
      using gt ne1 desc_r
      by (subst single_insert.simps) (simp add: Let_def half rec smF_def)
    have "inserted ix fs d ?o n ?v vm sm ins vm1 smF"
      by (rule descend_right [OF fs sh kd ins desc_r(1) smF_def])
    with res show ?thesis by blast
  next
    case eq_r
    from notboth eq_r(3) have nfr: "sm ?r \<noteq> fs" by simp
    from Suc.IH [OF cd shr nfr kr nt outr] obtain ins vm1 sm1 where
      rec: "single_insert ix vt fs ?cd ?co ?r dfr vm sm = Placed ins vm1 sm1"
      and ins: "inserted ix fs ?cd ?co ?r ?v vm sm ins vm1 sm1" by auto
    define smF where "smF = sm1(n := state_plus (sm1 ?l) (sm1 ?r))"
    have res: "single_insert ix vt fs d ?o n dfr vm sm = Placed ins vm1 smF"
      using gt ne1 eq_r
      by (subst single_insert.simps) (simp add: Let_def half rec smF_def)
    have "inserted ix fs d ?o n ?v vm sm ins vm1 smF"
      by (rule descend_right [OF fs sh kd ins eq_r(1) smF_def])
    with res show ?thesis by blast
  qed
qed

subsection \<open>The fixtures are strict weak orderings\<close>

lemma strict_weak_pod: "strict_weak pod_index"
  by (auto simp: strict_weak_def pod_index_def select_compare_def)

lemma all_ones_3: "all_ones 3"
  by (subst all_ones.simps, simp)+

lemma two_of_three_inv: "kdtree_inv two_of_three"
  by (simp add: kdtree_inv_def two_of_three_def all_ones_3 root_offset_def root_def
      signed_divide_int_def shape_ok_one kd_ordered_one is_valid_def left_def right_def
      live_count_def subtree_slots_one select_compare_def pod_index_def)

lemma two_of_three_prepare: "prepare_insert al two_of_three = Returned () two_of_three"
  by (simp add: prepare_insert_def two_of_three_def)

lemma ftz_3: "ftz 3 = 3"
  by (simp add: ftz_def)

lemma two_of_three_reached:
  "Option.bind (kdtree_sized (Some 0) 3 pod_index (\<lambda>a. 0) (\<lambda>a. Invalid))
     (insert_all nothrow_traits (\<lambda>c. None) [5, 3]) = Some two_of_three"
proof -
  let ?c0 = "\<lparr> impl_index = pod_index, impl_values = (\<lambda>a. 0::int), impl_states = (\<lambda>a. Invalid),
       impl_start = 0, impl_finish = 0, impl_capacity = 3, impl_count = 0,
       impl_full_state = Heads \<rparr>"
  let ?c1 = "\<lparr> impl_index = pod_index, impl_values = (\<lambda>a. 0::int)(0 := 5),
       impl_states = (\<lambda>a. Invalid)(0 := Heads),
       impl_start = 0, impl_finish = 1, impl_capacity = 3, impl_count = 1,
       impl_full_state = Heads \<rparr>"
  have a: "kdtree_sized (Some 0) 3 pod_index (\<lambda>a. 0) (\<lambda>a. Invalid) = Some ?c0"
    by (simp add: kdtree_sized_def alloc_storage_def kdtree_members_def ftz_3)
  have b: "kdtree_insert nothrow_traits None 5 ?c0 = Returned 0 ?c1"
    unfolding kdtree_insert_def insert_deferred_def prepare_insert_def
    by (subst single_insert.simps)
       (simp add: root_offset_def root_def signed_divide_int_def nothrow_traits_def)
  have e: "expand 0 ?c1 = Some (?c1\<lparr> impl_values := (\<lambda>a. 0::int)(0 := 5, 1 := 5),
      impl_states := (\<lambda>a. Invalid)(1 := Heads), impl_finish := 3 \<rparr>)"
    unfolding expand_def
    apply (simp add: Let_def)
    apply (subst expand_loop.simps, simp add: Let_def)
    apply (subst expand_loop.simps, simp add: Let_def)
    apply (auto simp: fun_eq_iff)
    done
  have c: "kdtree_insert nothrow_traits None 3 ?c1 = Returned 0 two_of_three"
    unfolding kdtree_insert_def insert_deferred_def prepare_insert_def
    apply (simp add: e)
    apply (subst single_insert.simps)
    apply (simp add: root_offset_def root_def signed_divide_int_def nothrow_traits_def
        single_insert_leaves_def select_compare_def pod_index_def left_def right_def
        is_valid_def two_of_three_def fun_eq_iff)
    done
  show ?thesis by (simp add: a b c)
qed

lemma bump_alloc_ok: "alloc_ok c (bump_alloc c)"
proof -
  have "(2::int) ^ 63 = 2 * 2 ^ 62" by simp
  then show ?thesis by (simp add: alloc_ok_def bump_alloc_def)
qed

section \<open>A constructor that throws\<close>

lemma place_at_throws: "\<not> nothrow vt dfr \<Longrightarrow> place_at vt dfr x vm \<noteq> Inr vm'"
  by (cases dfr) simp_all

lemma single_insert_never_placed:
  "\<not> nothrow vt dfr \<Longrightarrow> single_insert ix vt fs d offset n dfr vm sm \<noteq> Placed ins vm' sm'"
proof (induction "nat offset" arbitrary: offset d n vm sm ins vm' sm' rule: less_induct)
  case less
  consider "offset = 1" | "1 < offset" | "offset < 1" by linarith
  then show ?case
  proof cases
    case 1
    then show ?thesis
      using less.prems
      by (subst single_insert.simps)
         (simp add: single_insert_leaves_def place_at_throws Let_def split: sum.splits)
  next
    case 2
    have IH: "\<And>d n vm sm ins vm' sm'.
        single_insert ix vt fs d (offset sdiv 2) n dfr vm sm \<noteq> Placed ins vm' sm'"
      using less.hyps [OF sdiv2_less [OF 2] less.prems] .
    show ?thesis
      using 2 less.prems
      by (subst single_insert.simps)
         (auto simp: Let_def place_at_throws IH split: placement.splits prod.splits sum.splits)
  next
    case 3
    then show ?thesis
      using less.prems
      by (subst single_insert.simps) (simp add: place_at_throws split: sum.splits)
  qed
qed

lemma single_insert_throws:
  "\<not> nothrow vt dfr \<Longrightarrow> \<exists>vm' sm'. single_insert ix vt fs d offset n dfr vm sm = Thrown vm' sm'"
  using single_insert_never_placed [of vt dfr ix fs d offset n vm sm]
  by (cases "single_insert ix vt fs d offset n dfr vm sm") auto

lemma prepare_insert_count:
  "prepare_insert al c = Returned u c1 \<Longrightarrow> impl_count c1 = impl_count c"
  by (auto simp: prepare_insert_def alloc_storage_def expand_alloc_def expand_def Let_def
      split: if_splits option.splits outcome.splits prod.splits)

lemma insert_deferred_throws:
  assumes "\<not> nothrow vt dfr" and "prepare_insert al c = Returned () c1"
  shows "\<exists>vm sm. insert_deferred vt al dfr c
      = Raised (c1\<lparr> impl_count := impl_count c + 1, impl_values := vm, impl_states := sm \<rparr>)"
proof -
  let ?c2 = "c1\<lparr> impl_count := impl_count c1 + 1 \<rparr>"
  let ?dist = "impl_finish ?c2 - impl_start ?c2"
  obtain vm sm where
    "single_insert (impl_index ?c2) vt (impl_full_state ?c2) 0 (root_offset ?dist)
       (root (impl_start ?c2) ?dist) dfr (impl_values ?c2) (impl_states ?c2) = Thrown vm sm"
    using single_insert_throws [OF assms(1)] by blast
  then have "insert_deferred vt al dfr c
      = Raised (c1\<lparr> impl_count := impl_count c + 1, impl_values := vm, impl_states := sm \<rparr>)"
    using assms(2) prepare_insert_count [OF assms(2)]
    by (simp add: insert_deferred_def Let_def)
  then show ?thesis by blast
qed

section \<open>Spans, roots and heights\<close>

lemma all_ones_0: "all_ones 0"
  by (subst all_ones.simps) simp

lemma all_ones_double: "0 \<le> n \<Longrightarrow> all_ones (2 * n + 1) = all_ones n"
  by (subst all_ones.simps) simp

lemma all_ones_pow: "all_ones (2 ^ k - 1)"
proof (induction k)
  case 0
  then show ?case by (simp add: all_ones_0)
next
  case (Suc k)
  have "(2::int) ^ Suc k - 1 = 2 * (2 ^ k - 1) + 1" by simp
  moreover have "(0::int) \<le> 2 ^ k - 1" by simp
  ultimately show ?case using Suc all_ones_double by metis
qed

lemma all_ones_form: "all_ones n \<Longrightarrow> \<exists>k. n = 2 ^ k - 1"
proof (induction "nat n" arbitrary: n rule: less_induct)
  case less
  show ?case
  proof (cases "n \<le> 0")
    case True
    with less.prems have "n = 0" by (subst (asm) all_ones.simps) simp
    then have "n = 2 ^ 0 - 1" by simp
    then show ?thesis by blast
  next
    case False
    with less.prems have o: "odd n" and a: "all_ones (n div 2)"
      by (subst (asm) all_ones.simps, simp)+
    from False have "nat (n div 2) < nat n" by simp
    from less.hyps [OF this a] obtain k where k: "n div 2 = 2 ^ k - 1" by blast
    from o have "n = 2 * (n div 2) + 1" by presburger
    with k have "n = 2 ^ Suc k - 1" by simp
    then show ?thesis by blast
  qed
qed

lemma all_ones_pos_form: "all_ones n \<Longrightarrow> n \<noteq> 0 \<Longrightarrow> \<exists>h. n = 2 ^ Suc h - 1"
proof -
  assume "all_ones n" and nz: "n \<noteq> 0"
  then obtain k where k: "n = 2 ^ k - 1" using all_ones_form by blast
  with nz obtain h where "k = Suc h" by (cases k) auto
  with k show ?thesis by blast
qed

lemma root_offset_pow: "root_offset (2 ^ Suc h - 1) = off_of h"
proof (cases h)
  case 0
  then show ?thesis by (simp add: root_offset_def off_of.simps signed_divide_int_def)
next
  case (Suc k)
  have "(2::int) ^ Suc (Suc k) = 4 * 2 ^ k" by simp
  then show ?thesis using Suc by (simp add: root_offset_def off_of.simps sdiv_nonneg)
qed

lemma root_pow: "root st (2 ^ Suc h - 1) = st + 2 ^ h - 1"
proof -
  have "((2::int) ^ Suc h - 1) div 2 = 2 ^ h - 1" by simp
  then show ?thesis by (simp add: root_def sdiv_nonneg)
qed

lemma length_subtree_slots: "length (subtree_slots (off_of h) n) = 2 ^ Suc h - 1"
proof (induction h arbitrary: n)
  case 0
  then show ?case by (simp add: subtree_slots_leaf)
next
  case (Suc h)
  have "(1::nat) \<le> 2 ^ Suc h" by simp
  then show ?case by (simp add: subtree_slots_node Suc)
qed

lemma root_slots:
  "set (subtree_slots (off_of h) (st + 2 ^ h - 1)) = {st ..< st + (2 ^ Suc h - 1)}"
  by (auto simp: set_subtree_slots)

lemma filter_all_length: "length (filter P xs) = length xs \<Longrightarrow> x \<in> set xs \<Longrightarrow> P x"
proof (induction xs)
  case Nil
  then show ?case by simp
next
  case (Cons a xs)
  have le: "length (filter P xs) \<le> length xs" by simp
  show ?case
  proof (cases "P a")
    case True
    with Cons show ?thesis by auto
  next
    case False
    with Cons.prems le show ?thesis by simp
  qed
qed

lemma live_count_full:
  "live_count sm (off_of h) n = 2 ^ Suc h - 1 \<Longrightarrow> a \<in> set (subtree_slots (off_of h) n)
     \<Longrightarrow> is_valid sm a"
  unfolding live_count_def
  using filter_all_length [of "is_valid sm" "subtree_slots (off_of h) n" a]
  by (simp add: length_subtree_slots)

lemma all_valid_full:
  "shape_ok fs sm (off_of h) n \<Longrightarrow> (\<And>a. a \<in> set (subtree_slots (off_of h) n) \<Longrightarrow> is_valid sm a)
     \<Longrightarrow> sm n = fs"
proof (induction h arbitrary: n)
  case 0
  from "0.prems"(2) [of n] have "is_valid sm n" by (simp add: subtree_slots_leaf)
  with "0.prems"(1) show ?case by (simp add: shape_ok_leaf is_valid_def)
next
  case (Suc h)
  from Suc.prems(1) have
    eq: "(sm n = fs) = (sm (left n (off_of (Suc h))) = fs \<and> sm (right n (off_of (Suc h))) = fs)"
    and l: "shape_ok fs sm (off_of h) (left n (off_of (Suc h)))"
    and r: "shape_ok fs sm (off_of h) (right n (off_of (Suc h)))"
    by (simp_all add: shape_ok_node [where h = h and n = n])
  have "sm (left n (off_of (Suc h))) = fs"
    by (rule Suc.IH [OF l]) (rule Suc.prems(2), simp add: subtree_slots_node [where h = h and n = n])
  moreover have "sm (right n (off_of (Suc h))) = fs"
    by (rule Suc.IH [OF r]) (rule Suc.prems(2), simp add: subtree_slots_node [where h = h and n = n])
  ultimately show ?case using eq by simp
qed

lemma full_live_count:
  assumes "shape_ok fs sm (off_of h) n" and "sm n = fs" and "fs \<noteq> Invalid"
  shows "live_count sm (off_of h) n = 2 ^ Suc h - 1"
proof -
  have "\<And>a. a \<in> set (subtree_slots (off_of h) n) \<Longrightarrow> is_valid sm a"
    using full_all [OF assms(1,2)] assms(3) by (simp add: is_valid_def)
  then have "filter (is_valid sm) (subtree_slots (off_of h) n) = subtree_slots (off_of h) n"
    by (simp add: filter_id_conv)
  then show ?thesis by (simp add: live_count_def length_subtree_slots)
qed

lemma live_height_leaf: "live_height sm (off_of 0) n = (if is_valid sm n then 1 else 0)"
  by (subst live_height.simps) (simp add: off_of.simps)

lemma live_height_node:
  "live_height sm (off_of (Suc h)) n =
     (if \<not> is_valid sm n then 0
      else 1 + max (live_height sm (off_of h) (left n (off_of (Suc h))))
                   (live_height sm (off_of h) (right n (off_of (Suc h)))))"
  by (subst live_height.simps) (simp add: off_of_half off_of_Suc_ge1)

lemma balanced_leaf: "balanced sm (off_of 0) n"
  by (subst balanced.simps) (simp add: off_of.simps)

lemma balanced_node:
  "balanced sm (off_of (Suc h)) n =
    ((is_valid sm n \<longrightarrow>
        live_height sm (off_of h) (left n (off_of (Suc h)))
          \<le> live_height sm (off_of h) (right n (off_of (Suc h))) + 1
        \<and> live_height sm (off_of h) (right n (off_of (Suc h)))
          \<le> live_height sm (off_of h) (left n (off_of (Suc h))) + 1)
     \<and> balanced sm (off_of h) (left n (off_of (Suc h)))
     \<and> balanced sm (off_of h) (right n (off_of (Suc h))))"
  by (subst balanced.simps) (simp add: off_of_half off_of_Suc_ge1)

lemma shape_ok_height:
  "shape_ok fs sm (off_of h) n \<Longrightarrow>
     h \<le> live_height sm (off_of h) n \<and> live_height sm (off_of h) n \<le> Suc h"
proof (induction h arbitrary: n)
  case 0
  then show ?case by (simp add: live_height_leaf)
next
  case (Suc h)
  from Suc.prems have v: "is_valid sm n"
    and l: "shape_ok fs sm (off_of h) (left n (off_of (Suc h)))"
    and r: "shape_ok fs sm (off_of h) (right n (off_of (Suc h)))"
    by (simp_all add: shape_ok_node [where h = h and n = n])
  from Suc.IH [OF l] Suc.IH [OF r] v show ?case
    unfolding live_height_node [where h = h and n = n] by (simp add: max_def)
qed

lemma shape_ok_balanced: "shape_ok fs sm (off_of h) n \<Longrightarrow> balanced sm (off_of h) n"
proof (induction h arbitrary: n)
  case 0
  then show ?case by (simp add: balanced_leaf)
next
  case (Suc h)
  from Suc.prems have
    l: "shape_ok fs sm (off_of h) (left n (off_of (Suc h)))"
    and r: "shape_ok fs sm (off_of h) (right n (off_of (Suc h)))"
    by (simp_all add: shape_ok_node [where h = h and n = n])
  from shape_ok_height [OF l] shape_ok_height [OF r] Suc.IH [OF l] Suc.IH [OF r]
  show ?case by (simp add: balanced_node [where h = h and n = n])
qed

section \<open>Doubling the span\<close>

lemma expand_loop_run:
  fixes vm :: "'v vmem"
  assumes "\<And>i k. i < k \<Longrightarrow> k < j \<Longrightarrow>
      first + 2 * int k + 1 \<noteq> st + int i \<and> first + 2 * int k \<noteq> st + int i"
  shows "\<exists>vm' sm'. expand_loop first (first + 2 * int j) (st + int j) vm sm = Some (vm', sm')
      \<and> (\<forall>i<j. vm' (first + 2 * int i + 1) = vm (st + int i)
              \<and> sm' (first + 2 * int i + 1) = sm (st + int i)
              \<and> sm' (first + 2 * int i) = Invalid)
      \<and> (\<forall>a. a < first \<or> first + 2 * int j \<le> a \<longrightarrow> vm' a = vm a \<and> sm' a = sm a)"
  using assms
proof (induction j arbitrary: vm sm)
  case 0
  show ?case by (subst expand_loop.simps) simp
next
  case (Suc j)
  let ?l1 = "first + 2 * int j + 1"
  let ?l2 = "first + 2 * int j"
  let ?s1 = "st + int j"
  let ?sm1 = "sm(?l1 := sm ?s1)"
  let ?vm1 = "vm(?l1 := vm ?s1)"
  let ?sm2 = "?sm1(?l2 := Invalid)"
  have step: "expand_loop first (first + 2 * int (Suc j)) (st + int (Suc j)) vm sm
      = expand_loop first ?l2 ?s1 ?vm1 ?sm2"
    by (subst expand_loop.simps) (simp add: Let_def algebra_simps)
  have cl: "\<And>i k. i < k \<Longrightarrow> k < j \<Longrightarrow>
      first + 2 * int k + 1 \<noteq> st + int i \<and> first + 2 * int k \<noteq> st + int i"
    using Suc.prems by simp
  from Suc.IH [OF cl, of ?vm1 ?sm2] obtain vm' sm' where
    run: "expand_loop first ?l2 ?s1 ?vm1 ?sm2 = Some (vm', sm')"
    and mv: "\<And>i. i < j \<Longrightarrow> vm' (first + 2 * int i + 1) = ?vm1 (st + int i)
              \<and> sm' (first + 2 * int i + 1) = ?sm2 (st + int i)
              \<and> sm' (first + 2 * int i) = Invalid"
    and fr: "\<And>a. a < first \<or> ?l2 \<le> a \<Longrightarrow> vm' a = ?vm1 a \<and> sm' a = ?sm2 a"
    by blast
  have src: "\<And>i. i < j \<Longrightarrow> st + int i \<noteq> ?l1 \<and> st + int i \<noteq> ?l2"
  proof -
    fix i assume "i < j"
    from Suc.prems [OF this lessI] show "st + int i \<noteq> ?l1 \<and> st + int i \<noteq> ?l2"
      by auto
  qed
  have a: "\<forall>i<Suc j. vm' (first + 2 * int i + 1) = vm (st + int i)
              \<and> sm' (first + 2 * int i + 1) = sm (st + int i)
              \<and> sm' (first + 2 * int i) = Invalid"
  proof (intro allI impI)
    fix i assume "i < Suc j"
    then consider "i < j" | "i = j" by linarith
    then show "vm' (first + 2 * int i + 1) = vm (st + int i)
              \<and> sm' (first + 2 * int i + 1) = sm (st + int i)
              \<and> sm' (first + 2 * int i) = Invalid"
    proof cases
      case 1
      from mv [OF 1] src [OF 1] show ?thesis by simp
    next
      case 2
      from fr [of ?l1] fr [of ?l2] show ?thesis unfolding 2 by simp
    qed
  qed
  have b: "\<forall>a. a < first \<or> first + 2 * int (Suc j) \<le> a \<longrightarrow> vm' a = vm a \<and> sm' a = sm a"
  proof (intro allI impI)
    fix a assume h: "a < first \<or> first + 2 * int (Suc j) \<le> a"
    then have "a < first \<or> ?l2 \<le> a" and "a \<noteq> ?l1" and "a \<noteq> ?l2" by auto
    with fr [of a] show "vm' a = vm a \<and> sm' a = sm a" by simp
  qed
  show ?case unfolding step using run a b by blast
qed

lemma expand_correct:
  fixes c :: "'v kdtree"
  assumes d: "dist = impl_finish c - impl_start c" and nn: "0 \<le> dist"
    and place: "vp = impl_start c \<or> vp + 2 * dist + 1 \<le> impl_start c
                  \<or> impl_start c + dist \<le> vp"
  shows "\<exists>vm' sm'. expand vp c
           = Some (c\<lparr> impl_values := vm', impl_states := sm', impl_finish := vp + 2 * dist + 1 \<rparr>)
      \<and> (\<forall>i. 0 \<le> i \<and> i < dist \<longrightarrow>
             vm' (vp + 2 * i + 1) = impl_values c (impl_start c + i)
             \<and> sm' (vp + 2 * i + 1) = impl_states c (impl_start c + i))
      \<and> (\<forall>i. 0 \<le> i \<and> i \<le> dist \<longrightarrow> sm' (vp + 2 * i) = Invalid)
      \<and> (\<forall>a. a < vp \<or> vp + 2 * dist + 1 \<le> a \<longrightarrow>
             vm' a = impl_values c a \<and> sm' a = impl_states c a)"
proof -
  define j where "j = nat dist"
  have dj: "dist = int j" using nn by (simp add: j_def)
  let ?st = "impl_start c"
  let ?sm0 = "(impl_states c)(vp + 2 * int j := Invalid)"
  have cl: "\<And>i k. i < k \<Longrightarrow> k < j \<Longrightarrow>
      vp + 2 * int k + 1 \<noteq> ?st + int i \<and> vp + 2 * int k \<noteq> ?st + int i"
    using place unfolding dj by auto
  from expand_loop_run [OF cl, where vm = "impl_values c" and sm = ?sm0] obtain vm' sm' where
    run: "expand_loop vp (vp + 2 * int j) (?st + int j) (impl_values c) ?sm0 = Some (vm', sm')"
    and mv: "\<And>i. i < j \<Longrightarrow> vm' (vp + 2 * int i + 1) = impl_values c (?st + int i)
              \<and> sm' (vp + 2 * int i + 1) = ?sm0 (?st + int i)
              \<and> sm' (vp + 2 * int i) = Invalid"
    and fr: "\<And>a. a < vp \<or> vp + 2 * int j \<le> a \<Longrightarrow> vm' a = impl_values c a \<and> sm' a = ?sm0 a"
    by blast
  have fin: "impl_finish c = ?st + int j" using d dj by simp
  have e: "expand vp c
      = Some (c\<lparr> impl_values := vm', impl_states := sm', impl_finish := vp + 2 * dist + 1 \<rparr>)"
    using run unfolding expand_def fin dj by (simp add: Let_def algebra_simps)
  have src: "\<And>i. i < j \<Longrightarrow> ?st + int i \<noteq> vp + 2 * int j"
    using place unfolding dj by auto
  have a: "\<forall>i. 0 \<le> i \<and> i < dist \<longrightarrow>
             vm' (vp + 2 * i + 1) = impl_values c (?st + i)
             \<and> sm' (vp + 2 * i + 1) = impl_states c (?st + i)"
  proof (intro allI impI)
    fix i :: int assume "0 \<le> i \<and> i < dist"
    then have "nat i < j" and i: "i = int (nat i)" unfolding dj by auto
    from mv [OF this(1)] src [OF this(1)]
    show "vm' (vp + 2 * i + 1) = impl_values c (?st + i)
             \<and> sm' (vp + 2 * i + 1) = impl_states c (?st + i)"
      using i by simp
  qed
  have b: "\<forall>i. 0 \<le> i \<and> i \<le> dist \<longrightarrow> sm' (vp + 2 * i) = Invalid"
  proof (intro allI impI)
    fix i :: int assume h: "0 \<le> i \<and> i \<le> dist"
    then consider "i < dist" | "i = dist" by linarith
    then show "sm' (vp + 2 * i) = Invalid"
    proof cases
      case 1
      with h have "nat i < j" and i: "i = int (nat i)" unfolding dj by auto
      from mv [OF this(1)] show ?thesis using i by simp
    next
      case 2
      from fr [of "vp + 2 * int j"] show ?thesis unfolding 2 dj by simp
    qed
  qed
  have f: "\<forall>a. a < vp \<or> vp + 2 * dist + 1 \<le> a \<longrightarrow>
             vm' a = impl_values c a \<and> sm' a = impl_states c a"
  proof (intro allI impI)
    fix a assume "a < vp \<or> vp + 2 * dist + 1 \<le> a"
    then have "a < vp \<or> vp + 2 * int j \<le> a" and "a \<noteq> vp + 2 * int j" unfolding dj by auto
    with fr [of a] show "vm' a = impl_values c a \<and> sm' a = impl_states c a" by simp
  qed
  from e a b f show ?thesis by blast
qed

lemma doubled_subtree:
  fixes vm vm' :: "'v vmem"
  assumes fs: "fs = Heads \<or> fs = Tails"
  shows "(\<And>a. a \<in> set (subtree_slots (off_of h) n) \<Longrightarrow>
            sm a = fs \<and> sm' (2 * a + c) = fs \<and> vm' (2 * a + c) = vm a
            \<and> sm' (2 * a + c - 1) = Invalid \<and> sm' (2 * a + c + 1) = Invalid)
     \<Longrightarrow> shape_ok (state_not fs) sm' (off_of (Suc h)) (2 * n + c)
         \<and> sm' (2 * n + c) \<noteq> state_not fs
         \<and> live_values vm' sm' (off_of (Suc h)) (2 * n + c) = live_values vm sm (off_of h) n
         \<and> (kd_ordered ix vm sm d (off_of h) n
              \<longrightarrow> kd_ordered ix vm' sm' d (off_of (Suc h)) (2 * n + c))"
proof (induction h arbitrary: n d)
  case 0
  from "0.prems" [of n] have
    a: "sm n = fs" "sm' (2 * n + c) = fs" "vm' (2 * n + c) = vm n"
       "sm' (2 * n + c - 1) = Invalid" "sm' (2 * n + c + 1) = Invalid"
    by (simp_all add: subtree_slots_leaf)
  from fs a show ?case
    unfolding off_of_Suc_0
    by (auto simp: shape_ok_one kd_ordered_one live_values_one live_values_leaf
        is_valid_def left_def right_def)
next
  case (Suc h)
  let ?N = "2 * n + c"
  let ?l = "left n (off_of (Suc h))"
  let ?r = "right n (off_of (Suc h))"
  have L: "left ?N (off_of (Suc (Suc h))) = 2 * ?l + c"
    and R: "right ?N (off_of (Suc (Suc h))) = 2 * ?r + c"
    by (simp_all add: left_off right_off)
  have pl: "\<And>a. a \<in> set (subtree_slots (off_of h) ?l) \<Longrightarrow>
            sm a = fs \<and> sm' (2 * a + c) = fs \<and> vm' (2 * a + c) = vm a
            \<and> sm' (2 * a + c - 1) = Invalid \<and> sm' (2 * a + c + 1) = Invalid"
    by (rule Suc.prems) (rule left_in_slots)
  have pr: "\<And>a. a \<in> set (subtree_slots (off_of h) ?r) \<Longrightarrow>
            sm a = fs \<and> sm' (2 * a + c) = fs \<and> vm' (2 * a + c) = vm a
            \<and> sm' (2 * a + c - 1) = Invalid \<and> sm' (2 * a + c + 1) = Invalid"
    by (rule Suc.prems) (rule right_in_slots)
  from Suc.prems [OF node_in_slots] have
    a: "sm n = fs" "sm' ?N = fs" "vm' ?N = vm n" by simp_all
  have v: "is_valid sm n" "is_valid sm' ?N" using fs a by (auto simp: is_valid_def)
  have nf: "sm' ?N \<noteq> state_not fs" using fs a by auto
  note il = Suc.IH [OF pl, where d = "inc_dim (kth ix) d"]
  note ir = Suc.IH [OF pr, where d = "inc_dim (kth ix) d"]
  have sh: "shape_ok (state_not fs) sm' (off_of (Suc (Suc h))) ?N"
    unfolding shape_ok_node [where h = "Suc h" and n = ?N] L R
    using v nf il ir by simp
  have lv: "live_values vm' sm' (off_of (Suc (Suc h))) ?N = live_values vm sm (off_of (Suc h)) n"
    unfolding live_values_node [where h = "Suc h" and n = ?N] L R
      live_values_node [where h = h and n = n]
    using v a il ir by simp
  have kd: "kd_ordered ix vm sm d (off_of (Suc h)) n
              \<longrightarrow> kd_ordered ix vm' sm' d (off_of (Suc (Suc h))) ?N"
    unfolding kd_ordered_node [where h = "Suc h" and n = ?N] L R
      kd_ordered_node [where h = h and n = n]
    using v a il ir by simp
  from sh nf lv kd show ?case by blast
qed

section \<open>The two models of the lookup agree\<close>

text \<open>
  Over memories in which every slot exists and with a comparator that always returns, the
  lookup with every access accounted for is the lookup. With a count that is not 0 it
  reads the state of the root, and calls the comparator when the root is live.
\<close>

declare scan_dims_checked.simps [simp del] find_rec_checked.simps [simp del]
  scan_dims.simps [simp del]

lemma scan_dims_checked_total:
  "scan_dims_checked (\<lambda>d a b. Some (select_compare d a b ix)) nv val i bound
     = Some (scan_dims ix nv val i bound)"
proof (induction "bound - i" arbitrary: i)
  case 0
  then show ?case
    by (subst scan_dims_checked.simps, subst scan_dims.simps) simp
next
  case (Suc k)
  from Suc.hyps(2) have "k = bound - (i + 1)" and "i < bound" by simp_all
  with Suc.hyps(1) [of "i + 1"] show ?case
    by (subst scan_dims_checked.simps, subst scan_dims.simps) simp
qed

lemma find_rec_checked_total:
  "find_rec_checked (\<lambda>d a b. Some (select_compare d a b ix)) (kth ix) finish
       (\<lambda>a. Some (vm a)) (\<lambda>a. Some (sm a)) d off n val
     = Some (find_rec ix finish vm sm d off n val)"
proof (induction "nat \<bar>off\<bar>" arbitrary: off d n rule: less_induct)
  case less
  show ?case
  proof (cases "off = 0")
    case True
    then show ?thesis
      by (subst find_rec_checked.simps, subst find_rec.simps)
         (simp add: scan_dims_checked_total is_valid_def Let_def)
  next
    case False
    then have "nat \<bar>off sdiv 2\<bar> < nat \<bar>off\<bar>"
      by (auto simp: signed_divide_int_def abs_mult)
    note IH = less.hyps [OF this]
    show ?thesis
      by (subst find_rec_checked.simps, subst find_rec.simps)
         (simp add: scan_dims_checked_total is_valid_def Let_def IH)
  qed
qed

lemma kdtree_find_checked_total:
  "kdtree_find_checked (\<lambda>d a b. Some (select_compare d a b (impl_index c)))
       (\<lambda>a. Some (impl_values c a)) (\<lambda>a. Some (impl_states c a)) val c
     = Some (kdtree_find val c)"
  by (simp add: kdtree_find_checked_def kdtree_find_def Let_def find_rec_checked_total)

lemma find_checked_reads_root:
  "impl_count c \<noteq> 0 \<Longrightarrow> kdtree_find_checked cmp pvm Map.empty val c = None"
  by (simp add: kdtree_find_checked_def Let_def find_rec_checked.simps)

lemma find_checked_calls_comparator:
  "impl_count c \<noteq> 0
     \<Longrightarrow> psm (root (impl_start c) (impl_finish c - impl_start c)) = Some s \<Longrightarrow> s \<noteq> Invalid
     \<Longrightarrow> kdtree_find_checked (\<lambda>d a b. None) pvm psm val c = None"
  by (subst kdtree_find_checked_def, subst find_rec_checked.simps)
     (auto simp: Let_def split: Option.bind_splits)

section \<open>Preparing an insertion\<close>

declare all_ones.simps [simp del]

lemma span_nonzero: "((2::int) ^ Suc h - 1 = 0) = False"
proof -
  have "(1::int) \<le> 2 ^ h" by simp
  then have "(2::int) \<le> 2 ^ Suc h" by simp
  then have "(2::int) ^ Suc h - 1 \<noteq> 0" by linarith
  then show ?thesis by blast
qed

lemma uint_of_span: "0 \<le> d \<Longrightarrow> d < 2 ^ 63 \<Longrightarrow> uint (word_of_int d :: size_t) = d"
proof -
  assume a: "0 \<le> d" and b: "d < 2 ^ 63"
  have "(2::int) ^ 63 < 2 ^ 64" by simp
  with b have "d < 2 ^ 64" by linarith
  with a show ?thesis by (simp add: uint_word_of_int)
qed

lemma uint_succ: "uint (w :: size_t) < 2 ^ 63 \<Longrightarrow> uint (w + 1) = uint w + 1"
proof -
  assume a: "uint w < 2 ^ 63"
  have "(2::int) ^ 63 < 2 ^ 64" by simp
  with a have "uint w + 1 < 2 ^ 64" by linarith
  then show ?thesis by (simp add: uint_word_ariths)
qed

lemma uint_double: "2 * uint (w :: size_t) + 1 < 2 ^ 63 \<Longrightarrow> uint (w * 2 + 1) = 2 * uint w + 1"
proof -
  assume a: "2 * uint w + 1 < 2 ^ 63"
  have "(2::int) ^ 63 < 2 ^ 64" by simp
  with a have b: "uint w * 2 + 1 < 2 ^ 64" by linarith
  have "0 \<le> uint w" by simp
  then have c: "0 \<le> uint w * 2 + 1" by linarith
  have "uint (w * 2 + 1) = (uint w * 2 + 1) mod 2 ^ 64"
    by (simp add: uint_word_ariths mod_simps)
  with b c show ?thesis by simp
qed

lemma uint_nonzero: "(w :: size_t) \<noteq> 0 \<Longrightarrow> 1 \<le> uint w"
proof -
  assume "w \<noteq> 0"
  then have "uint w \<noteq> 0" by (simp add: uint_0_iff)
  moreover have "0 \<le> uint w" by simp
  ultimately show ?thesis by linarith
qed

lemma all_ones_gap:
  assumes "all_ones a" and "all_ones b" and "a < b"
  shows "2 * a + 1 \<le> b"
proof -
  from assms obtain i j where a: "a = 2 ^ i - 1" and b: "b = 2 ^ j - 1"
    using all_ones_form by blast
  with assms(3) have "(2::int) ^ i < 2 ^ j" by simp
  then have "i < j" by simp
  then have "Suc i \<le> j" by simp
  then have "(2::int) ^ Suc i \<le> 2 ^ j" by (rule power_increasing) simp
  with a b show ?thesis by simp
qed

lemma ftz_1: "ftz 1 = 1"
  by (simp add: ftz_def)

lemma tree_values_span:
  assumes a: "impl_finish c - impl_start c = 2 ^ Suc h - 1"
  shows "tree_values c = live_values (impl_values c) (impl_states c) (off_of h)
                       (impl_start c + 2 ^ h - 1)"
proof -
  show ?thesis
    unfolding tree_values_def Let_def a root_offset_pow root_pow span_nonzero if_False ..
qed

lemma kdtree_inv_span:
  assumes "kdtree_inv c" and "impl_finish c - impl_start c \<noteq> 0"
  shows "\<exists>h. impl_finish c - impl_start c = 2 ^ Suc h - 1
     \<and> shape_ok (impl_full_state c) (impl_states c) (off_of h) (impl_start c + 2 ^ h - 1)
     \<and> kd_ordered (impl_index c) (impl_values c) (impl_states c) 0 (off_of h)
          (impl_start c + 2 ^ h - 1)
     \<and> uint (impl_count c) = int (live_count (impl_states c) (off_of h) (impl_start c + 2 ^ h - 1))
     \<and> impl_count c \<noteq> 0"
proof -
  let ?d = "impl_finish c - impl_start c"
  from assms have ao: "all_ones ?d"
    and sh: "shape_ok (impl_full_state c) (impl_states c) (root_offset ?d) (root (impl_start c) ?d)"
    and kd: "kd_ordered (impl_index c) (impl_values c) (impl_states c) 0 (root_offset ?d)
               (root (impl_start c) ?d)"
    and ct: "uint (impl_count c) = int (live_count (impl_states c) (root_offset ?d)
               (root (impl_start c) ?d))"
    and nz: "impl_count c \<noteq> 0"
    by (simp_all add: kdtree_inv_def Let_def)
  from all_ones_pos_form [OF ao assms(2)] obtain h where h: "?d = 2 ^ Suc h - 1" by blast
  note sh' = sh [unfolded h root_offset_pow root_pow]
  note kd' = kd [unfolded h root_offset_pow root_pow]
  note ct' = ct [unfolded h root_offset_pow root_pow]
  from h sh' kd' ct' nz show ?thesis by blast
qed

lemma kdtree_inv_basic:
  assumes "kdtree_inv c"
  shows "impl_full_state c = Heads \<or> impl_full_state c = Tails"
    and "all_ones (uint (impl_capacity c))"
    and "uint (impl_capacity c) < 2 ^ 63"
    and "0 \<le> impl_finish c - impl_start c"
    and "impl_finish c - impl_start c \<le> uint (impl_capacity c)"
    and "impl_finish c - impl_start c = 0 \<Longrightarrow> impl_count c = 0"
    and "impl_finish c - impl_start c \<noteq> 0 \<Longrightarrow> impl_count c \<noteq> 0"
  using assms by (simp_all add: kdtree_inv_def Let_def split: if_splits)

lemma kdtree_inv_intro:
  assumes fs: "impl_full_state c = Heads \<or> impl_full_state c = Tails"
    and co: "all_ones (uint (impl_capacity c))"
    and cb: "uint (impl_capacity c) < 2 ^ 63"
    and sp: "impl_finish c - impl_start c = 2 ^ Suc h - 1"
    and le: "2 ^ Suc h - 1 \<le> uint (impl_capacity c)"
    and sh: "shape_ok (impl_full_state c) (impl_states c) (off_of h) (impl_start c + 2 ^ h - 1)"
    and kd: "kd_ordered (impl_index c) (impl_values c) (impl_states c) 0 (off_of h)
          (impl_start c + 2 ^ h - 1)"
    and ct: "uint (impl_count c) = int (live_count (impl_states c) (off_of h) (impl_start c + 2 ^ h - 1))"
    and nz: "impl_count c \<noteq> 0"
  shows "kdtree_inv c"
proof -
  note z = span_nonzero [of h]
  have nn: "(0::int) \<le> 2 ^ Suc h - 1" by simp
  show ?thesis
    unfolding kdtree_inv_def Let_def sp root_offset_pow root_pow z if_False
    using fs co cb le sh kd ct nz nn all_ones_pow [of "Suc h"] by blast
qed

lemma int_live_full:
  "int (live_count sm (off_of h) n) = 2 ^ Suc h - 1 \<Longrightarrow> live_count sm (off_of h) n = 2 ^ Suc h - 1"
proof -
  assume a: "int (live_count sm (off_of h) n) = 2 ^ Suc h - 1"
  have "(1::nat) \<le> 2 ^ Suc h" by simp
  then have "int (2 ^ Suc h - 1) = 2 ^ Suc h - 1" by (simp add: of_nat_diff)
  with a have "int (live_count sm (off_of h) n) = int (2 ^ Suc h - 1)" by simp
  then show ?thesis by (simp only: of_nat_eq_iff)
qed

lemma prepare_first:
  assumes inv: "kdtree_inv c" and z: "impl_count c = 0"
    and ret: "prepare_insert al c = Returned u c1"
  shows "impl_index c1 = impl_index c \<and> impl_count c1 = impl_count c
     \<and> impl_full_state c1 = impl_full_state c
     \<and> all_ones (uint (impl_capacity c1)) \<and> uint (impl_capacity c1) < 2 ^ 63
     \<and> impl_finish c1 - impl_start c1 = 1 \<and> 1 \<le> uint (impl_capacity c1)
     \<and> tree_values c = []"
proof -
  from kdtree_inv_basic(7) [OF inv] z have d: "impl_finish c - impl_start c = 0" by blast
  then have tv: "tree_values c = []" by (simp add: tree_values_def)
  have one: "all_ones 1" using all_ones_pow [of 1] by simp
  show ?thesis
  proof (cases "impl_capacity c = 0")
    case True
    with ret z obtain vp where
      c1: "c1 = c\<lparr> impl_capacity := 1, impl_start := vp, impl_finish := vp,
                    impl_finish := vp + 1 \<rparr>"
      by (auto simp: prepare_insert_def alloc_storage_def ftz_1 split: option.splits)
    show ?thesis using tv one by (simp add: c1)
  next
    case False
    with ret z have c1: "c1 = c\<lparr> impl_finish := impl_start c + 1 \<rparr>"
      by (auto simp: prepare_insert_def)
    from uint_nonzero [OF False] kdtree_inv_basic(2,3) [OF inv] tv
    show ?thesis by (simp add: c1)
  qed
qed

lemma prepare_room:
  assumes inv: "kdtree_inv c" and nz: "impl_count c \<noteq> 0"
    and ne: "impl_count c \<noteq> word_of_int (impl_finish c - impl_start c)"
  shows "prepare_insert al c = Returned () c"
    and "\<exists>h. impl_finish c - impl_start c = 2 ^ Suc (Suc h) - 1
       \<and> shape_ok (impl_full_state c) (impl_states c) (off_of (Suc h))
            (impl_start c + 2 ^ Suc h - 1)
       \<and> impl_states c (impl_start c + 2 ^ Suc h - 1) \<noteq> impl_full_state c
       \<and> kd_ordered (impl_index c) (impl_values c) (impl_states c) 0 (off_of (Suc h))
            (impl_start c + 2 ^ Suc h - 1)
       \<and> uint (impl_count c) = int (live_count (impl_states c) (off_of (Suc h))
            (impl_start c + 2 ^ Suc h - 1))"
proof -
  show "prepare_insert al c = Returned () c"
    using nz ne by (simp add: prepare_insert_def)
  let ?d = "impl_finish c - impl_start c"
  have dz: "?d \<noteq> 0"
  proof
    assume "?d = 0"
    from kdtree_inv_basic(6) [OF inv this] nz show False by simp
  qed
  from kdtree_inv_span [OF inv dz] obtain h where
    sp: "?d = 2 ^ Suc h - 1"
    and sh: "shape_ok (impl_full_state c) (impl_states c) (off_of h) (impl_start c + 2 ^ h - 1)"
    and kd: "kd_ordered (impl_index c) (impl_values c) (impl_states c) 0 (off_of h)
          (impl_start c + 2 ^ h - 1)"
    and ct: "uint (impl_count c)
          = int (live_count (impl_states c) (off_of h) (impl_start c + 2 ^ h - 1))"
    by blast
  have fsv: "impl_full_state c \<noteq> Invalid" using kdtree_inv_basic(1) [OF inv] by auto
  have nf: "impl_states c (impl_start c + 2 ^ h - 1) \<noteq> impl_full_state c"
  proof
    assume f: "impl_states c (impl_start c + 2 ^ h - 1) = impl_full_state c"
    from full_live_count [OF sh f fsv] ct
    have "uint (impl_count c) = int (2 ^ Suc h - 1)" by simp
    also have "(1::nat) \<le> 2 ^ Suc h" by simp
    then have "int (2 ^ Suc h - 1) = 2 ^ Suc h - 1" by (simp add: of_nat_diff)
    finally have "uint (impl_count c) = ?d" using sp by simp
    then have "word_of_int (uint (impl_count c)) = (word_of_int ?d :: size_t)" by simp
    with ne show False by simp
  qed
  have hz: "h \<noteq> 0"
  proof
    assume h0: "h = 0"
    from sh nf have "\<not> is_valid (impl_states c) (impl_start c)"
      unfolding h0 by (simp add: shape_ok_leaf is_valid_def)
    with ct have "uint (impl_count c) = 0" unfolding h0 by (simp add: live_count_leaf)
    with nz show False by (simp add: uint_0_iff)
  qed
  then obtain k where k: "h = Suc k" by (cases h) auto
  from sp sh nf kd ct show "\<exists>h. impl_finish c - impl_start c = 2 ^ Suc (Suc h) - 1
       \<and> shape_ok (impl_full_state c) (impl_states c) (off_of (Suc h))
            (impl_start c + 2 ^ Suc h - 1)
       \<and> impl_states c (impl_start c + 2 ^ Suc h - 1) \<noteq> impl_full_state c
       \<and> kd_ordered (impl_index c) (impl_values c) (impl_states c) 0 (off_of (Suc h))
            (impl_start c + 2 ^ Suc h - 1)
       \<and> uint (impl_count c) = int (live_count (impl_states c) (off_of (Suc h))
            (impl_start c + 2 ^ Suc h - 1))"
    unfolding k by blast
qed


lemma prepare_doubles:
  fixes c :: "'v kdtree"
  assumes nz: "impl_count c \<noteq> 0"
    and eq: "impl_count c = word_of_int dist"
    and d: "dist = impl_finish c - impl_start c" and nn: "0 \<le> dist"
    and tgt: "if impl_count c = impl_capacity c
              then al = Some vp
                   \<and> (vp + 2 * dist + 1 \<le> impl_start c \<or> impl_start c + dist \<le> vp)
                   \<and> cap' = impl_capacity c * 2 + 1
              else vp = impl_start c \<and> cap' = impl_capacity c"
  shows "\<exists>vm' sm'. prepare_insert al c
           = Returned () (c\<lparr> impl_values := vm', impl_states := sm', impl_start := vp,
               impl_finish := vp + 2 * dist + 1, impl_capacity := cap',
               impl_full_state := state_not (impl_full_state c) \<rparr>)
      \<and> (\<forall>i. 0 \<le> i \<and> i < dist \<longrightarrow>
             vm' (vp + 2 * i + 1) = impl_values c (impl_start c + i)
             \<and> sm' (vp + 2 * i + 1) = impl_states c (impl_start c + i))
      \<and> (\<forall>i. 0 \<le> i \<and> i \<le> dist \<longrightarrow> sm' (vp + 2 * i) = Invalid)
      \<and> (\<forall>a. a < vp \<or> vp + 2 * dist + 1 \<le> a \<longrightarrow>
             vm' a = impl_values c a \<and> sm' a = impl_states c a)"
proof -
  have place: "vp = impl_start c \<or> vp + 2 * dist + 1 \<le> impl_start c \<or> impl_start c + dist \<le> vp"
    using tgt by (auto split: if_splits)
  from expand_correct [OF d nn place] obtain vm' sm' where
    e: "expand vp c
         = Some (c\<lparr> impl_values := vm', impl_states := sm', impl_finish := vp + 2 * dist + 1 \<rparr>)"
    and mv: "\<forall>i. 0 \<le> i \<and> i < dist \<longrightarrow>
             vm' (vp + 2 * i + 1) = impl_values c (impl_start c + i)
             \<and> sm' (vp + 2 * i + 1) = impl_states c (impl_start c + i)"
    and ev: "\<forall>i. 0 \<le> i \<and> i \<le> dist \<longrightarrow> sm' (vp + 2 * i) = Invalid"
    and fr: "\<forall>a. a < vp \<or> vp + 2 * dist + 1 \<le> a \<longrightarrow>
             vm' a = impl_values c a \<and> sm' a = impl_states c a"
    by blast
  have eq': "impl_count c = word_of_int (impl_finish c - impl_start c)" using eq d by simp
  have "prepare_insert al c
           = Returned () (c\<lparr> impl_values := vm', impl_states := sm', impl_start := vp,
               impl_finish := vp + 2 * dist + 1, impl_capacity := cap',
               impl_full_state := state_not (impl_full_state c) \<rparr>)"
  proof (cases "impl_count c = impl_capacity c")
    case True
    with tgt have "al = Some vp" and "cap' = impl_capacity c * 2 + 1" by simp_all
    with True nz eq' e show ?thesis
      by (simp add: prepare_insert_def expand_alloc_def Let_def)
  next
    case False
    with tgt have v: "vp = impl_start c" and "cap' = impl_capacity c" by simp_all
    with False nz eq' e [unfolded v] show ?thesis
      by (simp add: prepare_insert_def)
  qed
  with mv ev fr show ?thesis by blast
qed


lemma doubling_result:
  fixes c :: "'v kdtree"
  assumes nz: "impl_count c \<noteq> 0"
    and eq: "impl_count c = word_of_int (impl_finish c - impl_start c)"
    and nn: "0 \<le> impl_finish c - impl_start c"
    and pl: "\<And>vp. impl_count c = impl_capacity c \<Longrightarrow> al = Some vp \<Longrightarrow>
               vp + 2 * (impl_finish c - impl_start c) + 1 \<le> impl_start c
               \<or> impl_start c + (impl_finish c - impl_start c) \<le> vp"
    and ret: "prepare_insert al c = Returned u c1"
  shows "impl_full_state c1 = state_not (impl_full_state c)
     \<and> impl_index c1 = impl_index c \<and> impl_count c1 = impl_count c
     \<and> impl_finish c1 - impl_start c1 = 2 * (impl_finish c - impl_start c) + 1
     \<and> (if impl_count c = impl_capacity c
         then al = Some (impl_start c1) \<and> impl_capacity c1 = impl_capacity c * 2 + 1
         else impl_start c1 = impl_start c \<and> impl_capacity c1 = impl_capacity c)
     \<and> (\<forall>i. 0 \<le> i \<and> i < impl_finish c - impl_start c \<longrightarrow>
            impl_values c1 (impl_start c1 + 2 * i + 1) = impl_values c (impl_start c + i)
            \<and> impl_states c1 (impl_start c1 + 2 * i + 1) = impl_states c (impl_start c + i))
     \<and> (\<forall>i. 0 \<le> i \<and> i \<le> impl_finish c - impl_start c \<longrightarrow>
            impl_states c1 (impl_start c1 + 2 * i) = Invalid)
     \<and> (\<forall>a. a < impl_start c1 \<or> impl_finish c1 \<le> a \<longrightarrow>
            impl_values c1 a = impl_values c a \<and> impl_states c1 a = impl_states c a)"
proof -
  let ?d = "impl_finish c - impl_start c"
  obtain vp cap' where tgt: "if impl_count c = impl_capacity c
              then al = Some vp
                   \<and> (vp + 2 * ?d + 1 \<le> impl_start c \<or> impl_start c + ?d \<le> vp)
                   \<and> cap' = impl_capacity c * 2 + 1
              else vp = impl_start c \<and> cap' = impl_capacity c"
  proof (cases "impl_count c = impl_capacity c")
    case True
    with ret nz eq obtain vp where a: "al = Some vp"
      by (cases al) (auto simp: prepare_insert_def expand_alloc_def Let_def)
    from pl [OF True a] True a that [of vp "impl_capacity c * 2 + 1"] show ?thesis by simp
  next
    case False
    with that [of "impl_start c" "impl_capacity c"] show ?thesis by simp
  qed
  from prepare_doubles [OF nz eq refl nn tgt] obtain vm' sm' where
    p: "prepare_insert al c
           = Returned () (c\<lparr> impl_values := vm', impl_states := sm', impl_start := vp,
               impl_finish := vp + 2 * ?d + 1, impl_capacity := cap',
               impl_full_state := state_not (impl_full_state c) \<rparr>)"
    and mv: "\<forall>i. 0 \<le> i \<and> i < ?d \<longrightarrow>
             vm' (vp + 2 * i + 1) = impl_values c (impl_start c + i)
             \<and> sm' (vp + 2 * i + 1) = impl_states c (impl_start c + i)"
    and ev: "\<forall>i. 0 \<le> i \<and> i \<le> ?d \<longrightarrow> sm' (vp + 2 * i) = Invalid"
    and fr: "\<forall>a. a < vp \<or> vp + 2 * ?d + 1 \<le> a \<longrightarrow>
             vm' a = impl_values c a \<and> sm' a = impl_states c a"
    by blast
  from p ret have c1: "c1 = c\<lparr> impl_values := vm', impl_states := sm', impl_start := vp,
               impl_finish := vp + 2 * ?d + 1, impl_capacity := cap',
               impl_full_state := state_not (impl_full_state c) \<rparr>"
    by simp
  show ?thesis
    unfolding c1 using mv ev fr tgt by (simp split: if_splits)
qed

section \<open>The insertion keeps the invariant\<close>

lemma prepare_room_ready:
  assumes inv: "kdtree_inv c" and nz: "impl_count c \<noteq> 0"
    and ne: "impl_count c \<noteq> word_of_int (impl_finish c - impl_start c)"
  shows "\<exists>h. ready c (tree_values c) h"
proof -
  from prepare_room(2) [OF inv nz ne] obtain h where
    sp: "impl_finish c - impl_start c = 2 ^ Suc (Suc h) - 1"
    and sh: "shape_ok (impl_full_state c) (impl_states c) (off_of (Suc h))
            (impl_start c + 2 ^ Suc h - 1)"
    and nf: "impl_states c (impl_start c + 2 ^ Suc h - 1) \<noteq> impl_full_state c"
    and kd: "kd_ordered (impl_index c) (impl_values c) (impl_states c) 0 (off_of (Suc h))
            (impl_start c + 2 ^ Suc h - 1)"
    and ct: "uint (impl_count c) = int (live_count (impl_states c) (off_of (Suc h))
            (impl_start c + 2 ^ Suc h - 1))"
    by blast
  note tv = tree_values_span [OF sp]
  have len: "uint (impl_count c) = int (length (tree_values c))"
    unfolding tv using ct live_count_length [of "impl_states c" "off_of (Suc h)"
        "impl_start c + 2 ^ Suc h - 1" "impl_values c"] by simp
  from kdtree_inv_basic(5) [OF inv] have le: "2 ^ Suc (Suc h) - 1 \<le> uint (impl_capacity c)"
    unfolding sp .
  have "ready c (tree_values c) h"
    unfolding ready_def
    using kdtree_inv_basic(1-3) [OF inv] sp le sh nf kd tv [symmetric] len by blast
  then show ?thesis ..
qed

lemma prepare_full_ready:
  fixes c :: "'v kdtree"
  assumes inv: "kdtree_inv c" and al: "alloc_ok c al" and nz: "impl_count c \<noteq> 0"
    and eq: "impl_count c = word_of_int (impl_finish c - impl_start c)"
    and ret: "prepare_insert al c = Returned u c1"
  shows "\<exists>h. ready c1 (tree_values c) h \<and> impl_index c1 = impl_index c
           \<and> impl_count c1 = impl_count c"
proof -
  let ?d = "impl_finish c - impl_start c"
  let ?st = "impl_start c"
  let ?fs = "impl_full_state c"
  note b = kdtree_inv_basic [OF inv]
  have dz: "?d \<noteq> 0"
  proof
    assume "?d = 0"
    with eq nz show False by simp
  qed
  from kdtree_inv_span [OF inv dz] obtain h where
    sp: "?d = 2 ^ Suc h - 1"
    and sh: "shape_ok ?fs (impl_states c) (off_of h) (?st + 2 ^ h - 1)"
    and kd: "kd_ordered (impl_index c) (impl_values c) (impl_states c) 0 (off_of h)
          (?st + 2 ^ h - 1)"
    and ct: "uint (impl_count c) = int (live_count (impl_states c) (off_of h) (?st + 2 ^ h - 1))"
    by blast
  have dlt: "?d < 2 ^ 63" using b(3,5) by linarith
  have uc: "uint (impl_count c) = ?d" using uint_of_span [OF b(4) dlt] eq by simp
  have lc: "live_count (impl_states c) (off_of h) (?st + 2 ^ h - 1) = 2 ^ Suc h - 1"
    by (rule int_live_full) (use ct uc sp in simp)
  have fsv: "?fs \<noteq> Invalid" using b(1) by auto
  have rootfs: "impl_states c (?st + 2 ^ h - 1) = ?fs"
    by (rule all_valid_full [OF sh]) (rule live_count_full [OF lc])
  have allfs: "\<And>a. a \<in> set (subtree_slots (off_of h) (?st + 2 ^ h - 1)) \<Longrightarrow> impl_states c a = ?fs"
    by (rule full_all [OF sh rootfs])
  have pl: "\<And>vp. impl_count c = impl_capacity c \<Longrightarrow> al = Some vp \<Longrightarrow>
               vp + 2 * ?d + 1 \<le> ?st \<or> ?st + ?d \<le> vp"
  proof -
    fix vp assume e: "impl_count c = impl_capacity c" and a: "al = Some vp"
    from e uc have "uint (impl_capacity c) = ?d" by simp
    with al a show "vp + 2 * ?d + 1 \<le> ?st \<or> ?st + ?d \<le> vp"
      by (auto simp: alloc_ok_def)
  qed
  from doubling_result [OF nz eq b(4) pl ret] have
    r_fs: "impl_full_state c1 = state_not ?fs"
    and r_ix: "impl_index c1 = impl_index c" and r_ct: "impl_count c1 = impl_count c"
    and r_sp: "impl_finish c1 - impl_start c1 = 2 * ?d + 1"
    and r_cap: "if impl_count c = impl_capacity c
         then al = Some (impl_start c1) \<and> impl_capacity c1 = impl_capacity c * 2 + 1
         else impl_start c1 = ?st \<and> impl_capacity c1 = impl_capacity c"
    and r_mv: "\<forall>i. 0 \<le> i \<and> i < ?d \<longrightarrow>
            impl_values c1 (impl_start c1 + 2 * i + 1) = impl_values c (?st + i)
            \<and> impl_states c1 (impl_start c1 + 2 * i + 1) = impl_states c (?st + i)"
    and r_ev: "\<forall>i. 0 \<le> i \<and> i \<le> ?d \<longrightarrow> impl_states c1 (impl_start c1 + 2 * i) = Invalid"
    by blast+
  have fs1: "impl_full_state c1 = Heads \<or> impl_full_state c1 = Tails"
    using b(1) r_fs by auto
  have sp1: "impl_finish c1 - impl_start c1 = 2 ^ Suc (Suc h) - 1"
    using r_sp sp by simp
  have cap1: "all_ones (uint (impl_capacity c1)) \<and> uint (impl_capacity c1) < 2 ^ 63
      \<and> 2 * ?d + 1 \<le> uint (impl_capacity c1)"
  proof (cases "impl_count c = impl_capacity c")
    case True
    with r_cap have a: "al = Some (impl_start c1)"
      and c: "impl_capacity c1 = impl_capacity c * 2 + 1" by simp_all
    from al a have bd: "2 * uint (impl_capacity c) + 1 < 2 ^ 63" by (simp add: alloc_ok_def)
    from uint_double [OF bd] c have u: "uint (impl_capacity c1) = 2 * uint (impl_capacity c) + 1"
      by simp
    have "0 \<le> uint (impl_capacity c)" by simp
    from all_ones_double [OF this] b(2) have "all_ones (2 * uint (impl_capacity c) + 1)" by simp
    moreover from True uc have "uint (impl_capacity c) = ?d" by simp
    ultimately show ?thesis using u bd by simp
  next
    case False
    with r_cap have c: "impl_capacity c1 = impl_capacity c" by simp
    have "?d \<noteq> uint (impl_capacity c)"
    proof
      assume "?d = uint (impl_capacity c)"
      with uc have "uint (impl_count c) = uint (impl_capacity c)" by simp
      then have "impl_count c = impl_capacity c" by (simp only: word_uint_eq_iff)
      with False show False by simp
    qed
    with b(5) have lt: "?d < uint (impl_capacity c)" by linarith
    have "all_ones ?d" unfolding sp by (rule all_ones_pow)
    from all_ones_gap [OF this b(2) lt] b(2,3) c show ?thesis by simp
  qed
  let ?k = "impl_start c1 - 2 * ?st + 1"
  have mapping: "\<And>a. a \<in> set (subtree_slots (off_of h) (?st + 2 ^ h - 1)) \<Longrightarrow>
            impl_states c a = ?fs \<and> impl_states c1 (2 * a + ?k) = ?fs
            \<and> impl_values c1 (2 * a + ?k) = impl_values c a
            \<and> impl_states c1 (2 * a + ?k - 1) = Invalid
            \<and> impl_states c1 (2 * a + ?k + 1) = Invalid"
  proof -
    fix a assume a: "a \<in> set (subtree_slots (off_of h) (?st + 2 ^ h - 1))"
    then have rng: "?st \<le> a \<and> a < ?st + ?d" unfolding root_slots sp by simp
    define i where "i = a - ?st"
    have i: "0 \<le> i" "i < ?d" "i \<le> ?d" "0 \<le> i + 1" "i + 1 \<le> ?d" "a = ?st + i"
      using rng by (simp_all add: i_def)
    have e1: "2 * a + ?k = impl_start c1 + 2 * i + 1"
      and e2: "impl_start c1 + 2 * i + 1 - 1 = impl_start c1 + 2 * i"
      and e3: "impl_start c1 + 2 * i + 1 + 1 = impl_start c1 + 2 * (i + 1)"
      by (simp_all add: i_def)
    have s1: "impl_values c1 (impl_start c1 + 2 * i + 1) = impl_values c (?st + i)"
      and s2: "impl_states c1 (impl_start c1 + 2 * i + 1) = impl_states c (?st + i)"
      using r_mv i(1,2) by blast+
    have s3: "impl_states c1 (impl_start c1 + 2 * i) = Invalid"
      using r_ev i(1,3) by blast
    have s4: "impl_states c1 (impl_start c1 + 2 * (i + 1)) = Invalid"
      using r_ev i(4,5) by blast
    note s5 = allfs [OF a]
    show "impl_states c a = ?fs \<and> impl_states c1 (2 * a + ?k) = ?fs
            \<and> impl_values c1 (2 * a + ?k) = impl_values c a
            \<and> impl_states c1 (2 * a + ?k - 1) = Invalid
            \<and> impl_states c1 (2 * a + ?k + 1) = Invalid"
      unfolding e1 e2 e3 using s1 s2 s3 s4 s5 i(6) by metis
  qed
  have node: "2 * (?st + 2 ^ h - 1) + ?k = impl_start c1 + 2 ^ Suc h - 1" by simp
  note ds = doubled_subtree [where ix = "impl_index c" and d = 0 and h = h
      and n = "?st + 2 ^ h - 1" and sm = "impl_states c" and sm' = "impl_states c1"
      and vm = "impl_values c" and vm' = "impl_values c1" and c = ?k and fs = ?fs,
      OF b(1) mapping, unfolded node]
  from ds kd
  have dsh: "shape_ok (state_not ?fs) (impl_states c1) (off_of (Suc h))
               (impl_start c1 + 2 ^ Suc h - 1)"
    and dnf: "impl_states c1 (impl_start c1 + 2 ^ Suc h - 1) \<noteq> state_not ?fs"
    and dlv: "live_values (impl_values c1) (impl_states c1) (off_of (Suc h))
               (impl_start c1 + 2 ^ Suc h - 1)
              = live_values (impl_values c) (impl_states c) (off_of h) (?st + 2 ^ h - 1)"
    and dkd: "kd_ordered (impl_index c) (impl_values c1) (impl_states c1) 0 (off_of (Suc h))
               (impl_start c1 + 2 ^ Suc h - 1)"
    by blast+
  note tv = tree_values_span [OF sp]
  have len: "uint (impl_count c) = int (length (tree_values c))"
    unfolding tv using ct live_count_length [of "impl_states c" "off_of h"
        "?st + 2 ^ h - 1" "impl_values c"] by simp
  have le1: "2 ^ Suc (Suc h) - 1 \<le> uint (impl_capacity c1)"
    using cap1 sp by simp
  have "ready c1 (tree_values c) h"
    unfolding ready_def r_fs r_ix r_ct
    using fs1 [unfolded r_fs] cap1 sp1 le1 dsh dnf dkd dlv [folded tv] len by blast
  with r_ix r_ct show ?thesis by blast
qed

lemma cref_value: "dfr = Deferred_copy v \<or> dfr = Deferred_move v \<Longrightarrow> cref dfr vm = v"
  by auto

lemma reads_outside_value:
  "dfr = Deferred_copy v \<or> dfr = Deferred_move v \<Longrightarrow> reads_outside dfr S"
  by auto

lemma int_span: "int (2 ^ Suc h - 1) = 2 ^ Suc h - 1"
proof -
  have "(1::nat) \<le> 2 ^ Suc h" by simp
  then show ?thesis by (simp add: of_nat_diff)
qed

lemma insert_ready:
  fixes c1 :: "'v kdtree"
  assumes rd: "ready c1 vs h" and sw: "strict_weak (impl_index c1)"
    and nt: "nothrow vt dfr" and cm: "dfr = Deferred_copy v \<or> dfr = Deferred_move v"
  shows "\<exists>it vm' sm'.
      single_insert (impl_index c1) vt (impl_full_state c1) 0
          (root_offset (impl_finish c1 - impl_start c1))
          (root (impl_start c1) (impl_finish c1 - impl_start c1)) dfr
          (impl_values c1) (impl_states c1) = Placed it vm' sm'
      \<and> kdtree_inv (c1\<lparr> impl_count := impl_count c1 + 1, impl_values := vm',
                          impl_states := sm' \<rparr>)
      \<and> mset (tree_values (c1\<lparr> impl_count := impl_count c1 + 1, impl_values := vm',
                          impl_states := sm' \<rparr>)) = add_mset v (mset vs)
      \<and> impl_start c1 \<le> it \<and> it < impl_finish c1 \<and> is_valid sm' it \<and> vm' it = v"
proof -
  let ?fs = "impl_full_state c1"
  let ?n = "impl_start c1 + 2 ^ Suc h - 1"
  let ?o = "off_of (Suc h)"
  from rd have fs: "?fs = Heads \<or> ?fs = Tails"
    and co: "all_ones (uint (impl_capacity c1))" and cb: "uint (impl_capacity c1) < 2 ^ 63"
    and sp: "impl_finish c1 - impl_start c1 = 2 ^ Suc (Suc h) - 1"
    and le: "2 ^ Suc (Suc h) - 1 \<le> uint (impl_capacity c1)"
    and sh: "shape_ok ?fs (impl_states c1) ?o ?n"
    and nf: "impl_states c1 ?n \<noteq> ?fs"
    and kd: "kd_ordered (impl_index c1) (impl_values c1) (impl_states c1) 0 ?o ?n"
    and lv: "live_values (impl_values c1) (impl_states c1) ?o ?n = vs"
    and ct: "uint (impl_count c1) = int (length vs)"
    unfolding ready_def by blast+
  note ro = reads_outside_value [OF cm, of "set (subtree_slots ?o ?n)"]
  from single_insert_correct [OF sw fs sw_kth [OF sw] sh nf kd nt ro]
  obtain ins vm' sm' where
    si: "single_insert (impl_index c1) vt ?fs 0 ?o ?n dfr (impl_values c1) (impl_states c1)
           = Placed ins vm' sm'"
    and ins: "inserted (impl_index c1) ?fs 0 ?o ?n (cref dfr (impl_values c1))
           (impl_values c1) (impl_states c1) ins vm' sm'"
    by blast
  from ins [unfolded inserted_def lv cref_value [OF cm]]
  have sh': "shape_ok ?fs sm' ?o ?n"
    and kd': "kd_ordered (impl_index c1) vm' sm' 0 ?o ?n"
    and ms: "mset (live_values vm' sm' ?o ?n) = add_mset v (mset vs)"
    and mem: "ins \<in> set (subtree_slots ?o ?n)" and val: "is_valid sm' ins" and at: "vm' ins = v"
    by blast+
  let ?c' = "c1\<lparr> impl_count := impl_count c1 + 1, impl_values := vm', impl_states := sm' \<rparr>"
  have len': "length (live_values vm' sm' ?o ?n) = Suc (length vs)"
    using arg_cong [OF ms, of size] by simp
  have "length vs \<le> length (subtree_slots ?o ?n)"
    unfolding lv [symmetric] live_values_def by simp
  then have "int (length vs) \<le> int (2 ^ Suc (Suc h) - 1)"
    unfolding length_subtree_slots by (simp only: of_nat_le_iff)
  then have "int (length vs) \<le> 2 ^ Suc (Suc h) - 1"
    unfolding int_span .
  with ct le cb have small: "uint (impl_count c1) < 2 ^ 63" by linarith
  have ct': "uint (impl_count c1 + 1) = int (live_count sm' ?o ?n)"
    unfolding uint_succ [OF small] ct live_count_length [of sm' ?o ?n vm'] len' by simp
  have nz': "impl_count c1 + 1 \<noteq> 0"
  proof
    assume "impl_count c1 + 1 = 0"
    then have "uint (impl_count c1 + 1) = 0" by simp
    with ct' len' live_count_length [of sm' ?o ?n vm'] show False by simp
  qed
  have inv': "kdtree_inv ?c'"
    by (rule kdtree_inv_intro [where h = "Suc h"]) (use fs co cb sp le sh' kd' ct' nz' in simp_all)
  have sp': "impl_finish ?c' - impl_start ?c' = 2 ^ Suc (Suc h) - 1" using sp by simp
  have tv': "mset (tree_values ?c') = add_mset v (mset vs)"
    unfolding tree_values_span [OF sp'] using ms by simp
  from mem have rng: "impl_start c1 \<le> ins \<and> ins < impl_finish c1"
    unfolding root_slots using sp by simp
  have call: "single_insert (impl_index c1) vt ?fs 0
          (root_offset (impl_finish c1 - impl_start c1))
          (root (impl_start c1) (impl_finish c1 - impl_start c1)) dfr
          (impl_values c1) (impl_states c1) = Placed ins vm' sm'"
    unfolding sp root_offset_pow root_pow using si .
  from call inv' tv' rng val at show ?thesis by blast
qed

lemma insert_first:
  fixes c1 :: "'v kdtree"
  assumes fs: "impl_full_state c1 = Heads \<or> impl_full_state c1 = Tails"
    and co: "all_ones (uint (impl_capacity c1))" and cb: "uint (impl_capacity c1) < 2 ^ 63"
    and sp: "impl_finish c1 - impl_start c1 = 1" and le: "1 \<le> uint (impl_capacity c1)"
    and z: "impl_count c1 = 0"
    and nt: "nothrow vt dfr" and cm: "dfr = Deferred_copy v \<or> dfr = Deferred_move v"
  shows "\<exists>it vm' sm'.
      single_insert (impl_index c1) vt (impl_full_state c1) 0
          (root_offset (impl_finish c1 - impl_start c1))
          (root (impl_start c1) (impl_finish c1 - impl_start c1)) dfr
          (impl_values c1) (impl_states c1) = Placed it vm' sm'
      \<and> kdtree_inv (c1\<lparr> impl_count := impl_count c1 + 1, impl_values := vm',
                          impl_states := sm' \<rparr>)
      \<and> mset (tree_values (c1\<lparr> impl_count := impl_count c1 + 1, impl_values := vm',
                          impl_states := sm' \<rparr>)) = add_mset v {#}
      \<and> impl_start c1 \<le> it \<and> it < impl_finish c1 \<and> is_valid sm' it \<and> vm' it = v"
proof -
  let ?st = "impl_start c1"
  let ?fs = "impl_full_state c1"
  let ?vm = "(impl_values c1)(?st := v)"
  let ?sm = "(impl_states c1)(?st := ?fs)"
  let ?c' = "c1\<lparr> impl_count := impl_count c1 + 1, impl_values := ?vm, impl_states := ?sm \<rparr>"
  have ro: "root_offset 1 = 0" using root_offset_pow [of 0] by (simp add: off_of.simps)
  have rt: "root ?st 1 = ?st" using root_pow [of ?st 0] by simp
  have fsv: "?fs \<noteq> Invalid" using fs by auto
  have call: "single_insert (impl_index c1) vt ?fs 0 (root_offset (impl_finish c1 - impl_start c1))
          (root ?st (impl_finish c1 - impl_start c1)) dfr (impl_values c1) (impl_states c1)
        = Placed ?st ?vm ?sm"
    unfolding sp ro rt
    by (subst single_insert.simps) (simp add: place_at_nothrow [OF nt] cref_value [OF cm])
  have sp': "impl_finish ?c' - impl_start ?c' = 2 ^ Suc 0 - 1" using sp by simp
  have inv': "kdtree_inv ?c'"
  proof (rule kdtree_inv_intro [where h = 0])
    show "impl_finish ?c' - impl_start ?c' = 2 ^ Suc 0 - 1" by (rule sp')
    show "uint (impl_count ?c')
        = int (live_count (impl_states ?c') (off_of 0) (impl_start ?c' + 2 ^ 0 - 1))"
      using fsv z by (simp add: live_count_leaf is_valid_def)
    show "impl_count ?c' \<noteq> 0" using z by simp
  qed (use fs co cb le in \<open>simp_all add: shape_ok_leaf kd_ordered_leaf\<close>)
  have tv': "mset (tree_values ?c') = add_mset v {#}"
    unfolding tree_values_span [OF sp'] using fsv by (simp add: live_values_leaf is_valid_def)
  have "?st \<le> ?st \<and> ?st < impl_finish c1 \<and> is_valid ?sm ?st \<and> ?vm ?st = v"
    using sp fsv by (simp add: is_valid_def)
  with call inv' tv' show ?thesis by blast
qed

lemma prepare_returns:
  fixes c :: "'v kdtree"
  assumes inv: "kdtree_inv c" and al: "alloc_ok c al"
    and av: "impl_count c = impl_capacity c \<longrightarrow> al \<noteq> None"
  shows "\<exists>c1. prepare_insert al c = Returned () c1"
proof -
  note b = kdtree_inv_basic [OF inv]
  consider (first) "impl_count c = 0"
    | (full) "impl_count c \<noteq> 0" "impl_count c = word_of_int (impl_finish c - impl_start c)"
    | (room) "impl_count c \<noteq> 0" "impl_count c \<noteq> word_of_int (impl_finish c - impl_start c)"
    by blast
  then show ?thesis
  proof cases
    case first
    with av show ?thesis
      by (auto simp: prepare_insert_def alloc_storage_def)
  next
    case full
    let ?d = "impl_finish c - impl_start c"
    have dlt: "?d < 2 ^ 63" using b(3,5) by linarith
    have uc: "uint (impl_count c) = ?d" using uint_of_span [OF b(4) dlt] full(2) by simp
    obtain vp cap' where tgt: "if impl_count c = impl_capacity c
              then al = Some vp
                   \<and> (vp + 2 * ?d + 1 \<le> impl_start c \<or> impl_start c + ?d \<le> vp)
                   \<and> cap' = impl_capacity c * 2 + 1
              else vp = impl_start c \<and> cap' = impl_capacity c"
    proof (cases "impl_count c = impl_capacity c")
      case True
      with av obtain vp where a: "al = Some vp" by auto
      from True uc have "uint (impl_capacity c) = ?d" by simp
      with al a have "vp + 2 * ?d + 1 \<le> impl_start c \<or> impl_start c + ?d \<le> vp"
        by (auto simp: alloc_ok_def)
      with True a that [of vp "impl_capacity c * 2 + 1"] show ?thesis by simp
    next
      case False
      with that [of "impl_start c" "impl_capacity c"] show ?thesis by simp
    qed
    from prepare_doubles [OF full(1,2) refl b(4) tgt] show ?thesis by blast
  next
    case room
    from prepare_room(1) [OF inv room] show ?thesis by blast
  qed
qed

lemma prepare_insert_index:
  "prepare_insert al c = Returned u c1 \<Longrightarrow> impl_index c1 = impl_index c"
  by (auto simp: prepare_insert_def alloc_storage_def expand_alloc_def expand_def Let_def
      split: if_splits option.splits outcome.splits prod.splits)

lemma insert_prepared:
  fixes c :: "'v kdtree"
  assumes inv: "kdtree_inv c" and sw: "strict_weak (impl_index c)" and al: "alloc_ok c al"
    and cm: "dfr = Deferred_copy v \<or> dfr = Deferred_move v" and nt: "nothrow vt dfr"
    and p: "prepare_insert al c = Returned () c1"
  shows "\<exists>it vm' sm'.
      single_insert (impl_index c1) vt (impl_full_state c1) 0
          (root_offset (impl_finish c1 - impl_start c1))
          (root (impl_start c1) (impl_finish c1 - impl_start c1)) dfr
          (impl_values c1) (impl_states c1) = Placed it vm' sm'
      \<and> kdtree_inv (c1\<lparr> impl_count := impl_count c1 + 1, impl_values := vm',
                          impl_states := sm' \<rparr>)
      \<and> mset (tree_values (c1\<lparr> impl_count := impl_count c1 + 1, impl_values := vm',
                          impl_states := sm' \<rparr>)) = add_mset v (mset (tree_values c))
      \<and> impl_start c1 \<le> it \<and> it < impl_finish c1 \<and> is_valid sm' it \<and> vm' it = v"
proof -
  note ix = prepare_insert_index [OF p]
  note cn = prepare_insert_count [OF p]
  have sw1: "strict_weak (impl_index c1)" using sw ix by simp
  consider (first) "impl_count c = 0"
    | (full) "impl_count c \<noteq> 0" "impl_count c = word_of_int (impl_finish c - impl_start c)"
    | (room) "impl_count c \<noteq> 0" "impl_count c \<noteq> word_of_int (impl_finish c - impl_start c)"
    by blast
  then show ?thesis
  proof cases
    case first
    from prepare_first [OF inv first p] kdtree_inv_basic(1) [OF inv] have
      f: "impl_full_state c1 = Heads \<or> impl_full_state c1 = Tails"
        "all_ones (uint (impl_capacity c1))" "uint (impl_capacity c1) < 2 ^ 63"
        "impl_finish c1 - impl_start c1 = 1" "1 \<le> uint (impl_capacity c1)"
        "tree_values c = []"
      by simp_all
    have z: "impl_count c1 = 0" using cn first by simp
    from insert_first [OF f(1-5) z nt cm] show ?thesis unfolding f(6) by simp
  next
    case full
    from prepare_full_ready [OF inv al full p] obtain h where "ready c1 (tree_values c) h"
      by blast
    from insert_ready [OF this sw1 nt cm] show ?thesis .
  next
    case room
    from prepare_room(1) [OF inv room, of al] p have e: "c1 = c" by simp
    from prepare_room_ready [OF inv room] obtain h where "ready c1 (tree_values c) h"
      unfolding e by blast
    from insert_ready [OF this sw1 nt cm] show ?thesis .
  qed
qed

lemma insert_deferred_correct:
  fixes c :: "'v kdtree"
  assumes inv: "kdtree_inv c" and sw: "strict_weak (impl_index c)" and al: "alloc_ok c al"
    and cm: "dfr = Deferred_copy v \<or> dfr = Deferred_move v"
    and ret: "insert_deferred vt al dfr c = Returned it c'"
  shows "kdtree_inv c' \<and> impl_index c' = impl_index c
     \<and> mset (tree_values c') = add_mset v (mset (tree_values c))
     \<and> impl_start c' \<le> it \<and> it < impl_finish c'
     \<and> is_valid (impl_states c') it \<and> impl_values c' it = v
     \<and> impl_count c' = impl_count c + 1"
proof -
  from ret obtain c1 where p: "prepare_insert al c = Returned () c1"
    by (cases "prepare_insert al c") (simp_all add: insert_deferred_def)
  let ?call = "single_insert (impl_index c1) vt (impl_full_state c1) 0
          (root_offset (impl_finish c1 - impl_start c1))
          (root (impl_start c1) (impl_finish c1 - impl_start c1)) dfr
          (impl_values c1) (impl_states c1)"
  from ret p obtain vm sm where s: "?call = Placed it vm sm"
    and c': "c' = c1\<lparr> impl_count := impl_count c1 + 1, impl_values := vm, impl_states := sm \<rparr>"
    by (cases ?call) (simp_all add: insert_deferred_def Let_def)
  have nt: "nothrow vt dfr"
  proof (rule ccontr)
    assume "\<not> nothrow vt dfr"
    from single_insert_never_placed [OF this] s show False by blast
  qed
  from insert_prepared [OF inv sw al cm nt p] s
  have "kdtree_inv c' \<and> mset (tree_values c') = add_mset v (mset (tree_values c))
      \<and> impl_start c1 \<le> it \<and> it < impl_finish c1 \<and> is_valid sm it \<and> vm it = v"
    unfolding c' by auto
  then show ?thesis
    using prepare_insert_index [OF p] prepare_insert_count [OF p] by (simp add: c')
qed

lemma insert_deferred_returns:
  fixes c :: "'v kdtree"
  assumes inv: "kdtree_inv c" and sw: "strict_weak (impl_index c)" and al: "alloc_ok c al"
    and cm: "dfr = Deferred_copy v \<or> dfr = Deferred_move v" and nt: "nothrow vt dfr"
    and av: "impl_count c = impl_capacity c \<longrightarrow> al \<noteq> None"
  shows "\<exists>it c'. insert_deferred vt al dfr c = Returned it c'"
proof -
  from prepare_returns [OF inv al av] obtain c1 where p: "prepare_insert al c = Returned () c1"
    by blast
  from insert_prepared [OF inv sw al cm nt p] obtain it vm' sm' where
    "single_insert (impl_index c1) vt (impl_full_state c1) 0
          (root_offset (impl_finish c1 - impl_start c1))
          (root (impl_start c1) (impl_finish c1 - impl_start c1)) dfr
          (impl_values c1) (impl_states c1) = Placed it vm' sm'"
    by blast
  with p show ?thesis by (simp add: insert_deferred_def Let_def)
qed

lemma kdtree_inv_tree:
  assumes inv: "kdtree_inv c" and it: "impl_start c \<le> it" "it < impl_finish c"
  shows "balanced (impl_states c) (root_offset (impl_finish c - impl_start c))
           (root (impl_start c) (impl_finish c - impl_start c))"
    and "kd_ordered (impl_index c) (impl_values c) (impl_states c) 0
           (root_offset (impl_finish c - impl_start c))
           (root (impl_start c) (impl_finish c - impl_start c))"
proof -
  from it have dz: "impl_finish c - impl_start c \<noteq> 0" by simp
  from kdtree_inv_span [OF inv dz] obtain h where
    sp: "impl_finish c - impl_start c = 2 ^ Suc h - 1"
    and sh: "shape_ok (impl_full_state c) (impl_states c) (off_of h) (impl_start c + 2 ^ h - 1)"
    and kd: "kd_ordered (impl_index c) (impl_values c) (impl_states c) 0 (off_of h)
          (impl_start c + 2 ^ h - 1)"
    by blast
  show "balanced (impl_states c) (root_offset (impl_finish c - impl_start c))
           (root (impl_start c) (impl_finish c - impl_start c))"
    unfolding sp root_offset_pow root_pow by (rule shape_ok_balanced [OF sh])
  show "kd_ordered (impl_index c) (impl_values c) (impl_states c) 0
           (root_offset (impl_finish c - impl_start c))
           (root (impl_start c) (impl_finish c - impl_start c))"
    unfolding sp root_offset_pow root_pow by (rule kd)
qed

lemma alloc_ok_None: "alloc_ok c None"
  by (simp add: alloc_ok_def)

section \<open>The lookup finds what the tree holds\<close>










lemma insert_all_inv:
  fixes c0 :: "'v kdtree"
  assumes sw: "strict_weak (impl_index c0)"
    and alloc: "\<forall>c. kdtree_inv c \<longrightarrow> alloc_ok c (alloc c)"
  shows "kdtree_inv c0 \<Longrightarrow> insert_all vt alloc vs c0 = Some c
     \<Longrightarrow> kdtree_inv c \<and> impl_index c = impl_index c0
         \<and> mset (tree_values c) = mset vs + mset (tree_values c0)"
  using sw
proof (induction vs arbitrary: c0)
  case Nil
  then show ?case by simp
next
  case (Cons v vs)
  from Cons.prems(2) obtain it c1 where
    r: "kdtree_insert vt (alloc c0) v c0 = Returned it c1"
    and rest: "insert_all vt alloc vs c1 = Some c"
    by (cases "kdtree_insert vt (alloc c0) v c0") simp_all
  from alloc Cons.prems(1) have al: "alloc_ok c0 (alloc c0)" by blast
  from insert_deferred_correct [OF Cons.prems(1) Cons.prems(3) al _ r [unfolded kdtree_insert_def],
      of v]
  have inv1: "kdtree_inv c1" and ix1: "impl_index c1 = impl_index c0"
    and ms1: "mset (tree_values c1) = add_mset v (mset (tree_values c0))"
    by simp_all
  from Cons.prems(3) ix1 have sw1: "strict_weak (impl_index c1)" by simp
  from Cons.IH [OF inv1 rest sw1] ix1 ms1 show ?case by simp
qed

lemma kdtree_members_inv: "kdtree_inv (kdtree_members i vm sm)"
  by (simp add: kdtree_inv_def kdtree_members_def all_ones_0)

lemma kdtree_sized_inv:
  assumes "kdtree_sized al n i vm sm = Some c" and "uint (ftz n) < 2 ^ 63"
  shows "kdtree_inv c \<and> size_of c = 0"
proof (cases "n = 0")
  case True
  with assms(1) have "c = kdtree_members i vm sm"
    by (simp add: kdtree_sized_def alloc_storage_def)
  then show ?thesis using kdtree_members_inv [of i vm sm]
    by (simp add: size_of_def kdtree_members_def)
next
  case False
  with assms(1) obtain vp where
    c: "c = (kdtree_members i vm sm)\<lparr> impl_capacity := ftz n, impl_start := vp,
              impl_finish := vp \<rparr>"
    by (auto simp: kdtree_sized_def alloc_storage_def split: option.splits)
  obtain k where k: "unat (ftz n) = 2 ^ k - 1" using ftz_smallest [of n] by blast
  have "(1::nat) \<le> 2 ^ k" by simp
  then have "int (2 ^ k - 1) = 2 ^ k - 1" by (simp add: of_nat_diff)
  with k have "uint (ftz n) = 2 ^ k - 1" by (simp add: uint_nat)
  then have "all_ones (uint (ftz n))" by (simp only: all_ones_pow)
  with assms(2) show ?thesis
    by (simp add: c kdtree_inv_def kdtree_members_def size_of_def)
qed

lemma none_of_three_inv: "kdtree_inv none_of_three"
  by (simp add: kdtree_inv_def none_of_three_def all_ones_3)

text \<open>
  Claim C7. A container constructed with the size hint \<open>n\<close> has the capacity
  \<^verbatim>\<open>ftz(n)\<close> and the size 0; the construction succeeds when the hint is 0 or the allocator
  returns a block. \<^verbatim>\<open>ftz(n)\<close> is the smallest number of the form \<open>2 ^ k - 1\<close> that is at
  least \<open>n\<close>; it is 0 for 0, 1 for 1 and 15 for 10.
\<close>

theorem capacity_geometry:
  "(kdtree_sized al n i vm sm = Some c \<longrightarrow> capacity c = ftz n \<and> size_of c = 0)
   \<and> (n = 0 \<or> al \<noteq> None \<longrightarrow> kdtree_sized al n i vm sm \<noteq> None)
   \<and> (\<exists>k. unat (ftz n) = 2 ^ k - 1 \<and> unat n \<le> 2 ^ k - 1
            \<and> (\<forall>j. unat n \<le> 2 ^ j - 1 \<longrightarrow> k \<le> j))
   \<and> ftz 0 = 0 \<and> ftz 1 = 1 \<and> ftz 10 = 15"
proof -
  have z: "ftz 0 = 0" by (simp add: ftz_def)
  have "kdtree_sized al n i vm sm = Some c \<longrightarrow> capacity c = ftz n \<and> size_of c = 0"
    using z
    by (auto simp: kdtree_sized_def alloc_storage_def kdtree_members_def capacity_def
        size_of_def split: option.splits if_splits)
  moreover have "n = 0 \<or> al \<noteq> None \<longrightarrow> kdtree_sized al n i vm sm \<noteq> None"
    by (auto simp: kdtree_sized_def alloc_storage_def split: option.splits)
  moreover have "ftz 1 = 1" "ftz 10 = 15" by (simp_all add: ftz_def)
  ultimately show ?thesis using z ftz_smallest [of n] by blast
qed

theorem capacity_geometry_witness:
  "kdtree_sized (Some 0) 10 pod_index (\<lambda>a. 0) (\<lambda>a. Invalid) \<noteq> None
   \<and> capacity (the (kdtree_sized (Some 0) 10 pod_index (\<lambda>a. 0) (\<lambda>a. Invalid))) = 15
   \<and> size_of (the (kdtree_sized (Some 0) 10 pod_index (\<lambda>a. 0) (\<lambda>a. Invalid))) = 0"
  using capacity_geometry [where al = "Some 0" and n = 10 and i = pod_index
      and vm = "\<lambda>a. 0" and sm = "\<lambda>a. Invalid"
      and c = "the (kdtree_sized (Some 0) 10 pod_index (\<lambda>a. 0) (\<lambda>a. Invalid))"]
  by auto

section \<open>Erase\<close>

text \<open>
  Claim C9. Both \<^verbatim>\<open>erase\<close> overloads subtract one from the count (a \<^verbatim>\<open>std::size_t\<close>, so
  the subtraction wraps at zero) and change nothing else: the value memory, the state
  memory, start, finish, capacity, full state and index are those of the container before
  the call; the overload taking a value returns 0 whatever the value is.
\<close>

theorem erase_only_decrements_count:
  "fst (kdtree_erase v c) = 0
   \<and> impl_count (snd (kdtree_erase v c)) = impl_count c - 1
   \<and> impl_values (snd (kdtree_erase v c)) = impl_values c
   \<and> impl_states (snd (kdtree_erase v c)) = impl_states c
   \<and> impl_start (snd (kdtree_erase v c)) = impl_start c
   \<and> impl_finish (snd (kdtree_erase v c)) = impl_finish c
   \<and> impl_capacity (snd (kdtree_erase v c)) = impl_capacity c
   \<and> impl_full_state (snd (kdtree_erase v c)) = impl_full_state c
   \<and> impl_index (snd (kdtree_erase v c)) = impl_index c
   \<and> snd (kdtree_erase v c) = c\<lparr> impl_count := impl_count c - 1 \<rparr>
   \<and> kdtree_erase_at it c = c\<lparr> impl_count := impl_count c - 1 \<rparr>"
  by (simp add: kdtree_erase_def kdtree_erase_at_def)

section \<open>Minimum and maximum of a subtree\<close>

text \<open>
  Claim C4, as stated (the first-encountered value wins a tie), fails on a subtree of three
  slots holding the value 5 at its root (slot 1) and at its left leaf (slot 0): the root is
  encountered first, the two are tied on the axis, and both \<^verbatim>\<open>minimum\<close> and \<^verbatim>\<open>maximum\<close>
  return slot 0, the one encountered last.
\<close>

theorem extremum_first_tied_counterexample:
  "strict_weak pod_index
   \<and> shape_ok Heads ((\<lambda>a. Invalid)(0 := Heads, 1 := Unsure)) 1 1
   \<and> kd_ordered pod_index (\<lambda>a. 5) ((\<lambda>a. Invalid)(0 := Heads, 1 := Unsure)) 0 1 1
   \<and> is_valid ((\<lambda>a. Invalid)(0 := Heads, 1 := Unsure)) 1
   \<and> 1 # minimum_visits ((\<lambda>a. Invalid)(0 := Heads, 1 := Unsure)) 1 0 0 1 1 = [1, 0]
   \<and> \<not> select_compare 0 ((\<lambda>a. 5) (1::int)) ((\<lambda>a. 5) (0::int)) pod_index
   \<and> \<not> select_compare 0 ((\<lambda>a. 5) (0::int)) ((\<lambda>a. 5) (1::int)) pod_index
   \<and> minimum pod_index (\<lambda>a. 5) ((\<lambda>a. Invalid)(0 := Heads, 1 := Unsure)) 0 0 1 1 = 0
   \<and> maximum pod_index (\<lambda>a. 5) ((\<lambda>a. Invalid)(0 := Heads, 1 := Unsure)) 0 0 1 1 = 0"
  using strict_weak_pod
  by (simp add: shape_ok_one kd_ordered_one minimum_visits_leaves minimum_def maximum_def
      minimum_loop_leaves maximum_loop_leaves is_valid_def left_def right_def
      pick_lower_def pick_upper_def select_compare_def pod_index_def)

text \<open>
  Claim C4, amended. For a subtree with a live root that satisfies the shape and the k-d
  ordering, and for a fixed axis \<open>f\<close>, \<^verbatim>\<open>minimum\<close> returns a live slot of the subtree whose key on
  \<open>f\<close> is not greater than the key of any live slot of the subtree; among the slots
  examined, every one examined after the returned slot has a strictly greater key, so on a
  tie the slot encountered last wins. \<^verbatim>\<open>maximum\<close> is symmetric.
\<close>

theorem extremum_last_tied:
  assumes "strict_weak ix" and "f < kth ix"
    and "shape_ok fs sm (off_of h) n" and "kd_ordered ix vm sm d (off_of h) n"
    and "is_valid sm n"
  shows "minimum ix vm sm f d (off_of h) n \<in> set (subtree_slots (off_of h) n)
     \<and> is_valid sm (minimum ix vm sm f d (off_of h) n)
     \<and> (\<forall>a\<in>set (subtree_slots (off_of h) n). is_valid sm a
           \<longrightarrow> \<not> select_compare f (vm a) (vm (minimum ix vm sm f d (off_of h) n)) ix)
     \<and> (\<exists>ys zs. n # minimum_visits sm (kth ix) f d (off_of h) n
             = ys @ minimum ix vm sm f d (off_of h) n # zs
           \<and> (\<forall>z\<in>set zs. select_compare f (vm (minimum ix vm sm f d (off_of h) n)) (vm z) ix))
     \<and> maximum ix vm sm f d (off_of h) n \<in> set (subtree_slots (off_of h) n)
     \<and> is_valid sm (maximum ix vm sm f d (off_of h) n)
     \<and> (\<forall>a\<in>set (subtree_slots (off_of h) n). is_valid sm a
           \<longrightarrow> \<not> select_compare f (vm (maximum ix vm sm f d (off_of h) n)) (vm a) ix)
     \<and> (\<exists>ys zs. n # maximum_visits sm (kth ix) f d (off_of h) n
             = ys @ maximum ix vm sm f d (off_of h) n # zs
           \<and> (\<forall>z\<in>set zs. select_compare f (vm z) (vm (maximum ix vm sm f d (off_of h) n)) ix))"
  using minimum_correct [OF assms] maximum_correct [OF assms] by blast

theorem extremum_last_tied_witness:
  "strict_weak pod_index \<and> (0::nat) < kth pod_index
   \<and> shape_ok Heads ((\<lambda>a. Invalid)(0 := Heads, 1 := Unsure)) (off_of 1) 1
   \<and> kd_ordered pod_index (\<lambda>a. 5) ((\<lambda>a. Invalid)(0 := Heads, 1 := Unsure)) 0 (off_of 1) 1
   \<and> is_valid ((\<lambda>a. Invalid)(0 := Heads, 1 := Unsure)) 1
   \<and> is_valid ((\<lambda>a. Invalid)(0 := Heads, 1 := Unsure))
        (minimum pod_index (\<lambda>a. 5) ((\<lambda>a. Invalid)(0 := Heads, 1 := Unsure)) 0 0 (off_of 1) 1)
   \<and> is_valid ((\<lambda>a. Invalid)(0 := Heads, 1 := Unsure))
        (maximum pod_index (\<lambda>a. 5) ((\<lambda>a. Invalid)(0 := Heads, 1 := Unsure)) 0 0 (off_of 1) 1)"
proof -
  let ?sm = "(\<lambda>a. Invalid)(0 := Heads, 1 := Unsure) :: smem"
  have k: "(0::nat) < kth pod_index" by (simp add: pod_index_def)
  have sh: "shape_ok Heads ?sm (off_of 1) 1"
    by (simp add: off_of_Suc_0 shape_ok_one is_valid_def left_def right_def)
  have kd: "kd_ordered pod_index (\<lambda>a. 5) ?sm 0 (off_of 1) 1"
    by (simp add: off_of_Suc_0 kd_ordered_one is_valid_def left_def right_def
        select_compare_def pod_index_def)
  have v: "is_valid ?sm 1" by (simp add: is_valid_def)
  from extremum_last_tied [OF strict_weak_pod k sh kd v] strict_weak_pod k sh kd v
  show ?thesis by blast
qed

section \<open>Insertion of a value equal to the node on the split dimension\<close>

text \<open>
  Claim C5, as stated (with both children not full the insertion recurses into the right
  child), fails on a subtree of seven slots rooted at slot 3 with offset 2 whose only live
  slots are 1, 3 and 5, all holding 5: neither child is full, the value 5 is equal to the
  root on the split dimension, and the value is placed in slot 2, a slot of the left
  child's subtree.
\<close>

theorem equal_key_prefers_right_counterexample:
  "(1::int) < 2
   \<and> \<not> select_compare 0 (cref (Deferred_copy 5) (\<lambda>a. 5)) ((\<lambda>a. 5) (3::int)) pod_index
   \<and> \<not> select_compare 0 ((\<lambda>a. 5) (3::int)) (cref (Deferred_copy 5) (\<lambda>a. 5)) pod_index
   \<and> ((\<lambda>a. Invalid)(1 := Tails, 3 := Tails, 5 := Tails)) (left 3 2) \<noteq> Heads
   \<and> ((\<lambda>a. Invalid)(1 := Tails, 3 := Tails, 5 := Tails)) (right 3 2) \<noteq> Heads
   \<and> shape_ok Heads ((\<lambda>a. Invalid)(1 := Tails, 3 := Tails, 5 := Tails)) 2 3
   \<and> kd_ordered pod_index (\<lambda>a. 5) ((\<lambda>a. Invalid)(1 := Tails, 3 := Tails, 5 := Tails)) 0 2 3
   \<and> (case single_insert pod_index nothrow_traits Heads 0 2 3 (Deferred_copy 5) (\<lambda>a. 5)
        ((\<lambda>a. Invalid)(1 := Tails, 3 := Tails, 5 := Tails)) of
         Placed ins vm' sm' \<Rightarrow> ins = 2 \<and> ins \<in> set (subtree_slots 1 (left 3 2))
             \<and> ins \<notin> set (subtree_slots 1 (right 3 2))
       | Thrown vm' sm' \<Rightarrow> False)"
proof -
  let ?sm = "(\<lambda>a. Invalid)(1 := Tails, 3 := Tails, 5 := Tails) :: smem"
  have two: "off_of (Suc (Suc 0)) = 2" unfolding off_of.simps by simp
  have "shape_ok Heads ?sm (off_of (Suc (Suc 0))) 3"
    by (subst shape_ok_node)
       (simp add: two left_off right_off off_of_Suc_0 shape_ok_one left_def right_def is_valid_def)
  then have sh: "shape_ok Heads ?sm 2 3" unfolding two .
  have "kd_ordered pod_index (\<lambda>a. 5) ?sm 0 (off_of (Suc (Suc 0))) 3"
    by (subst kd_ordered_node)
       (simp add: two left_off right_off off_of_Suc_0 kd_ordered_one live_values_one
        left_def right_def is_valid_def select_compare_def pod_index_def inc_dim_def)
  then have kd: "kd_ordered pod_index (\<lambda>a. 5) ?sm 0 2 3" unfolding two .
  have cmp: "\<not> select_compare 0 (5::int) 5 pod_index"
    by (simp add: select_compare_def pod_index_def)
  have dim: "inc_dim (kth pod_index) 0 = 0"
    by (simp add: inc_dim_def pod_index_def)
  have lv: "single_insert pod_index nothrow_traits Heads 0 1 1 (Deferred_copy 5)
                (\<lambda>a. 5) ?sm = Placed 2 ((\<lambda>a. 5)(2 := 5)) (?sm(2 := Heads))"
    by (subst single_insert.simps)
       (simp add: single_insert_leaves_def cmp left_def right_def is_valid_def
          nothrow_traits_def)
  have si: "single_insert pod_index nothrow_traits Heads 0 2 3 (Deferred_copy 5) (\<lambda>a. 5) ?sm
      = Placed 2 ((\<lambda>a. 5)(2 := 5)) ((?sm(2 := Heads))(3 := Tails))"
    by (subst single_insert.simps) (simp add: cmp dim left_def right_def lv state_plus_def)
  have sl: "(2::int) \<in> set (subtree_slots 1 (left 3 2))"
      "(2::int) \<notin> set (subtree_slots 1 (right 3 2))"
    by (simp_all add: subtree_slots_one left_def right_def)
  show ?thesis
    using sh kd sl cmp unfolding si
    by (simp add: left_def right_def)
qed

text \<open>
  Claim C5, amended. In a subtree with offset greater than 1, when the pending value is
  neither strictly less nor strictly greater than the node's value on the node's split
  dimension, \<^verbatim>\<open>_single_insert\<close> recurses into the right child when the left child's state is
  the full state and into the left child otherwise (so into the left child when neither
  is full), and then sets the node's state to the sum of its children's states.
\<close>

theorem equal_key_descent:
  assumes "1 < offset"
    and "\<not> select_compare d (cref dfr vm) (vm n) ix"
    and "\<not> select_compare d (vm n) (cref dfr vm) ix"
  shows "single_insert ix vt fs d offset n dfr vm sm =
      (case single_insert ix vt fs (inc_dim (kth ix) d) (offset sdiv 2)
              (if sm (left n offset) = fs then right n offset else left n offset) dfr vm sm of
         Thrown vm' sm' \<Rightarrow> Thrown vm' sm'
       | Placed ins vm' sm' \<Rightarrow>
           Placed ins vm' (sm'(n := state_plus (sm' (left n offset)) (sm' (right n offset)))))"
  using assms by (subst single_insert.simps) (simp add: Let_def)

theorem equal_key_descent_witness:
  "(1::int) < 2
   \<and> \<not> select_compare 0 (cref (Deferred_copy 5) (\<lambda>a. 5)) ((\<lambda>a. 5) (3::int)) pod_index
   \<and> \<not> select_compare 0 ((\<lambda>a. 5) (3::int)) (cref (Deferred_copy 5) (\<lambda>a. 5)) pod_index
   \<and> single_insert pod_index nothrow_traits Heads 0 2 3 (Deferred_copy 5) (\<lambda>a. 5)
        ((\<lambda>a. Invalid)(1 := Heads, 3 := Tails, 5 := Tails))
      = (case single_insert pod_index nothrow_traits Heads (inc_dim (kth pod_index) 0) (2 sdiv 2)
                (right 3 2) (Deferred_copy 5)
                (\<lambda>a. 5) ((\<lambda>a. Invalid)(1 := Heads, 3 := Tails, 5 := Tails)) of
           Thrown vm' sm' \<Rightarrow> Thrown vm' sm'
         | Placed ins vm' sm' \<Rightarrow>
             Placed ins vm' (sm'(3 := state_plus (sm' (left 3 2)) (sm' (right 3 2)))))"
proof -
  have a: "(1::int) < 2" by simp
  have b: "\<not> select_compare 0 (cref (Deferred_copy 5) (\<lambda>a. 5)) ((\<lambda>a. 5) (3::int)) pod_index"
    by (simp add: select_compare_def pod_index_def)
  have c: "\<not> select_compare 0 ((\<lambda>a. 5) (3::int)) (cref (Deferred_copy 5) (\<lambda>a. 5)) pod_index"
    by (simp add: select_compare_def pod_index_def)
  show ?thesis
    using equal_key_descent [OF a b c, where vt = nothrow_traits and fs = Heads
        and sm = "(\<lambda>a. Invalid)(1 := Heads, 3 := Tails, 5 := Tails)"] b c
    by (simp add: left_def right_def)
qed

section \<open>Insertion of a value whose constructor throws\<close>

text \<open>
  Claim C8 at a failing input. The container of capacity 3 that holds 5 and 3 satisfies
  the invariant and has size 2. An insertion of 9 whose copy constructor throws leaves the
  size at 3 with the two values 3 and 5 live; the following insertion of 9, which
  succeeds, then takes the tree for full, doubles the span and places 9 below a slot that
  is not live, and \<^verbatim>\<open>find\<close> of 9 returns \<^verbatim>\<open>end()\<close>. An insertion of 1 whose copy constructor
  throws leaves the size at 3 and the slot it was building in, slot 0, live: the slot
  holds its former value 3, a copy of which is in slot 1, or whatever the constructor had
  written before it threw. The claim asks for the size before the call and for an Invalid
  slot.
\<close>

theorem failed_construction_corrupts_container:
  "Option.bind (kdtree_sized (Some 0) 3 pod_index (\<lambda>a. 0) (\<lambda>a. Invalid))
       (insert_all nothrow_traits (\<lambda>c. None) [5, 3]) = Some two_of_three
   \<and> kdtree_inv two_of_three \<and> size_of two_of_three = 2
   \<and> tree_values two_of_three = [3, 5]
   \<and> (case kdtree_insert throwing_traits None 9 two_of_three of
         Raised c' \<Rightarrow>
           size_of c' = 3 \<and> tree_values c' = [3, 5]
           \<and> (case kdtree_insert nothrow_traits (Some 10) 9 c' of
                 Returned it c'' \<Rightarrow>
                   is_valid (impl_states c'') it \<and> impl_values c'' it = 9
                   \<and> kdtree_find 9 c'' = end_of c''
               | Raised c'' \<Rightarrow> False
               | Diverged \<Rightarrow> False)
       | Returned it c' \<Rightarrow> False
       | Diverged \<Rightarrow> False)
   \<and> (case kdtree_insert throwing_traits None 1 two_of_three of
         Raised c' \<Rightarrow>
           size_of c' = 3 \<and> is_valid (impl_states c') 0 \<and> tree_values c' = [3, 3, 5]
       | Returned it c' \<Rightarrow> False
       | Diverged \<Rightarrow> False)
   \<and> (case kdtree_insert (scribbling_traits (- 1)) None 1 two_of_three of
         Raised c' \<Rightarrow>
           size_of c' = 3 \<and> is_valid (impl_states c') 0 \<and> tree_values c' = [- 1, 3, 5]
       | Returned it c' \<Rightarrow> False
       | Diverged \<Rightarrow> False)"
proof -
  have a: "size_of two_of_three = 2" "tree_values two_of_three = [3, 5]"
    by code_simp+
  have b: "(case kdtree_insert throwing_traits None 9 two_of_three of
         Raised c' \<Rightarrow>
           size_of c' = 3 \<and> tree_values c' = [3, 5]
           \<and> (case kdtree_insert nothrow_traits (Some 10) 9 c' of
                 Returned it c'' \<Rightarrow>
                   is_valid (impl_states c'') it \<and> impl_values c'' it = 9
                   \<and> kdtree_find 9 c'' = end_of c''
               | Raised c'' \<Rightarrow> False
               | Diverged \<Rightarrow> False)
       | Returned it c' \<Rightarrow> False
       | Diverged \<Rightarrow> False)"
    by code_simp
  have c: "(case kdtree_insert throwing_traits None 1 two_of_three of
         Raised c' \<Rightarrow>
           size_of c' = 3 \<and> is_valid (impl_states c') 0 \<and> tree_values c' = [3, 3, 5]
       | Returned it c' \<Rightarrow> False
       | Diverged \<Rightarrow> False)"
    by code_simp
  have d: "(case kdtree_insert (scribbling_traits (- 1)) None 1 two_of_three of
         Raised c' \<Rightarrow>
           size_of c' = 3 \<and> is_valid (impl_states c') 0 \<and> tree_values c' = [- 1, 3, 5]
       | Returned it c' \<Rightarrow> False
       | Diverged \<Rightarrow> False)"
    by code_simp
  from two_of_three_reached two_of_three_inv a b c d show ?thesis by blast
qed

section \<open>Lookup in an empty container\<close>

text \<open>
  Claim C10. When the size is 0, \<^verbatim>\<open>find\<close> returns \<^verbatim>\<open>end()\<close> whatever the memories and the
  comparator are, also when no slot of either memory exists and no call of the comparator
  returns: it reads no slot and does not call the comparator, and it returns although
  there is no root slot. Nothing is assumed of the capacity.
\<close>

theorem find_in_empty_touches_nothing:
  "size_of c = 0 \<Longrightarrow>
     kdtree_find_checked cmp pvm psm val c = Some (end_of c)
     \<and> kdtree_find_checked (\<lambda>d a b. None) Map.empty Map.empty val c = Some (end_of c)
     \<and> kdtree_find val c = end_of c"
  by (simp add: kdtree_find_checked_def kdtree_find_def size_of_def end_of_def)

theorem find_in_empty_touches_nothing_witness:
  "size_of (kdtree_members pod_index (\<lambda>a. 0) (\<lambda>a. Unsure)) = 0
   \<and> capacity (kdtree_members pod_index (\<lambda>a. 0) (\<lambda>a. Unsure)) = 0
   \<and> kdtree_find_checked (\<lambda>d a b. None) Map.empty Map.empty 5
        (kdtree_members pod_index (\<lambda>a. 0) (\<lambda>a. Unsure))
       = Some (end_of (kdtree_members pod_index (\<lambda>a. 0) (\<lambda>a. Unsure)))"
proof -
  have h: "size_of (kdtree_members pod_index (\<lambda>a. 0::int) (\<lambda>a. Unsure)) = 0"
    by (simp add: size_of_def kdtree_members_def)
  show ?thesis
    using h find_in_empty_touches_nothing [OF h, where val = 5 and cmp = "\<lambda>d a b. None"
        and pvm = Map.empty and psm = Map.empty]
    by (simp add: capacity_def kdtree_members_def)
qed

section \<open>Doubling the span in place\<close>





section \<open>Balance after an insertion\<close>

text \<open>
  Claim C1. For a container that satisfies the invariant, with a comparator that is a
  strict weak ordering along every dimension and an allocator whose blocks do not overlap
  the container's: after an insertion that returns, by copy or by move, at every live
  node the heights of the live left and right subtrees differ by at most one, and the
  invariant holds again, so the same is true after every further insertion. Rotations
  through full subtrees are part of the insertion. An insertion returns whenever the
  constructor does not throw and the allocator gives a block when one is needed.
\<close>

theorem insert_keeps_balance:
  fixes c :: "'v kdtree"
  assumes inv: "kdtree_inv c" and sw: "strict_weak (impl_index c)" and al: "alloc_ok c al"
  shows "(\<forall>it c'. kdtree_insert vt al v c = Returned it c'
                  \<or> kdtree_insert_move vt al v c = Returned it c' \<longrightarrow>
            balanced (impl_states c') (root_offset (impl_finish c' - impl_start c'))
              (root (impl_start c') (impl_finish c' - impl_start c'))
            \<and> kdtree_inv c')
     \<and> (\<not> copy_throws vt v \<and> (impl_count c = impl_capacity c \<longrightarrow> al \<noteq> None) \<longrightarrow>
            (\<exists>it c'. kdtree_insert vt al v c = Returned it c'))
     \<and> (\<not> move_throws vt v \<and> (impl_count c = impl_capacity c \<longrightarrow> al \<noteq> None) \<longrightarrow>
            (\<exists>it c'. kdtree_insert_move vt al v c = Returned it c'))"
proof (intro conjI allI impI)
  fix it c'
  assume "kdtree_insert vt al v c = Returned it c'
            \<or> kdtree_insert_move vt al v c = Returned it c'"
  then obtain dfr where cm: "dfr = Deferred_copy v \<or> dfr = Deferred_move v"
    and ret: "insert_deferred vt al dfr c = Returned it c'"
    unfolding kdtree_insert_def kdtree_insert_move_def by blast
  from insert_deferred_correct [OF inv sw al cm ret]
  have inv': "kdtree_inv c'" and it: "impl_start c' \<le> it" "it < impl_finish c'" by blast+
  from kdtree_inv_tree(1) [OF inv' it]
  show "balanced (impl_states c') (root_offset (impl_finish c' - impl_start c'))
              (root (impl_start c') (impl_finish c' - impl_start c'))" .
  show "kdtree_inv c'" by (rule inv')
next
  assume "\<not> copy_throws vt v \<and> (impl_count c = impl_capacity c \<longrightarrow> al \<noteq> None)"
  then have nt: "nothrow vt (Deferred_copy v)"
    and av: "impl_count c = impl_capacity c \<longrightarrow> al \<noteq> None" by simp_all
  from insert_deferred_returns [OF inv sw al _ nt av, of v]
  show "\<exists>it c'. kdtree_insert vt al v c = Returned it c'"
    by (simp add: kdtree_insert_def)
next
  assume "\<not> move_throws vt v \<and> (impl_count c = impl_capacity c \<longrightarrow> al \<noteq> None)"
  then have nt: "nothrow vt (Deferred_move v)"
    and av: "impl_count c = impl_capacity c \<longrightarrow> al \<noteq> None" by simp_all
  from insert_deferred_returns [OF inv sw al _ nt av, of v]
  show "\<exists>it c'. kdtree_insert_move vt al v c = Returned it c'"
    by (simp add: kdtree_insert_move_def)
qed

theorem insert_keeps_balance_witness:
  "\<exists>c it c'.
     insert_all nothrow_traits bump_alloc [4, 2, 6, 1, 3]
         (kdtree_members pod_index (\<lambda>a. 0) (\<lambda>a. Unsure)) = Some c
     \<and> tree_values c = [1, 2, 3, 4, 6]
     \<and> impl_states c (left (root (impl_start c) (impl_finish c - impl_start c))
                          (root_offset (impl_finish c - impl_start c))) = impl_full_state c
     \<and> kdtree_insert nothrow_traits (bump_alloc c) 0 c = Returned it c'
     \<and> tree_values c' = [0, 1, 2, 3, 4, 6]
     \<and> balanced (impl_states c') (root_offset (impl_finish c' - impl_start c'))
           (root (impl_start c') (impl_finish c' - impl_start c'))
     \<and> kdtree_inv c'"
proof -
  let ?c0 = "kdtree_members pod_index (\<lambda>a. 0::int) (\<lambda>a. Unsure)"
  have sw0: "strict_weak (impl_index ?c0)"
    using strict_weak_pod by (simp add: kdtree_members_def)
  have al: "\<forall>c :: int kdtree. kdtree_inv c \<longrightarrow> alloc_ok c (bump_alloc c)"
    by (simp add: bump_alloc_ok)
  have "case insert_all nothrow_traits bump_alloc [4, 2, 6, 1, 3] ?c0 of
          Some c \<Rightarrow>
            tree_values c = [1, 2, 3, 4, 6]
            \<and> impl_states c (left (root (impl_start c) (impl_finish c - impl_start c))
                          (root_offset (impl_finish c - impl_start c))) = impl_full_state c
            \<and> (case kdtree_insert nothrow_traits (bump_alloc c) 0 c of
                  Returned it c' \<Rightarrow> tree_values c' = [0, 1, 2, 3, 4, 6]
                | Raised c' \<Rightarrow> False
                | Diverged \<Rightarrow> False)
        | None \<Rightarrow> False"
    by code_simp
  then obtain c it c' where
    c: "insert_all nothrow_traits bump_alloc [4, 2, 6, 1, 3] ?c0 = Some c"
    and tv: "tree_values c = [1, 2, 3, 4, 6]"
    and full: "impl_states c (left (root (impl_start c) (impl_finish c - impl_start c))
                          (root_offset (impl_finish c - impl_start c))) = impl_full_state c"
    and r: "kdtree_insert nothrow_traits (bump_alloc c) 0 c = Returned it c'"
    and tv': "tree_values c' = [0, 1, 2, 3, 4, 6]"
    by (auto split: option.splits outcome.splits)
  from insert_all_inv [OF sw0 al kdtree_members_inv c]
  have inv: "kdtree_inv c" and ix: "impl_index c = impl_index ?c0" by simp_all
  have sw: "strict_weak (impl_index c)" using sw0 ix by simp
  note t = insert_keeps_balance [OF inv sw bump_alloc_ok, where vt = nothrow_traits and v = 0,
      THEN conjunct1, rule_format, OF disjI1 [OF r]]
  from c tv full r tv' t show ?thesis by blast
qed

section \<open>The k-d ordering after an insertion\<close>

text \<open>
  Claim C2. Under the same conditions, after an insertion that returns, at every live
  node, with split dimension \<open>d\<close>, no live value of the right subtree is less than the
  node's value along \<open>d\<close> and no live value of the left subtree is greater; the container
  holds the values it held and the inserted one, under the same index, and satisfies the
  invariant again.
\<close>

theorem insert_keeps_kd_order:
  fixes c :: "'v kdtree"
  assumes inv: "kdtree_inv c" and sw: "strict_weak (impl_index c)" and al: "alloc_ok c al"
  shows "(\<forall>it c'. kdtree_insert vt al v c = Returned it c'
                  \<or> kdtree_insert_move vt al v c = Returned it c' \<longrightarrow>
            kd_ordered (impl_index c') (impl_values c') (impl_states c') 0
              (root_offset (impl_finish c' - impl_start c'))
              (root (impl_start c') (impl_finish c' - impl_start c'))
            \<and> impl_index c' = impl_index c
            \<and> mset (tree_values c') = add_mset v (mset (tree_values c))
            \<and> kdtree_inv c')
     \<and> (\<not> copy_throws vt v \<and> (impl_count c = impl_capacity c \<longrightarrow> al \<noteq> None) \<longrightarrow>
            (\<exists>it c'. kdtree_insert vt al v c = Returned it c'))
     \<and> (\<not> move_throws vt v \<and> (impl_count c = impl_capacity c \<longrightarrow> al \<noteq> None) \<longrightarrow>
            (\<exists>it c'. kdtree_insert_move vt al v c = Returned it c'))"
proof (intro conjI allI impI)
  fix it c'
  assume "kdtree_insert vt al v c = Returned it c'
            \<or> kdtree_insert_move vt al v c = Returned it c'"
  then obtain dfr where cm: "dfr = Deferred_copy v \<or> dfr = Deferred_move v"
    and ret: "insert_deferred vt al dfr c = Returned it c'"
    unfolding kdtree_insert_def kdtree_insert_move_def by blast
  from insert_deferred_correct [OF inv sw al cm ret]
  have inv': "kdtree_inv c'" and it: "impl_start c' \<le> it" "it < impl_finish c'"
    and ix: "impl_index c' = impl_index c"
    and ms: "mset (tree_values c') = add_mset v (mset (tree_values c))" by blast+
  from kdtree_inv_tree(2) [OF inv' it]
  show "kd_ordered (impl_index c') (impl_values c') (impl_states c') 0
              (root_offset (impl_finish c' - impl_start c'))
              (root (impl_start c') (impl_finish c' - impl_start c'))" .
  show "kdtree_inv c'" by (rule inv')
  show "impl_index c' = impl_index c" by (rule ix)
  show "mset (tree_values c') = add_mset v (mset (tree_values c))" by (rule ms)
next
  assume "\<not> copy_throws vt v \<and> (impl_count c = impl_capacity c \<longrightarrow> al \<noteq> None)"
  then have nt: "nothrow vt (Deferred_copy v)"
    and av: "impl_count c = impl_capacity c \<longrightarrow> al \<noteq> None" by simp_all
  from insert_deferred_returns [OF inv sw al _ nt av, of v]
  show "\<exists>it c'. kdtree_insert vt al v c = Returned it c'"
    by (simp add: kdtree_insert_def)
next
  assume "\<not> move_throws vt v \<and> (impl_count c = impl_capacity c \<longrightarrow> al \<noteq> None)"
  then have nt: "nothrow vt (Deferred_move v)"
    and av: "impl_count c = impl_capacity c \<longrightarrow> al \<noteq> None" by simp_all
  from insert_deferred_returns [OF inv sw al _ nt av, of v]
  show "\<exists>it c'. kdtree_insert_move vt al v c = Returned it c'"
    by (simp add: kdtree_insert_move_def)
qed

theorem insert_keeps_kd_order_witness:
  "\<exists>c it c'.
     insert_all nothrow_traits bump_alloc [4, 2, 6, 5, 7]
         (kdtree_members pod_index (\<lambda>a. 0) (\<lambda>a. Unsure)) = Some c
     \<and> tree_values c = [2, 4, 5, 6, 7]
     \<and> impl_states c (right (root (impl_start c) (impl_finish c - impl_start c))
                          (root_offset (impl_finish c - impl_start c))) = impl_full_state c
     \<and> kdtree_insert_move nothrow_traits (bump_alloc c) 9 c = Returned it c'
     \<and> tree_values c' = [2, 4, 5, 6, 7, 9]
     \<and> kd_ordered (impl_index c') (impl_values c') (impl_states c') 0
           (root_offset (impl_finish c' - impl_start c'))
           (root (impl_start c') (impl_finish c' - impl_start c'))
     \<and> mset (tree_values c') = add_mset 9 (mset (tree_values c))
     \<and> kdtree_inv c'"
proof -
  let ?c0 = "kdtree_members pod_index (\<lambda>a. 0::int) (\<lambda>a. Unsure)"
  have sw0: "strict_weak (impl_index ?c0)"
    using strict_weak_pod by (simp add: kdtree_members_def)
  have al: "\<forall>c :: int kdtree. kdtree_inv c \<longrightarrow> alloc_ok c (bump_alloc c)"
    by (simp add: bump_alloc_ok)
  have "case insert_all nothrow_traits bump_alloc [4, 2, 6, 5, 7] ?c0 of
          Some c \<Rightarrow>
            tree_values c = [2, 4, 5, 6, 7]
            \<and> impl_states c (right (root (impl_start c) (impl_finish c - impl_start c))
                          (root_offset (impl_finish c - impl_start c))) = impl_full_state c
            \<and> (case kdtree_insert_move nothrow_traits (bump_alloc c) 9 c of
                  Returned it c' \<Rightarrow> tree_values c' = [2, 4, 5, 6, 7, 9]
                | Raised c' \<Rightarrow> False
                | Diverged \<Rightarrow> False)
        | None \<Rightarrow> False"
    by code_simp
  then obtain c it c' where
    c: "insert_all nothrow_traits bump_alloc [4, 2, 6, 5, 7] ?c0 = Some c"
    and tv: "tree_values c = [2, 4, 5, 6, 7]"
    and full: "impl_states c (right (root (impl_start c) (impl_finish c - impl_start c))
                          (root_offset (impl_finish c - impl_start c))) = impl_full_state c"
    and r: "kdtree_insert_move nothrow_traits (bump_alloc c) 9 c = Returned it c'"
    and tv': "tree_values c' = [2, 4, 5, 6, 7, 9]"
    by (auto split: option.splits outcome.splits)
  from insert_all_inv [OF sw0 al kdtree_members_inv c]
  have inv: "kdtree_inv c" and ix: "impl_index c = impl_index ?c0" by simp_all
  have sw: "strict_weak (impl_index c)" using sw0 ix by simp
  note t = insert_keeps_kd_order [OF inv sw bump_alloc_ok, where vt = nothrow_traits and v = 9,
      THEN conjunct1, rule_format, OF disjI2 [OF r]]
  from c tv full r tv' t show ?thesis by blast
qed

section \<open>Lookup after insertions\<close>



end
